(* ===== verification/Prelude.thy ===== *)
theory Prelude
  imports Main "HOL-Library.Word"
begin

text \<open>
  Shared vocabulary of the development: the widths of the Go integers that matter, the shift
  and conversion idioms of the codecs, the binary search of the standard library's
  \<open>sort\<close> package, and the list and word lemmas that several components use.

  Go's \<open>uint8\<close>, \<open>uint32\<close> and \<open>uint64\<close> are \<open>8 word\<close>, \<open>32 word\<close> and \<open>64 word\<close>; \<open>int\<close> values that
  can be negative are \<open>int\<close>; lengths and slice indices are \<open>nat\<close>. A byte slice is a list of
  bytes; where the code distinguishes a nil slice from an empty one, the model has an option.
\<close>

unbundle bit_operations_syntax

type_synonym byte = "8 word"
type_synonym u16 = "16 word"
type_synonym u32 = "32 word"
type_synonym u64 = "64 word"
type_synonym bytes = "byte list"

named_theorems go_simps \<open>unfolding rules of small Go idioms\<close>
named_theorems codec_simps \<open>equations that evaluate encoders and decoders\<close>

section \<open>The binary search of package sort\<close>

text \<open>
  \<open>sort.Search(n, f)\<close>: the loop keeps \<open>f(i-1) = false\<close> and \<open>f(j) = true\<close> and halves \<open>[i, j)\<close>.
\<close>

function search_loop :: "(nat \<Rightarrow> bool) \<Rightarrow> nat \<Rightarrow> nat \<Rightarrow> nat" where
  "search_loop f i j =
     (if i < j then
        (let h = (i + j) div 2 in
         if \<not> f h then search_loop f (h + 1) j else search_loop f i h)
      else i)"
  by pat_completeness auto
termination
  by (relation "measure (\<lambda>(f, i, j). j - i)") auto

declare search_loop.simps [simp del]

definition sort_search :: "nat \<Rightarrow> (nat \<Rightarrow> bool) \<Rightarrow> nat" where
  "sort_search n f = search_loop f 0 n"

definition search_post :: "nat \<Rightarrow> (nat \<Rightarrow> bool) \<Rightarrow> nat \<Rightarrow> bool" where
  "search_post n f r \<longleftrightarrow> r \<le> n \<and> (\<forall>k<r. \<not> f k) \<and> (\<forall>k. r \<le> k \<longrightarrow> k < n \<longrightarrow> f k)"

lemma search_loop_spec:
  assumes mono: "\<forall>a b. a \<le> b \<longrightarrow> b < n \<longrightarrow> f a \<longrightarrow> f b"
  shows "i \<le> j \<Longrightarrow> j \<le> n \<Longrightarrow> \<forall>k<i. \<not> f k \<Longrightarrow> \<forall>k. j \<le> k \<longrightarrow> k < n \<longrightarrow> f k \<Longrightarrow>
    search_post n f (search_loop f i j)"
  using mono
proof (induction f i j rule: search_loop.induct)
  case (1 f i j)
  show ?case
  proof (cases "i < j")
    case False
    with "1.prems" have "i = j" by simp
    with "1.prems" show ?thesis
      by (simp add: search_loop.simps [of f j j] search_post_def)
  next
    case True
    define h where "h = (i + j) div 2"
    have h: "i \<le> h" "h < j" "h < n" using True "1.prems"(2) unfolding h_def by auto
    show ?thesis
    proof (cases "f h")
      case True
      then have "\<forall>k. h \<le> k \<longrightarrow> k < n \<longrightarrow> f k" using "1.prems"(5) by blast
      then have "search_post n f (search_loop f i h)"
        using "1.IH"(2) [OF \<open>i < j\<close> h_def] True h "1.prems"(3,5) by simp
      then show ?thesis using True \<open>i < j\<close>
        by (simp add: search_loop.simps [of f i j] h_def [symmetric] Let_def)
    next
      case False
      then have "\<forall>k<h + 1. \<not> f k"
        using "1.prems"(5) h(3) by (metis Suc_eq_plus1 less_Suc_eq_le)
      then have "search_post n f (search_loop f (h + 1) j)"
        using "1.IH"(1) [OF \<open>i < j\<close> h_def] False h "1.prems"(2,4,5) by simp
      then show ?thesis using False \<open>i < j\<close>
        by (simp add: search_loop.simps [of f i j] h_def [symmetric] Let_def)
    qed
  qed
qed

text \<open>On a predicate that, once true, stays true, the search returns the first true index.\<close>

lemma sort_search_spec:
  assumes "\<forall>a b. a \<le> b \<longrightarrow> b < n \<longrightarrow> f a \<longrightarrow> f b"
  shows "search_post n f (sort_search n f)"
  unfolding sort_search_def by (rule search_loop_spec [OF assms]) simp_all

text \<open>The form the components use: a search over a list splits it in two.\<close>

lemma sort_search_split:
  assumes "\<forall>a b. a \<le> b \<longrightarrow> b < length xs \<longrightarrow> P (xs ! a) \<longrightarrow> P (xs ! b)"
  defines "i \<equiv> sort_search (length xs) (\<lambda>k. P (xs ! k))"
  shows "i \<le> length xs" and "\<forall>x \<in> set (take i xs). \<not> P x" and "\<forall>x \<in> set (drop i xs). P x"
proof -
  have post: "search_post (length xs) (\<lambda>k. P (xs ! k)) i"
    unfolding i_def by (rule sort_search_spec [OF assms(1)])
  then show le: "i \<le> length xs" by (simp add: search_post_def)
  show "\<forall>x \<in> set (take i xs). \<not> P x"
    using post le by (auto simp: in_set_conv_nth search_post_def)
  show "\<forall>x \<in> set (drop i xs). P x"
    using post le by (auto simp: in_set_conv_nth search_post_def less_diff_conv2 add.commute)
qed

section \<open>Words\<close>

lemma unat_exp: "n < LENGTH('a) \<Longrightarrow> unat (2 ^ n :: 'a::len word) = 2 ^ n"
proof -
  assume "n < LENGTH('a)"
  then have "(2::nat) ^ n < 2 ^ LENGTH('a)" by simp
  moreover have "(2 ^ n :: 'a word) = word_of_nat (2 ^ n)" by simp
  ultimately show ?thesis by (simp only: unsigned_of_nat take_bit_nat_eq_self of_nat_id)
qed

lemma word_less_exp_iff:
  "n < LENGTH('a) \<Longrightarrow> v < 2 ^ n \<longleftrightarrow> unat v < 2 ^ n" for v :: "'a::len word"
  by (simp add: word_less_nat_alt unat_exp)

lemma word_less_exp_bit:
  fixes v :: "'a::len word"
  assumes "v < 2 ^ n" and "n < LENGTH('a)" and "bit v m"
  shows "m < n"
proof -
  have "take_bit n (unat v) = unat v"
    using assms(1,2) by (simp add: word_less_exp_iff take_bit_nat_eq_self)
  moreover have "bit (unat v) m" using assms(3) by (simp add: bit_unsigned_iff)
  ultimately show ?thesis by (metis bit_take_bit_iff)
qed

lemma word_less_exp_take_bit:
  fixes v :: "'a::len word"
  assumes "v < 2 ^ n" and "n < LENGTH('a)" and "n \<le> m"
  shows "take_bit m v = v"
  by (rule bit_word_eqI) (use assms in \<open>auto simp: bit_simps dest!: word_less_exp_bit\<close>)

lemma take_bit_word_less_exp:
  fixes v :: "'a::len word"
  assumes "n < LENGTH('a)"
  shows "take_bit n v < 2 ^ n"
  using assms by (simp add: word_less_exp_iff unsigned_take_bit_eq take_bit_nat_less_exp)

section \<open>Integer division\<close>

text \<open>Go's integer division truncates towards zero.\<close>

definition go_quot :: "int \<Rightarrow> int \<Rightarrow> int" where
  "go_quot a b = (if (a < 0) = (b < 0) then \<bar>a\<bar> div \<bar>b\<bar> else - (\<bar>a\<bar> div \<bar>b\<bar>))"

section \<open>Slices\<close>

text \<open>\<open>xs[a:b]\<close> of Go, for \<open>a \<le> b \<le> len(xs)\<close>.\<close>

definition subslice :: "nat \<Rightarrow> nat \<Rightarrow> 'a list \<Rightarrow> 'a list" where
  "subslice a b xs = take (b - a) (drop a xs)"

lemma length_subslice [simp]: "a \<le> b \<Longrightarrow> b \<le> length xs \<Longrightarrow> length (subslice a b xs) = b - a"
  by (simp add: subslice_def)

lemma subslice_all [simp]: "subslice 0 (length xs) xs = xs"
  by (simp add: subslice_def)

lemma subslice_append:
  "a \<le> b \<Longrightarrow> b \<le> c \<Longrightarrow> subslice a b xs @ subslice b c xs = subslice a c xs"
proof -
  assume "a \<le> b" "b \<le> c"
  then have "drop b xs = drop (b - a) (drop a xs)" and "c - a = (b - a) + (c - b)"
    by simp_all
  then show ?thesis by (simp add: subslice_def take_add)
qed

text \<open>Inserting at an index, as \<open>append\<close> followed by \<open>copy(xs[i+1:], xs[i:])\<close> does.\<close>

definition insert_at :: "nat \<Rightarrow> 'a \<Rightarrow> 'a list \<Rightarrow> 'a list" where
  "insert_at i x xs = take i xs @ x # drop i xs"

lemma set_insert_at [simp]: "set (insert_at i x xs) = insert x (set xs)"
proof -
  have "set xs = set (take i xs) \<union> set (drop i xs)"
    by (metis append_take_drop_id set_append)
  then show ?thesis by (auto simp: insert_at_def)
qed

lemma length_insert_at [simp]: "length (insert_at i x xs) = Suc (length xs)"
  by (simp add: insert_at_def)

section \<open>Codecs\<close>

text \<open>
  The contract of every encoder and decoder pair in the program: decoding what was encoded, with
  anything behind it, returns the value and exactly what was behind it. From it follow that the
  code is uniquely decodable and that a concatenation of encodings decodes to the values.
\<close>

locale prefix_codec =
  fixes valid :: "'v \<Rightarrow> bool"
    and enc :: "'v \<Rightarrow> bytes"
    and dec :: "bytes \<Rightarrow> ('v \<times> bytes) option"
  assumes dec_enc: "valid v \<Longrightarrow> dec (enc v @ rest) = Some (v, rest)"
begin

primrec dec_many :: "nat \<Rightarrow> bytes \<Rightarrow> ('v list \<times> bytes) option" where
  "dec_many 0 b = Some ([], b)"
| "dec_many (Suc n) b =
     (case dec b of
        None \<Rightarrow> None
      | Some (v, b') \<Rightarrow> (case dec_many n b' of None \<Rightarrow> None | Some (vs, r) \<Rightarrow> Some (v # vs, r)))"

lemma enc_prefix_free:
  assumes "valid u" "valid v" "enc u @ xs = enc v @ ys"
  shows "u = v \<and> xs = ys"
proof -
  have "Some (u, xs) = dec (enc v @ ys)" using dec_enc [OF assms(1)] assms(3) by metis
  also have "\<dots> = Some (v, ys)" by (rule dec_enc [OF assms(2)])
  finally show ?thesis by simp
qed

lemma dec_many_enc:
  "\<forall>v \<in> set vs. valid v \<Longrightarrow> dec_many (length vs) (concat (map enc vs) @ rest) = Some (vs, rest)"
  by (induction vs) (simp_all add: dec_enc)

end

end
