(* ===== verification/Varint.thy ===== *)
theory Varint
  imports Prelude
begin

text \<open>
  QUIC variable-length integers and the sticky-failure reader,
  \<open>src/go/http3/internal/quic/varint.go\<close>.
\<close>

section \<open>Model\<close>

definition maxVarint :: u64 where
  "maxVarint = 2 ^ 62 - 1"

definition AppendVarint :: "bytes \<Rightarrow> u64 \<Rightarrow> bytes" where
  "AppendVarint b v =
     (if v < 2 ^ 6 then b @ [ucast v]
      else if v < 2 ^ 14 then b @ [ucast (drop_bit 8 v) OR 0x40, ucast v]
      else if v < 2 ^ 30 then
        b @ [ucast (drop_bit 24 v) OR 0x80, ucast (drop_bit 16 v), ucast (drop_bit 8 v), ucast v]
      else
        b @ [ucast (drop_bit 56 v) OR 0xc0, ucast (drop_bit 48 v), ucast (drop_bit 40 v),
             ucast (drop_bit 32 v), ucast (drop_bit 24 v), ucast (drop_bit 16 v),
             ucast (drop_bit 8 v), ucast v])"

definition VarintLen :: "u64 \<Rightarrow> nat" where
  "VarintLen v = (if v < 2 ^ 6 then 1 else if v < 2 ^ 14 then 2 else if v < 2 ^ 30 then 4 else 8)"

text \<open>\<open>v = v<<8 | uint64(b[i])\<close>, the body of the reading loop.\<close>

definition shift_in :: "u64 \<Rightarrow> byte \<Rightarrow> u64" where
  "shift_in v x = push_bit 8 v OR ucast x"

definition ReadVarint :: "bytes \<Rightarrow> u64 \<times> nat" where
  "ReadVarint b =
     (case b of
        [] \<Rightarrow> (0, 0)
      | b0 # rest \<Rightarrow>
          (let n = 2 ^ unat (drop_bit 6 b0) in
           if length b < n then (0, 0)
           else (foldl shift_in (ucast (b0 AND 0x3f)) (take (n - 1) rest), n)))"

definition appendVarint2 :: "bytes \<Rightarrow> u64 \<Rightarrow> bytes" where
  "appendVarint2 b v = b @ [ucast (drop_bit 8 v) OR 0x40, ucast v]"

text \<open>The reader. Its first failure sticks: \<open>bad\<close> stays set and nothing more is read.\<close>

record reader =
  rb :: bytes
  bad :: bool

definition reader_varint :: "reader \<Rightarrow> u64 \<times> reader" where
  "reader_varint r =
     (let (v, n) = ReadVarint (rb r) in
      if n = 0 then (0, r\<lparr>bad := True, rb := []\<rparr>)
      else (v, r\<lparr>rb := drop n (rb r)\<rparr>))"

definition reader_bytes :: "u64 \<Rightarrow> reader \<Rightarrow> bytes \<times> reader" where
  "reader_bytes n r =
     (if length (rb r) < unat n then ([], r\<lparr>bad := True, rb := []\<rparr>)
      else (take (unat n) (rb r), r\<lparr>rb := drop (unat n) (rb r)\<rparr>))"

definition reader_byte :: "reader \<Rightarrow> byte \<times> reader" where
  "reader_byte r =
     (case rb r of
        [] \<Rightarrow> (0, r\<lparr>bad := True\<rparr>)
      | v # rest \<Rightarrow> (v, r\<lparr>rb := rest\<rparr>))"

section \<open>Lemmas\<close>

lemma AppendVarint_append: "AppendVarint b v = b @ AppendVarint [] v"
  by (simp add: AppendVarint_def)

lemma length_AppendVarint [simp]: "length (AppendVarint b v) = length b + VarintLen v"
  by (simp add: AppendVarint_def VarintLen_def)

lemma VarintLen_cases: "VarintLen v \<in> {1, 2, 4, 8}"
  by (simp add: VarintLen_def)

text \<open>The prefix bits of the first byte, and the value bits under them.\<close>

lemma prefix_byte3: "drop_bit 6 (x OR 0xc0) = (3::byte)"
  by (rule bit_word_eqI) (auto simp: bit_simps less_Suc_eq numeral_eq_Suc dest: bit_imp_le_length)

lemma prefix_byte_small: "v < 2 ^ (k + 6) \<Longrightarrow> k + 6 < 64 \<Longrightarrow> drop_bit 6 (ucast (drop_bit k v) :: byte) = 0" for v :: u64
  by (rule bit_word_eqI) (auto simp: bit_simps dest!: word_less_exp_bit)

lemma and_3f_take_bit: "x AND 0x3f = take_bit 6 (x::byte)"
  by (simp add: take_bit_eq_mask mask_eq_exp_minus_1)

lemma first_byte_value:
  "(x OR 0xc0) AND 0x3f = take_bit 6 (x::byte)" "(x OR 0x80) AND 0x3f = take_bit 6 (x::byte)"
  "(x OR 0x40) AND 0x3f = take_bit 6 (x::byte)" 
  by (simp_all add: bit.conj_disj_distrib2 and_3f_take_bit)

lemma prefix_byte:
  "drop_bit 6 x = 0 \<Longrightarrow> drop_bit 6 (x OR 0x40) = (1::byte)"
  "drop_bit 6 x = 0 \<Longrightarrow> drop_bit 6 (x OR 0x80) = (2::byte)"
  by (simp_all add: drop_bit_or)
lemma shift_in_take:
  "m + 8 \<le> 64 \<Longrightarrow> shift_in (take_bit m (drop_bit (8 + k) v)) (ucast (drop_bit k v)) = take_bit (m + 8) (drop_bit k v)"
  by (rule bit_word_eqI) (auto simp: shift_in_def bit_simps)

lemma first_byte_ucast: "ucast (take_bit 6 (ucast (drop_bit k v) :: byte)) = take_bit 6 (drop_bit k (v::u64))"
  by (rule bit_word_eqI) (auto simp: bit_simps)

lemma shift_in_chain [simp]:
 "shift_in (take_bit 6 (drop_bit 56 v)) (ucast (drop_bit 48 v)) = take_bit 14 (drop_bit 48 v)"
 "shift_in (take_bit 14 (drop_bit 48 v)) (ucast (drop_bit 40 v)) = take_bit 22 (drop_bit 40 v)"
 "shift_in (take_bit 22 (drop_bit 40 v)) (ucast (drop_bit 32 v)) = take_bit 30 (drop_bit 32 v)"
 "shift_in (take_bit 30 (drop_bit 32 v)) (ucast (drop_bit 24 v)) = take_bit 38 (drop_bit 24 v)"
 "shift_in (take_bit 38 (drop_bit 24 v)) (ucast (drop_bit 16 v)) = take_bit 46 (drop_bit 16 v)"
 "shift_in (take_bit 46 (drop_bit 16 v)) (ucast (drop_bit 8 v)) = take_bit 54 (drop_bit 8 v)"
 "shift_in (take_bit 54 (drop_bit 8 v)) (ucast v) = take_bit 62 v"
 "shift_in (take_bit 6 (drop_bit 24 v)) (ucast (drop_bit 16 v)) = take_bit 14 (drop_bit 16 v)"
 "shift_in (take_bit 14 (drop_bit 16 v)) (ucast (drop_bit 8 v)) = take_bit 22 (drop_bit 8 v)"
 "shift_in (take_bit 22 (drop_bit 8 v)) (ucast v) = take_bit 30 v"
 "shift_in (take_bit 6 (drop_bit 8 v)) (ucast v) = take_bit 14 v"
  using shift_in_take [of 6 48 v] shift_in_take [of 14 40 v] shift_in_take [of 22 32 v]
    shift_in_take [of 30 24 v] shift_in_take [of 38 16 v] shift_in_take [of 46 8 v]
    shift_in_take [of 54 0 v] shift_in_take [of 6 16 v] shift_in_take [of 14 8 v]
    shift_in_take [of 22 0 v] shift_in_take [of 6 0 v] by simp_all

lemma ReadVarint_AppendVarint: "ReadVarint (AppendVarint [] v @ rest) = (take_bit 62 v, VarintLen v)"
proof -
  consider "v < 2 ^ 6" | "\<not> v < 2 ^ 6" "v < 2 ^ 14" | "\<not> v < 2 ^ 6" "\<not> v < 2 ^ 14" "v < 2 ^ 30"
    | "\<not> v < 2 ^ 6" "\<not> v < 2 ^ 14" "\<not> v < 2 ^ 30" by blast
  then show ?thesis
  proof cases
    case 1
    then have "drop_bit 6 (ucast v :: byte) = 0" "take_bit 62 v = v" "take_bit 6 v = v"
      using prefix_byte_small [of v 0] word_less_exp_take_bit [of v 6 62] word_less_exp_take_bit [of v 6 6]
      by simp_all
    with 1 show ?thesis using first_byte_ucast [of 0 v]
      by (simp add: AppendVarint_def ReadVarint_def VarintLen_def and_3f_take_bit)
  next
    case 2
    then have "take_bit 62 v = v" "take_bit 14 v = v"
      using word_less_exp_take_bit [of v 14 62] word_less_exp_take_bit [of v 14 14] by simp_all
    with 2 prefix_byte_small [of v 8] show ?thesis 
      by (simp add: AppendVarint_def ReadVarint_def VarintLen_def first_byte_value prefix_byte first_byte_ucast)
  next
    case 3
    then have "take_bit 62 v = v" "take_bit 30 v = v"
      using word_less_exp_take_bit [of v 30 62] word_less_exp_take_bit [of v 30 30] by simp_all
    with 3 prefix_byte_small [of v 24] show ?thesis 
      by (simp add: AppendVarint_def ReadVarint_def VarintLen_def first_byte_value prefix_byte first_byte_ucast)
  next
    case 4
    then show ?thesis 
      by (simp add: AppendVarint_def ReadVarint_def VarintLen_def first_byte_value prefix_byte3 first_byte_ucast
            del: drop_bit_or)
  qed
qed

lemma foldl_shift_bound: 
  assumes "n < 64" "v < 2 ^ n" "n + 8 * length xs < 64" 
  shows "foldl shift_in v xs < 2 ^ (n + 8 * length xs)"
  using assms 
proof (induction xs arbitrary: v n)
  case (Cons x xs)
  have "shift_in v x = take_bit (n + 8) (shift_in v x)"
    using Cons.prems(2) by (intro bit_word_eqI) 
      (auto simp: shift_in_def bit_simps dest: bit_imp_le_length word_less_exp_bit)
  moreover have "take_bit (n + 8) (shift_in v x) < 2 ^ (n + 8)"
    using Cons.prems by (intro take_bit_word_less_exp) simp
  ultimately have "shift_in v x < 2 ^ (n + 8)" by simp
  from Cons.IH [OF _ this] Cons.prems show ?case by (simp add: algebra_simps)
qed simp


lemma unat_byte_less: "unat (x :: byte) < 256"
proof -
  have "unat x < 2 ^ LENGTH(8)" by (rule unsigned_less)
  then show ?thesis by simp
qed

lemma first_byte_less: "(ucast (x AND 0x3f) :: u64) < 2 ^ 6" for x :: byte
proof -
  have "ucast (take_bit 6 x) = take_bit 6 (ucast x :: u64)"
    by (rule bit_word_eqI) (auto simp: bit_simps)
  moreover have "take_bit 6 (ucast x :: u64) < 2 ^ 6" by (rule take_bit_word_less_exp) simp
  ultimately show ?thesis unfolding and_3f_take_bit by (rule ssubst)
qed

lemma foldl_shift_in_value:
  "length xs \<le> 7 \<Longrightarrow>
    foldl shift_in (ucast ((x :: byte) AND 0x3f)) xs < 2 ^ (6 + 8 * length xs)"
  by (rule foldl_shift_bound [OF _ first_byte_less]) linarith+

lemma prefix_length: "2 ^ unat (drop_bit 6 (b0 :: byte)) \<in> {1, 2, 4, 8 :: nat}"
proof -
  define k where "k = unat (drop_bit 6 b0)"
  have "unat b0 < 256" by (rule unat_byte_less)
  then have "k < 4" unfolding k_def unat_drop_bit_eq
    by (simp add: drop_bit_eq_div [where ?a = "unat b0"] less_mult_imp_div_less)
  then consider "k = 0" | "k = 1" | "k = 2" | "k = 3" by linarith
  then have "2 ^ k \<in> {1, 2, 4, 8 :: nat}" by cases simp_all
  then show ?thesis unfolding k_def .
qed

lemma ReadVarint_bounds:
  assumes "ReadVarint b = (v, n)" and "n \<noteq> 0"
  shows "n \<in> {1, 2, 4, 8} \<and> n \<le> length b \<and> v < 2 ^ (8 * n - 2)"
proof -
  from assms obtain b0 rest where b: "b = b0 # rest"
    by (auto simp: ReadVarint_def split: list.splits)
  with assms have n: "n = 2 ^ unat (drop_bit 6 b0)" and le: "n \<le> length b"
    and v: "v = foldl shift_in (ucast (b0 AND 0x3f)) (take (n - 1) rest)"
    by (auto simp: ReadVarint_def Let_def split: if_splits)
  have cases: "n \<in> {1, 2, 4, 8}" using prefix_length n by simp
  then have len: "length (take (n - 1) rest) = n - 1" "n - 1 \<le> 7" using le b by auto
  have "8 * n - 2 = 6 + 8 * (n - 1)" using cases by auto
  then show ?thesis
    using foldl_shift_in_value [of "take (n - 1) rest" b0] len cases le v by simp
qed

lemma maxVarint_less: "v \<le> maxVarint \<longleftrightarrow> v < 2 ^ 62"
proof -
  have "unat v \<le> 4611686018427387903 \<longleftrightarrow> unat v < 4611686018427387904" by linarith
  then show ?thesis by (simp add: maxVarint_def word_le_nat_alt word_less_nat_alt)
qed

lemma ReadVarint_AppendVarint_max:
  "v < 2 ^ 62 \<Longrightarrow> ReadVarint (AppendVarint [] v @ rest) = (v, VarintLen v)"
  using word_less_exp_take_bit [of v 62 62] by (simp add: ReadVarint_AppendVarint)

section \<open>The codec contract\<close>

definition read_varint_rest :: "bytes \<Rightarrow> (u64 \<times> bytes) option" where
  "read_varint_rest b = (let (v, n) = ReadVarint b in if n = 0 then None else Some (v, drop n b))"

interpretation varint: prefix_codec "\<lambda>v. v < 2 ^ 62" "AppendVarint []" read_varint_rest
proof
  fix v :: u64 and rest
  assume "v < 2 ^ 62"
  then show "read_varint_rest (AppendVarint [] v @ rest) = Some (v, rest)"
    using VarintLen_cases [of v]
    by (auto simp: read_varint_rest_def ReadVarint_AppendVarint_max)
qed

text \<open>The reader on what the writer appended.\<close>

lemma reader_varint_AppendVarint [codec_simps]:
  "v < 2 ^ 62 \<Longrightarrow> rb r = AppendVarint [] v @ rest \<Longrightarrow> reader_varint r = (v, r\<lparr>rb := rest\<rparr>)"
  using VarintLen_cases [of v]
  by (auto simp: reader_varint_def ReadVarint_AppendVarint_max)

lemma reader_bytes_append [codec_simps]:
  "rb r = xs @ rest \<Longrightarrow> length xs = unat n \<Longrightarrow> reader_bytes n r = (xs, r\<lparr>rb := rest\<rparr>)"
  by (simp add: reader_bytes_def)

lemma reader_sticky:
  "bad r \<Longrightarrow> bad (snd (reader_varint r))" "bad r \<Longrightarrow> bad (snd (reader_bytes n r))"
  "bad r \<Longrightarrow> bad (snd (reader_byte r))"
  by (auto simp: reader_varint_def reader_bytes_def reader_byte_def Let_def
      split: prod.splits list.splits)

lemma reader_shrinks:
  "length (rb (snd (reader_varint r))) \<le> length (rb r)"
  "length (rb (snd (reader_bytes n r))) \<le> length (rb r)"
  "length (rb (snd (reader_byte r))) \<le> length (rb r)"
  by (auto simp: reader_varint_def reader_bytes_def reader_byte_def Let_def
      split: prod.splits list.splits)

lemma reader_varint_less:
  assumes "reader_varint r = (v, r')" and "\<not> bad r'"
  shows "length (rb r') < length (rb r) \<and> v < 2 ^ 62"
proof -
  obtain w n where wn: "ReadVarint (rb r) = (w, n)" by force
  with assms have n: "n \<noteq> 0" and "v = w" and r': "r' = r\<lparr>rb := drop n (rb r)\<rparr>"
    by (auto simp: reader_varint_def split: if_splits)
  from ReadVarint_bounds [OF wn n] have "0 < n" "n \<le> length (rb r)" and w: "w < 2 ^ (8 * n - 2)"
    and cases: "n \<in> {1, 2, 4, 8}" by auto
  have "8 * n - 2 \<le> 62" using cases by auto
  then have "w < 2 ^ 62"
    using w cases by (auto simp: word_less_nat_alt)
  with \<open>0 < n\<close> \<open>n \<le> length (rb r)\<close> r' \<open>v = w\<close> show ?thesis by simp
qed

section \<open>Properties\<close>

text \<open>
  C16. Reading what was appended gives the value back, with the length \<open>VarintLen\<close> promises,
  whatever follows it: exactly for every value up to \<open>maxVarint\<close>, and modulo \<open>2^62\<close> beyond it.
\<close>

theorem varint_roundtrip:
  "ReadVarint (drop (length b) (AppendVarint b v) @ rest) = (take_bit 62 v, VarintLen v) \<and>
   (v \<le> maxVarint \<longleftrightarrow> take_bit 62 v = v)"
proof -
  have "take_bit 62 v < 2 ^ 62" by (rule take_bit_word_less_exp) simp
  then have "v \<le> maxVarint \<longleftrightarrow> take_bit 62 v = v"
    using word_less_exp_take_bit [of v 62 62] by (auto simp: maxVarint_less)
  then show ?thesis
    by (subst AppendVarint_append) (simp add: ReadVarint_AppendVarint)
qed

text \<open>
  C17. A successful read consumes 1, 2, 4 or 8 bytes that are there, yields a value no larger
  than \<open>maxVarint\<close>, and no encoding is shorter than the one \<open>AppendVarint\<close> chooses.
\<close>

theorem varint_shortest:
  assumes "ReadVarint b = (v, n)" and "n \<noteq> 0"
  shows "VarintLen v \<le> n \<and> n \<le> length b \<and> v \<le> maxVarint"
proof -
  from ReadVarint_bounds [OF assms] have *: "n \<in> {1, 2, 4, 8}" "n \<le> length b" "v < 2 ^ (8 * n - 2)"
    by auto
  then show ?thesis
    by (auto simp: VarintLen_def maxVarint_less word_less_nat_alt)
qed

theorem varint_shortest_witness:
  "ReadVarint [0x40, 0x25] = (0x25, 2) \<and> VarintLen 0x25 \<le> 2 \<and> (0x25 :: u64) \<le> maxVarint"
proof -
  have h: "ReadVarint [0x40, 0x25] = (0x25, 2)"
    by (simp add: ReadVarint_def shift_in_def)
  then show ?thesis using varint_shortest [OF h] by simp
qed

end
