(* ===== verification/Conn_State.thy ===== *)
theory Conn_State
  imports Prelude
begin

text \<open>
  The data of the connection and engine core: \<open>src/go/connection.go\<close> (\<open>Connection\<close>, \<open>sendItem\<close>),
  \<open>src/go/engine.go\<close> (\<open>Engine\<close>, \<open>command\<close>, the readiness bits) and the file segment of
  \<open>src/go/sendfile_unix.go\<close>.

  A connection is named by a number, which stands for its pointer. The mutex of a connection is
  not a field: every definition of the model is one critical section, or a sequence of them that
  is spelled out, so that interleavings are sequences of definitions. Answers of the operating
  system are an explicit script (\<open>sysret list\<close>), one entry per system call.
\<close>

section \<open>Errors\<close>

datatype errno = EAGAIN | EWOULDBLOCK | EINTR | EPIPE | EINVAL | ENOTSUP | EOPNOTSUPP | ENOTSOCK
  | ECONNRESET | ECONNREFUSED | EINPROGRESS | EALREADY | EISCONN | Errno nat

datatype goerr = Sys errno | EOF | ErrUnexpectedEOF | HandlerPanic | NetErrClosed
  | ErrDeadlineExceeded
  | ErrUDPIdleTimeout | ErrSendFileDatagram | InvalidRange

definition isWouldBlock :: "errno \<Rightarrow> bool" where
  "isWouldBlock err \<longleftrightarrow> err = EAGAIN \<or> err = EWOULDBLOCK"

text \<open>
  What a call on the socket returned: how many bytes it took, and an error. A \<open>write\<close> or \<open>writev\<close>
  takes no more than it was given, and nothing when it fails.
\<close>

datatype sysret = SysRet (ret_n: nat) (ret_err: "errno option")

definition sysWrite :: "sysret \<Rightarrow> nat \<Rightarrow> nat \<times> errno option" where
  "sysWrite r len = (case ret_err r of None \<Rightarrow> (min (ret_n r) len, None) | Some e \<Rightarrow> (0, Some e))"

section \<open>Send queue items\<close>

record sendBuffer =
  sb_data :: bytes
  sb_cap :: nat

record fileSegment =
  fs_fd :: int
  fs_offset :: int
  fs_remaining :: int
  fs_copyBuf :: bool

text \<open>\<open>data\<close> is an option because \<open>consumeLocked\<close> tells a nil slice from an empty one.\<close>

record sendItem =
  it_data :: "bytes option"
  it_offset :: nat
  it_buf :: "sendBuffer option"
  it_file :: "fileSegment option"

definition empty_item :: sendItem where
  "empty_item = \<lparr>it_data = None, it_offset = 0, it_buf = None, it_file = None\<rparr>"

definition data_bytes :: "sendItem \<Rightarrow> bytes" where
  "data_bytes i = (case it_data i of None \<Rightarrow> [] | Some d \<Rightarrow> d)"

section \<open>Connection and engine\<close>

text \<open>The readiness bits are epoll's.\<close>

definition evIn :: u32 where "evIn = 0x1"
definition evPri :: u32 where "evPri = 0x2"
definition evOut :: u32 where "evOut = 0x4"
definition evErr :: u32 where "evErr = 0x8"
definition evHup :: u32 where "evHup = 0x10"
definition evRdHup :: u32 where "evRdHup = 0x2000"
definition evAll :: u32 where
  "evAll = evIn OR evPri OR evOut OR evErr OR evHup OR evRdHup"

lemmas ev_defs = evIn_def evPri_def evOut_def evErr_def evHup_def evRdHup_def evAll_def

text \<open>
  A unit of output: a byte held in memory, or the byte at an offset of a duplicated descriptor.
  \<open>wire\<close> is what the kernel has taken for the connection so far, in order. \<open>udp\<close> says that the
  connection has a \<open>udpState\<close>, whose receive queue is \<open>udp_queue\<close> from \<open>udp_head\<close> on.
\<close>

datatype out_unit = Mem byte | FileByte int int

record conn =
  cid :: nat
  pendingEvents :: u32
  sends :: "sendItem list"
  sendHead :: nat
  scheduled :: bool
  closing :: bool
  closed :: bool
  readPaused :: bool
  budgetPaused :: bool
  readStalled :: bool
  flushing :: bool
  corked :: bool
  closeAfterSend :: bool
  pendingBytes :: int
  dialing :: "nat option"
  udp :: bool
  udp_queue :: "bytes list"
  udp_head :: nat
  wire :: "out_unit list"

datatype command = CommandRefresh nat | CommandClose nat "goerr option" | CommandDial nat
  | CommandDialTimeout nat nat | CommandUDPSweep

text \<open>
  \<open>wakeFD\<close> is the counter of the engine's eventfd; \<open>sendBufferPool\<close> lists the capacities of the
  buffers at rest in the pool; \<open>budgetPausedQ\<close> is the engine's \<open>budgetPaused\<close> list.
\<close>

record engine =
  maxEvents :: nat
  useWritev :: bool
  inlineHandlers :: bool
  writeHighWatermark :: int
  writeLowWatermark :: int
  maxPendingBytes :: int
  budgetResumeBytes :: int
  retainedSendBuffer :: nat
  stopping :: bool
  pendingTotal :: int
  readsPausedByWatermark :: u64
  readsPausedByBudget :: u64
  readsResumed :: u64
  commands :: "command list option"
  commandsClosed :: bool
  wakePending :: bool
  wakeFD :: nat
  budgetPausedQ :: "nat list"
  redeliver :: "nat list"
  sendBufferPool :: "nat list"

type_synonym st = "engine \<times> conn"

definition maxWritevItems :: nat where "maxWritevItems = 64"
definition maxSendFileCall :: int where "maxSendFileCall = 2 ^ 30"
definition sendFileChunk :: int where "sendFileChunk = 64 * 2 ^ 10"

text \<open>The part of \<open>Config\<close> that \<open>newEngine\<close> copies, with its defaults.\<close>

record config =
  MaxEvents :: int
  ReadBufferSize :: int
  UseWritev :: bool
  InlineHandlers :: bool
  WriteBufferHighWatermark :: int
  MaxPendingBytes :: int
  UDPIdleTimeout :: int

text \<open>Durations are in nanoseconds, as in \<open>time.Duration\<close>.\<close>

definition DefaultUDPIdleTimeout :: int where
  "DefaultUDPIdleTimeout = 60 * 10 ^ 9"

definition udpIdleTimeout :: "int \<Rightarrow> int" where
  "udpIdleTimeout configured =
     (if configured = 0 then DefaultUDPIdleTimeout else if configured < 0 then 0 else configured)"

definition udpSweepInterval :: "int \<Rightarrow> int" where
  "udpSweepInterval timeout = max (go_quot timeout 4) (10 * 10 ^ 6)"

definition newEngine :: "config \<Rightarrow> engine" where
  "newEngine cfg =
     (let me = (if MaxEvents cfg \<le> 0 then 256 else MaxEvents cfg);
          rb = (if ReadBufferSize cfg \<le> 0 then 16 * 1024 else ReadBufferSize cfg);
          hw = (if WriteBufferHighWatermark cfg = 0 then 4 * 1024 else WriteBufferHighWatermark cfg)
      in \<lparr>maxEvents = nat me, useWritev = UseWritev cfg, inlineHandlers = InlineHandlers cfg,
          writeHighWatermark = hw, writeLowWatermark = go_quot hw 4,
          maxPendingBytes = MaxPendingBytes cfg, budgetResumeBytes = go_quot (MaxPendingBytes cfg) 4,
          retainedSendBuffer = nat (2 * rb), stopping = False, pendingTotal = 0,
          readsPausedByWatermark = 0, readsPausedByBudget = 0, readsResumed = 0,
          commands = None, commandsClosed = False, wakePending = False, wakeFD = 0,
          budgetPausedQ = [], redeliver = [], sendBufferPool = []\<rparr>)"

text \<open>A connection as \<open>acceptConnections\<close> makes it; a UDP peer differs in \<open>udp\<close>.\<close>

definition newConnection :: "nat \<Rightarrow> bool \<Rightarrow> conn" where
  "newConnection i isUDP =
     \<lparr>cid = i, pendingEvents = 0, sends = [], sendHead = 0, scheduled = False, closing = False,
      closed = False, readPaused = False, budgetPaused = False, readStalled = False,
      flushing = False, corked = False, closeAfterSend = False, pendingBytes = 0, dialing = None,
      udp = isUDP, udp_queue = [], udp_head = 0, wire = []\<rparr>"

section \<open>Asking the event loop for work\<close>

text \<open>\<open>notify\<close> coalesces: only the request that sets \<open>wakePending\<close> writes to the eventfd.\<close>

definition notify :: "engine \<Rightarrow> engine" where
  "notify e = (if wakePending e then e else e\<lparr>wakePending := True, wakeFD := Suc (wakeFD e)\<rparr>)"

definition request :: "command \<Rightarrow> engine \<Rightarrow> bool \<times> engine" where
  "request cmd e =
     (if commandsClosed e then (False, e)
      else
        (let items = (case commands e of None \<Rightarrow> [] | Some xs \<Rightarrow> xs) in
         (True, notify (e\<lparr>commands := Some (items @ [cmd])\<rparr>))))"

definition closeWithError :: "goerr option \<Rightarrow> st \<Rightarrow> st" where
  "closeWithError err s =
     (let (e, c) = s;
          req = \<not> closing c \<and> \<not> closed c;
          c' = c\<lparr>closing := True\<rparr>
      in if req then (snd (request (CommandClose (cid c) err) e), c') else (e, c'))"

definition Close :: "st \<Rightarrow> st" where
  "Close s = closeWithError None s"

definition closeAfterSendRaw :: "st \<Rightarrow> st" where
  "closeAfterSendRaw s =
     (let (e, c) = s in
      if closing c \<or> closed c \<or> closeAfterSend c then s
      else
        (let c' = c\<lparr>closeAfterSend := True\<rparr>;
             closeNow = (sendHead c' = length (sends c') \<and> \<not> flushing c')
         in if closeNow then closeWithError None (e, c') else (e, c')))"

definition sendClosed :: "conn \<Rightarrow> bool" where
  "sendClosed c \<longleftrightarrow> closing c \<or> closed c \<or> closeAfterSend c"

section \<open>Watermarks and pending bytes\<close>

text \<open>
  The single definition of whether reads are paused; the second component says that the
  engine-wide budget forces it.
\<close>

definition pauseDecision :: "st \<Rightarrow> bool \<Rightarrow> bool \<times> bool" where
  "pauseDecision s wasPaused =
     (let (e, c) = s in
      if udp c then (False, False)
      else if maxPendingBytes e > 0 \<and> pendingTotal e \<ge> maxPendingBytes e then (True, True)
      else if writeHighWatermark e \<le> 0 then (False, False)
      else if pendingBytes c \<ge> writeHighWatermark e then (True, False)
      else (wasPaused \<and> pendingBytes c > writeLowWatermark e, False))"

definition pauseStateChangedLocked :: "st \<Rightarrow> bool" where
  "pauseStateChangedLocked s =
     (fst (pauseDecision s (readPaused (snd s))) \<noteq> readPaused (snd s))"

definition overWriteWatermark :: "st \<Rightarrow> bool" where
  "overWriteWatermark s = fst (pauseDecision s False)"

definition addPending :: "int \<Rightarrow> st \<Rightarrow> st" where
  "addPending n s =
     (let (e, c) = s in
      if n \<le> 0 then s
      else (e\<lparr>pendingTotal := pendingTotal e + n\<rparr>, c\<lparr>pendingBytes := pendingBytes c + n\<rparr>))"

definition subPending :: "int \<Rightarrow> st \<Rightarrow> st" where
  "subPending n s =
     (let (e, c) = s in
      if n \<le> 0 then s
      else
        (let pending = pendingBytes c - n;
             c' = c\<lparr>pendingBytes := (if pending < 0 then 0 else pending)\<rparr>;
             n' = (if pending < 0 then n + pending else n)
         in (if n' > 0 then e\<lparr>pendingTotal := pendingTotal e - n'\<rparr> else e, c')))"

text \<open>If it changed the read interest, a critical section asks for a refresh once it ends.\<close>

definition refresh_if :: "bool \<Rightarrow> st \<Rightarrow> st" where
  "refresh_if b s =
     (if b then (snd (request (CommandRefresh (cid (snd s))) (fst s)), snd s) else s)"

section \<open>Frame lemmas\<close>

text \<open>The settings and the event loop's own fields of an engine, which no send or flush
  touches, with the dials that wait for the loop.\<close>

definition dial_queue :: "engine \<Rightarrow> command list" where
  "dial_queue e =
     filter (\<lambda>cmd. \<exists>d. cmd = CommandDial d) (case commands e of None \<Rightarrow> [] | Some xs \<Rightarrow> xs)"

definition eng_core ::
  "engine \<Rightarrow> (int \<times> int \<times> int \<times> int) \<times> (u64 \<times> u64 \<times> u64) \<times> nat list \<times> nat list \<times> command list \<times> bool"
where
  "eng_core e =
     ((writeHighWatermark e, writeLowWatermark e, maxPendingBytes e, budgetResumeBytes e),
      (readsPausedByWatermark e, readsPausedByBudget e, readsResumed e), budgetPausedQ e, redeliver e,
      dial_queue e, commandsClosed e)"

lemma eng_core_request:
  "(\<And>d. cmd \<noteq> CommandDial d) \<Longrightarrow> eng_core (snd (request cmd e)) = eng_core e"
  by (simp add: eng_core_def request_def notify_def dial_queue_def Let_def split: option.splits)

lemma eng_core_simps [simp]:
  "eng_core (e\<lparr>pendingTotal := n\<rparr>) = eng_core e"
  "eng_core (e\<lparr>sendBufferPool := p\<rparr>) = eng_core e"
  by (simp_all add: eng_core_def dial_queue_def)

lemma eng_core_ops [simp]:
  "eng_core (fst (refresh_if b s)) = eng_core (fst s)"
  "eng_core (fst (closeWithError err s)) = eng_core (fst s)"
  "eng_core (fst (addPending n s)) = eng_core (fst s)"
  "eng_core (fst (subPending n s)) = eng_core (fst s)"
  by (simp_all add: refresh_if_def closeWithError_def addPending_def subPending_def eng_core_request Let_def
      split: prod.splits)

lemma request_frame [simp]:
  "pendingTotal (snd (request cmd e)) = pendingTotal e"
  "sendBufferPool (snd (request cmd e)) = sendBufferPool e"
  "retainedSendBuffer (snd (request cmd e)) = retainedSendBuffer e"
  "maxPendingBytes (snd (request cmd e)) = maxPendingBytes e"
  "writeHighWatermark (snd (request cmd e)) = writeHighWatermark e"
  "writeLowWatermark (snd (request cmd e)) = writeLowWatermark e"
  "useWritev (snd (request cmd e)) = useWritev e"
  "budgetPausedQ (snd (request cmd e)) = budgetPausedQ e"
  by (simp_all add: request_def notify_def Let_def)

lemma refresh_if_conn [simp]: "snd (refresh_if b s) = snd s"
  by (simp add: refresh_if_def)

lemma refresh_if_engine [simp]:
  "pendingTotal (fst (refresh_if b s)) = pendingTotal (fst s)"
  "sendBufferPool (fst (refresh_if b s)) = sendBufferPool (fst s)"
  "retainedSendBuffer (fst (refresh_if b s)) = retainedSendBuffer (fst s)"
  by (simp_all add: refresh_if_def)

lemma closeWithError_frame [simp]:
  "sends (snd (closeWithError err s)) = sends (snd s)"
  "sendHead (snd (closeWithError err s)) = sendHead (snd s)"
  "wire (snd (closeWithError err s)) = wire (snd s)"
  "pendingBytes (snd (closeWithError err s)) = pendingBytes (snd s)"
  "closed (snd (closeWithError err s)) = closed (snd s)"
  "scheduled (snd (closeWithError err s)) = scheduled (snd s)"
  "pendingEvents (snd (closeWithError err s)) = pendingEvents (snd s)"
  "udp_queue (snd (closeWithError err s)) = udp_queue (snd s)"
  "udp_head (snd (closeWithError err s)) = udp_head (snd s)"
  "readPaused (snd (closeWithError err s)) = readPaused (snd s)"
  "budgetPaused (snd (closeWithError err s)) = budgetPaused (snd s)"
  "dialing (snd (closeWithError err s)) = dialing (snd s)"
  "closing (snd (closeWithError err s))"
  "flushing (snd (closeWithError err s)) = flushing (snd s)"
  "corked (snd (closeWithError err s)) = corked (snd s)"
  "closeAfterSend (snd (closeWithError err s)) = closeAfterSend (snd s)"
  "cid (snd (closeWithError err s)) = cid (snd s)"
  "udp (snd (closeWithError err s)) = udp (snd s)"
  "pendingTotal (fst (closeWithError err s)) = pendingTotal (fst s)"
  "sendBufferPool (fst (closeWithError err s)) = sendBufferPool (fst s)"
  "retainedSendBuffer (fst (closeWithError err s)) = retainedSendBuffer (fst s)"
  by (simp_all add: closeWithError_def Let_def split: prod.splits)

lemma addPending_frame [simp]:
  "sends (snd (addPending n s)) = sends (snd s)"
  "sendHead (snd (addPending n s)) = sendHead (snd s)"
  "wire (snd (addPending n s)) = wire (snd s)"
  "closed (snd (addPending n s)) = closed (snd s)"
  "scheduled (snd (addPending n s)) = scheduled (snd s)"
  "pendingEvents (snd (addPending n s)) = pendingEvents (snd s)"
  "udp_queue (snd (addPending n s)) = udp_queue (snd s)"
  "udp_head (snd (addPending n s)) = udp_head (snd s)"
  "readPaused (snd (addPending n s)) = readPaused (snd s)"
  "budgetPaused (snd (addPending n s)) = budgetPaused (snd s)"
  "dialing (snd (addPending n s)) = dialing (snd s)"
  "closing (snd (addPending n s)) = closing (snd s)"
  "flushing (snd (addPending n s)) = flushing (snd s)"
  "cid (snd (addPending n s)) = cid (snd s)"
  "udp (snd (addPending n s)) = udp (snd s)"
  "corked (snd (addPending n s)) = corked (snd s)"
  "sendBufferPool (fst (addPending n s)) = sendBufferPool (fst s)"
  "retainedSendBuffer (fst (addPending n s)) = retainedSendBuffer (fst s)"
  by (simp_all add: addPending_def split: prod.splits)

lemma subPending_frame [simp]:
  "sends (snd (subPending n s)) = sends (snd s)"
  "sendHead (snd (subPending n s)) = sendHead (snd s)"
  "wire (snd (subPending n s)) = wire (snd s)"
  "closed (snd (subPending n s)) = closed (snd s)"
  "scheduled (snd (subPending n s)) = scheduled (snd s)"
  "pendingEvents (snd (subPending n s)) = pendingEvents (snd s)"
  "udp_queue (snd (subPending n s)) = udp_queue (snd s)"
  "udp_head (snd (subPending n s)) = udp_head (snd s)"
  "readPaused (snd (subPending n s)) = readPaused (snd s)"
  "budgetPaused (snd (subPending n s)) = budgetPaused (snd s)"
  "dialing (snd (subPending n s)) = dialing (snd s)"
  "closing (snd (subPending n s)) = closing (snd s)"
  "flushing (snd (subPending n s)) = flushing (snd s)"
  "cid (snd (subPending n s)) = cid (snd s)"
  "udp (snd (subPending n s)) = udp (snd s)"
  "corked (snd (subPending n s)) = corked (snd s)"
  "sendBufferPool (fst (subPending n s)) = sendBufferPool (fst s)"
  "retainedSendBuffer (fst (subPending n s)) = retainedSendBuffer (fst s)"
  by (simp_all add: subPending_def Let_def split: prod.splits)

text \<open>The connection's counter and the engine's total move by the same amount.\<close>

lemma addPending_in_step:
  "pendingTotal (fst (addPending n s)) - pendingBytes (snd (addPending n s)) =
   pendingTotal (fst s) - pendingBytes (snd s)"
  by (cases s) (auto simp: addPending_def)

lemma subPending_in_step:
  "0 \<le> pendingBytes (snd s) \<Longrightarrow>
   pendingTotal (fst (subPending n s)) - pendingBytes (snd (subPending n s)) =
   pendingTotal (fst s) - pendingBytes (snd s)"
  by (cases s) (auto simp: subPending_def Let_def)

lemma subPending_nonneg:
  "0 \<le> pendingBytes (snd s) \<Longrightarrow> 0 \<le> pendingBytes (snd (subPending n s))"
  by (cases s) (auto simp: subPending_def Let_def)

lemma subPending_exact:
  "0 \<le> n \<Longrightarrow> n \<le> pendingBytes (snd s) \<Longrightarrow>
   pendingBytes (snd (subPending n s)) = pendingBytes (snd s) - n"
  by (cases s) (auto simp: subPending_def Let_def)

lemma addPending_exact:
  "0 \<le> n \<Longrightarrow> pendingBytes (snd (addPending n s)) = pendingBytes (snd s) + n"
  by (cases s) (auto simp: addPending_def)

end
