(* ===== verification/Send_Queue.thy ===== *)
theory Send_Queue
  imports Conn_State
begin

text \<open>
  The outbound half of a connection: the queue of \<open>src/go/connection.go\<close>, its pooled buffers
  (\<open>src/go/engine.go\<close>), \<open>send\<close>, \<open>SendParts\<close>, \<open>SendFile\<close> and \<open>flushOutput\<close>, with the socket calls of
  the readiness backends (\<open>src/go/engine_unix.go\<close>, \<open>src/go/sendfile_unix.go\<close>).

  What is shown: the bytes the kernel took followed by the bytes still queued are always the bytes
  the sends accepted, in order (nothing is lost, repeated or reordered), whatever the kernel
  answers and wherever a write stops; and the pending counters count exactly the queued bytes.
\<close>

section \<open>Pooled buffers\<close>

text \<open>\<open>sync.Pool\<close>: \<open>Get\<close> takes a buffer at rest, or \<open>New\<close> makes one of the retention size.\<close>

definition acquireSendBuffer :: "engine \<Rightarrow> sendBuffer \<times> engine" where
  "acquireSendBuffer e =
     (case sendBufferPool e of
        [] \<Rightarrow> (\<lparr>sb_data = [], sb_cap = retainedSendBuffer e\<rparr>, e)
      | k # ks \<Rightarrow> (\<lparr>sb_data = [], sb_cap = k\<rparr>, e\<lparr>sendBufferPool := ks\<rparr>))"

definition releaseSendBuffer :: "sendBuffer \<Rightarrow> engine \<Rightarrow> engine" where
  "releaseSendBuffer b e =
     (if sb_cap b \<le> retainedSendBuffer e then e\<lparr>sendBufferPool := sb_cap b # sendBufferPool e\<rparr>
      else e)"

text \<open>
  \<open>append\<close> keeps the array while the result fits and otherwise moves to one of the capacity \<open>g\<close>
  the runtime picks from the old capacity and the length needed.
\<close>

definition append_buf :: "(nat \<Rightarrow> nat \<Rightarrow> nat) \<Rightarrow> sendBuffer \<Rightarrow> bytes \<Rightarrow> sendBuffer" where
  "append_buf g b xs =
     (let d = sb_data b @ xs in
      \<lparr>sb_data = d, sb_cap = (if length d \<le> sb_cap b then sb_cap b else g (sb_cap b) (length d))\<rparr>)"

section \<open>The queue\<close>

definition canWriteDirectlyLocked :: "conn \<Rightarrow> bool" where
  "canWriteDirectlyLocked c \<longleftrightarrow> sendHead c = length (sends c) \<and> \<not> flushing c \<and> \<not> corked c"

definition hasQueuedOutput :: "conn \<Rightarrow> bool" where
  "hasQueuedOutput c \<longleftrightarrow> sendHead c \<noteq> length (sends c)"

text \<open>Whether the backing array is kept is not observable; the queue is empty either way.\<close>

definition rewindQueueLocked :: "conn \<Rightarrow> conn" where
  "rewindQueueLocked c = c\<lparr>sends := [], sendHead := 0\<rparr>"

definition releaseItemLocked :: "nat \<Rightarrow> st \<Rightarrow> st" where
  "releaseItemLocked i s =
     (let (e, c) = s in
      ((case it_buf (sends c ! i) of None \<Rightarrow> e | Some b \<Rightarrow> releaseSendBuffer b e),
       c\<lparr>sends := (sends c)[i := empty_item]\<rparr>))"

definition advance :: "int \<Rightarrow> fileSegment \<Rightarrow> fileSegment" where
  "advance n f = f\<lparr>fs_offset := fs_offset f + n, fs_remaining := fs_remaining f - n\<rparr>"

definition set_head :: "sendItem \<Rightarrow> conn \<Rightarrow> conn" where
  "set_head it c = c\<lparr>sends := (sends c)[sendHead c := it]\<rparr>"

text \<open>The drained head gives up its buffer and the head moves on.\<close>

definition drop_head :: "st \<Rightarrow> st" where
  "drop_head s =
     (let (e, c) = releaseItemLocked (sendHead (snd s)) s in (e, c\<lparr>sendHead := sendHead c + 1\<rparr>))"

function consume_loop :: "int \<Rightarrow> st \<Rightarrow> st" where
  "consume_loop left s =
     (let c = snd s in
      if sendHead c < length (sends c) then
        (let it = sends c ! sendHead c in
         case it_file it of
           Some f \<Rightarrow>
             (if it_data it = None then
                (if left < fs_remaining f
                 then (fst s, set_head (it\<lparr>it_file := Some (advance left f)\<rparr>) c)
                 else consume_loop (left - fs_remaining f) (drop_head s))
              else
                (let remaining = int (length (data_bytes it)) - int (it_offset it) in
                 if left < remaining
                 then (fst s, set_head (it\<lparr>it_offset := it_offset it + nat left\<rparr>) c)
                 else if fs_remaining f > 0
                 then (fst s, set_head (it\<lparr>it_data := None, it_offset := 0\<rparr>) c)
                 else consume_loop (left - remaining) (drop_head s)))
         | None \<Rightarrow>
             (let remaining = int (length (data_bytes it)) - int (it_offset it) in
              if left < remaining
              then (fst s, set_head (it\<lparr>it_offset := it_offset it + nat left\<rparr>) c)
              else consume_loop (left - remaining) (drop_head s)))
      else s)"
  by pat_completeness auto
termination
  by (relation "measure (\<lambda>(left, s). length (sends (snd s)) - sendHead (snd s))")
     (auto simp: drop_head_def releaseItemLocked_def Let_def split: prod.splits)

declare consume_loop.simps [simp del]

definition consumeLocked :: "nat \<Rightarrow> st \<Rightarrow> st" where
  "consumeLocked n s = consume_loop (int n) s"

text \<open>The second half of \<open>queueLocked\<close>: a new item on a pooled buffer.\<close>

definition queue_new :: "(nat \<Rightarrow> nat \<Rightarrow> nat) \<Rightarrow> bytes \<Rightarrow> bytes \<Rightarrow> st \<Rightarrow> st" where
  "queue_new g fst_part snd_part s =
     (let (e, c) = s;
          c' = (if sendHead c = length (sends c) then rewindQueueLocked c else c);
          (b, e') = acquireSendBuffer e;
          b' = append_buf g (append_buf g b fst_part) snd_part
      in (e', c'\<lparr>sends := sends c' @
            [\<lparr>it_data = Some (sb_data b'), it_offset = 0, it_buf = Some b', it_file = None\<rparr>]\<rparr>))"

definition queueLocked :: "(nat \<Rightarrow> nat \<Rightarrow> nat) \<Rightarrow> bytes \<Rightarrow> bytes \<Rightarrow> st \<Rightarrow> st" where
  "queueLocked g fst_part snd_part s =
     (let (e, c) = s;
          n = length (sends c);
          tail = sends c ! (n - 1)
      in case (if n > 0 then it_buf tail else None) of
           Some b \<Rightarrow>
             (if it_offset tail = 0
               \<and> length (sb_data b) + length fst_part + length snd_part \<le> sb_cap b
              then
                (let b' = append_buf g (append_buf g b fst_part) snd_part in
                 (e, c\<lparr>sends := (sends c)
                        [n - 1 := tail\<lparr>it_buf := Some b', it_data := Some (sb_data b')\<rparr>]\<rparr>))
              else queue_new g fst_part snd_part s)
         | None \<Rightarrow> queue_new g fst_part snd_part s)"

definition queueOwnedLocked :: "bytes \<Rightarrow> conn \<Rightarrow> conn" where
  "queueOwnedLocked d c =
     (let c' = (if sendHead c = length (sends c) then rewindQueueLocked c else c) in
      c'\<lparr>sends := sends c' @
         [\<lparr>it_data = Some d, it_offset = 0, it_buf = None, it_file = None\<rparr>]\<rparr>)"

section \<open>Sending\<close>

text \<open>The kernel took \<open>xs\<close> for the connection.\<close>

definition emit :: "out_unit list \<Rightarrow> st \<Rightarrow> st" where
  "emit xs s = (fst s, (snd s)\<lparr>wire := wire (snd s) @ xs\<rparr>)"

text \<open>The direct write retries while it is interrupted; \<open>None\<close> when the script ends first.\<close>

fun direct_write :: "sysret list \<Rightarrow> nat \<Rightarrow> ((nat \<times> errno option) \<times> sysret list) option" where
  "direct_write [] len = None"
| "direct_write (r # rs) len =
     (let (n, err) = sysWrite r len in
      if err = Some EINTR then direct_write rs len else Some ((n, err), rs))"

text \<open>What follows a direct write, or none: queue the rest, count it, and settle the reads.\<close>

definition after_queue :: "st \<Rightarrow> goerr option \<times> st" where
  "after_queue s = (None, refresh_if (\<not> corked (snd s) \<and> pauseStateChangedLocked s) s)"

definition queue_rest :: "(nat \<Rightarrow> nat \<Rightarrow> nat) \<Rightarrow> bool \<Rightarrow> bytes \<Rightarrow> st \<Rightarrow> goerr option \<times> st" where
  "queue_rest g copyData queued s =
     (let s1 = (if copyData then queueLocked g queued [] s
                else (fst s, queueOwnedLocked queued (snd s)))
      in after_queue (addPending (int (length queued)) s1))"

text \<open>\<open>send\<close> of a stream connection. The result is the error returned and the new state.\<close>

definition send ::
  "(nat \<Rightarrow> nat \<Rightarrow> nat) \<Rightarrow> bool \<Rightarrow> bytes \<Rightarrow> sysret list \<Rightarrow> st \<Rightarrow> ((goerr option \<times> st) \<times> sysret list) option"
where
  "send g copyData d rs s =
     (if d = [] then Some ((None, s), rs)
      else if sendClosed (snd s) then Some ((Some (Sys EPIPE), s), rs)
      else if canWriteDirectlyLocked (snd s) then
        (case direct_write rs (length d) of
           None \<Rightarrow> None
         | Some ((n, err), rs') \<Rightarrow>
             (if err \<noteq> None \<and> \<not> isWouldBlock (the err)
              then Some ((Some (Sys (the err)), closeWithError (Some (Sys (the err))) s), rs')
              else
                (let sent = (if err = None then n else 0);
                     s1 = emit (map Mem (take sent d)) s
                 in if sent = length d then Some ((None, s1), rs')
                    else Some (queue_rest g copyData (drop sent d) s1, rs'))))
      else Some (queue_rest g copyData d s, rs))"

text \<open>\<open>SendParts\<close> writes two parts with one call and queues what was not taken.\<close>

definition parts_rest :: "(nat \<Rightarrow> nat \<Rightarrow> nat) \<Rightarrow> bytes \<Rightarrow> bytes \<Rightarrow> nat \<Rightarrow> st \<Rightarrow> goerr option \<times> st" where
  "parts_rest g d1 d2 sent s =
     (let s1 = (if sent < length d1 then queueLocked g (drop sent d1) d2 s
                else queueLocked g (drop (sent - length d1) d2) [] s)
      in after_queue (addPending (int (length d1 + length d2) - int sent) s1))"

definition SendParts ::
  "(nat \<Rightarrow> nat \<Rightarrow> nat) \<Rightarrow> bytes \<Rightarrow> bytes \<Rightarrow> sysret list \<Rightarrow> st \<Rightarrow> ((goerr option \<times> st) \<times> sysret list) option"
where
  "SendParts g d1 d2 rs s =
     (let total = length d1 + length d2 in
      if total = 0 then Some ((None, s), rs)
      else if sendClosed (snd s) then Some ((Some (Sys EPIPE), s), rs)
      else if canWriteDirectlyLocked (snd s) then
        (case direct_write rs total of
           None \<Rightarrow> None
         | Some ((n, err), rs') \<Rightarrow>
             (if err \<noteq> None \<and> \<not> isWouldBlock (the err)
              then Some ((Some (Sys (the err)), closeWithError (Some (Sys (the err))) s), rs')
              else
                (let sent = (if err = None then n else 0);
                     s1 = emit (map Mem (take sent (d1 @ d2))) s
                 in if sent = total then Some ((None, s1), rs')
                    else Some (parts_rest g d1 d2 sent s1, rs'))))
      else Some (parts_rest g d1 d2 0 s, rs))"

section \<open>Flushing\<close>

text \<open>The bytes of a run of in-memory items, up to the first file, as \<open>writev\<close> gathers them.\<close>

fun writev_buffers :: "sendItem list \<Rightarrow> bytes list" where
  "writev_buffers [] = []"
| "writev_buffers (it # its) =
     (if it_file it \<noteq> None then []
      else drop (it_offset it) (data_bytes it) # writev_buffers its)"

definition file_units :: "fileSegment \<Rightarrow> nat \<Rightarrow> out_unit list" where
  "file_units f n = map (\<lambda>i. FileByte (fs_fd f) (fs_offset f + int i)) [0..<n]"

text \<open>
  The answer of one gathered call: bytes taken, bytes attempted, whether they came from a file,
  the error, the units that went out, and whether the segment fell back to copying.
\<close>

record sent_result =
  sr_n :: nat
  sr_attempted :: nat
  sr_fromFile :: bool
  sr_err :: "goerr option"
  sr_units :: "out_unit list"
  sr_copyBuf :: bool

definition file_result :: "fileSegment \<Rightarrow> bool \<Rightarrow> nat \<Rightarrow> nat \<Rightarrow> goerr option \<Rightarrow> sent_result" where
  "file_result f copied n attempted err =
     \<lparr>sr_n = n, sr_attempted = attempted, sr_fromFile = True, sr_err = err,
      sr_units = file_units f n, sr_copyBuf = copied\<rparr>"

text \<open>The copying path of \<open>sysSendFileLocked\<close>: \<open>pread\<close> a chunk, then \<open>write\<close> it.\<close>

definition copy_file :: "fileSegment \<Rightarrow> sysret list \<Rightarrow> (sent_result \<times> sysret list) option" where
  "copy_file f rs =
     (let chunk = nat (min (fs_remaining f) sendFileChunk) in
      case rs of
        [] \<Rightarrow> None
      | r # rs1 \<Rightarrow>
          (case sysWrite r chunk of
             (_, Some e) \<Rightarrow> Some (file_result f True 0 chunk (Some (Sys e)), rs1)
           | (got, None) \<Rightarrow>
               (if got = 0 then Some (file_result f True 0 chunk (Some ErrUnexpectedEOF), rs1)
                else (case rs1 of
                        [] \<Rightarrow> None
                      | w # rs2 \<Rightarrow>
                          (let (n, err) = sysWrite w got in
                           Some (file_result f True n got (map_option Sys err), rs2))))))"

text \<open>
  The \<open>sendfile\<close> path. macOS may return a count together with an error; an interrupted call is
  retried here when it sent nothing, and shortens \<open>attempted\<close> when it sent something.
\<close>

definition not_spliceable :: "errno \<Rightarrow> bool" where
  "not_spliceable e \<longleftrightarrow> e \<in> {EINVAL, ENOTSUP, EOPNOTSUPP, ENOTSOCK}"

fun splice_file :: "fileSegment \<Rightarrow> sysret list \<Rightarrow> (sent_result \<times> sysret list) option" where
  "splice_file f [] = None"
| "splice_file f (r # rs) =
     (let attempted = nat (min (fs_remaining f) maxSendFileCall);
          n = min (ret_n r) attempted
      in case ret_err r of
           None \<Rightarrow> (if n = 0 then Some (file_result f False 0 attempted (Some ErrUnexpectedEOF), rs)
                   else Some (file_result f False n attempted None, rs))
         | Some e \<Rightarrow>
             (if n > 0 then Some (file_result f False n (if e = EINTR then n else attempted) None, rs)
              else if e = EINTR then splice_file f rs
              else if not_spliceable e then copy_file f rs
              else Some (file_result f False 0 attempted (Some (Sys e)), rs)))"

definition sysSendFileLocked :: "fileSegment \<Rightarrow> sysret list \<Rightarrow> (sent_result \<times> sysret list) option" where
  "sysSendFileLocked f rs = (if fs_copyBuf f then copy_file f rs else splice_file f rs)"

definition mem_result :: "bytes \<Rightarrow> sysret list \<Rightarrow> (sent_result \<times> sysret list) option" where
  "mem_result b rs =
     (case rs of
        [] \<Rightarrow> None
      | r # rs' \<Rightarrow>
          (let (n, err) = sysWrite r (length b) in
           Some (\<lparr>sr_n = n, sr_attempted = length b, sr_fromFile = False,
                  sr_err = map_option Sys err, sr_units = map Mem (take n b), sr_copyBuf = False\<rparr>, rs')))"

text \<open>\<open>sysWritev\<close> makes no call when every buffer is empty.\<close>

definition sysWritev :: "bytes list \<Rightarrow> sysret list \<Rightarrow> (sent_result \<times> sysret list) option" where
  "sysWritev bufs rs =
     (if concat bufs = [] then
        Some (\<lparr>sr_n = 0, sr_attempted = 0, sr_fromFile = False, sr_err = None, sr_units = [],
               sr_copyBuf = False\<rparr>, rs)
      else mem_result (concat bufs) rs)"

definition write_head :: "st \<Rightarrow> sysret list \<Rightarrow> (sent_result \<times> sysret list) option" where
  "write_head s rs =
     (let (e, c) = s;
          pending = length (sends c) - sendHead c;
          it = sends c ! sendHead c
      in case it_file it of
           Some f \<Rightarrow> sysSendFileLocked f rs
         | None \<Rightarrow>
             (if useWritev e \<and> pending > 1
              then sysWritev (writev_buffers (take maxWritevItems (drop (sendHead c) (sends c)))) rs
              else mem_result (drop (it_offset it) (data_bytes it)) rs))"

text \<open>The segment remembers that \<open>sendfile\<close> refused it.\<close>

definition note_copyBuf :: "bool \<Rightarrow> conn \<Rightarrow> conn" where
  "note_copyBuf copied c =
     (let it = sends c ! sendHead c in
      if copied
      then set_head (it\<lparr>it_file := map_option (\<lambda>f. f\<lparr>fs_copyBuf := True\<rparr>) (it_file it)\<rparr>) c
      else c)"

datatype flushres = FlushContinue | FlushReturn "goerr option"

definition stop_flush :: "st \<Rightarrow> st" where
  "stop_flush s =
     (let s1 = (fst s, (snd s)\<lparr>flushing := False\<rparr>) in refresh_if (pauseStateChangedLocked s1) s1)"

text \<open>The first critical section of \<open>flushOutput\<close>: \<open>Some r\<close> when it returns \<open>r\<close> at once.\<close>

definition flush_enter :: "st \<Rightarrow> goerr option option \<times> st" where
  "flush_enter s =
     (let (e, c) = s in
      if closing c \<or> closed c \<or> flushing c
      then (Some (if \<not> closing c \<and> \<not> closed c then None else Some (Sys EPIPE)), s)
      else (None, (e, c\<lparr>flushing := True\<rparr>)))"

text \<open>The queue ran empty: restart it, and close if that was asked for.\<close>

definition flush_empty :: "st \<Rightarrow> st" where
  "flush_empty s =
     (let (e, c) = s;
          s1 = (e, (rewindQueueLocked c)\<lparr>flushing := False\<rparr>)
      in if closeAfterSend c then closeWithError None s1
         else refresh_if (pauseStateChangedLocked s1) s1)"

text \<open>The socket took \<open>sr_n r\<close> units: count them off and drop them from the queue.\<close>

definition take_sent :: "sent_result \<Rightarrow> st \<Rightarrow> st" where
  "take_sent r s =
     (let s1 = emit (sr_units r) s
      in consumeLocked (sr_n r) (if sr_fromFile r then s1 else subPending (int (sr_n r)) s1))"

text \<open>One turn of the loop of \<open>flushOutput\<close>, all of it under the lock.\<close>

definition flush_iter :: "sysret list \<Rightarrow> st \<Rightarrow> (flushres \<times> st \<times> sysret list) option" where
  "flush_iter rs s =
     (if sendHead (snd s) = length (sends (snd s))
      then Some (FlushReturn None, flush_empty s, rs)
      else
        (case write_head s rs of
           None \<Rightarrow> None
         | Some (r, rs') \<Rightarrow>
             (let s0 = (fst s, note_copyBuf (sr_copyBuf r) (snd s)) in
              if sr_n r > 0 then
                (if sr_n r < sr_attempted r
                 then Some (FlushReturn None, stop_flush (take_sent r s0), rs')
                 else Some (FlushContinue, take_sent r s0, rs'))
              else if sr_err r = Some (Sys EINTR) then Some (FlushContinue, s0, rs')
              else
                (case sr_err r of
                   Some (Sys en) \<Rightarrow>
                     (if isWouldBlock en then Some (FlushReturn None, stop_flush s0, rs')
                      else Some (FlushReturn (sr_err r), (fst s0, (snd s0)\<lparr>flushing := False\<rparr>), rs'))
                 | _ \<Rightarrow> Some (FlushReturn (sr_err r), (fst s0, (snd s0)\<lparr>flushing := False\<rparr>), rs')))))"

section \<open>The loop of flushOutput\<close>

lemma mem_result_script: "mem_result b rs = Some (r, rs') \<Longrightarrow> length rs' < length rs"
  by (auto simp: mem_result_def Let_def split: list.splits prod.splits)

lemma copy_file_script: "copy_file f rs = Some (r, rs') \<Longrightarrow> length rs' < length rs"
  by (auto simp: copy_file_def Let_def split: list.splits prod.splits option.splits if_splits)

lemma splice_file_script: "splice_file f rs = Some (r, rs') \<Longrightarrow> length rs' < length rs"
  by (induction rs)
     (auto simp: Let_def split: option.splits if_splits dest: copy_file_script intro: less_SucI)

lemma write_head_script:
  assumes "write_head s rs = Some (r, rs')"
  shows "length rs' < length rs \<or> sr_n r = 0 \<and> sr_err r = None"
  using assms
  by (auto simp: write_head_def sysSendFileLocked_def sysWritev_def Let_def
      split: prod.splits option.splits if_splits
      dest: mem_result_script copy_file_script splice_file_script)

lemma flush_iter_script:
  assumes "flush_iter rs s = Some (FlushContinue, s', rs')"
  shows "length rs' < length rs"
  using assms write_head_script [of s rs]
  by (force simp: flush_iter_def Let_def split: if_splits option.splits goerr.splits)

function flush_loop :: "sysret list \<Rightarrow> st \<Rightarrow> ((goerr option \<times> st) \<times> sysret list) option" where
  "flush_loop rs s =
     (case flush_iter rs s of
        None \<Rightarrow> None
      | Some (FlushReturn r, s', rs') \<Rightarrow> Some ((r, s'), rs')
      | Some (FlushContinue, s', rs') \<Rightarrow> flush_loop rs' s')"
  by pat_completeness auto
termination
  by (relation "measure (\<lambda>(rs, s). length rs)") (auto dest: flush_iter_script)

declare flush_loop.simps [simp del]

definition flushOutput :: "sysret list \<Rightarrow> st \<Rightarrow> ((goerr option \<times> st) \<times> sysret list) option" where
  "flushOutput rs s =
     (case flush_enter s of
        (Some r, s') \<Rightarrow> Some ((r, s'), rs)
      | (None, s') \<Rightarrow> flush_loop rs s')"

text \<open>\<open>uncork\<close> drops the cork and flushes what the round queued.\<close>

definition uncork :: "sysret list \<Rightarrow> st \<Rightarrow> ((goerr option \<times> st) \<times> sysret list) option" where
  "uncork rs s =
     (let (e, c) = s;
          s1 = (e, c\<lparr>corked := False\<rparr>)
      in if \<not> corked c \<or> sendHead c = length (sends c) then Some ((None, s1), rs)
         else flushOutput rs s1)"

definition Flush :: "sysret list \<Rightarrow> st \<Rightarrow> ((goerr option \<times> st) \<times> sysret list) option" where
  "Flush rs s = (if udp (snd s) then Some ((None, s), rs) else uncork rs s)"

text \<open>
  \<open>SendFile\<close> on a stream connection without a layer. \<open>dup\<close> is the descriptor \<open>newFileSegment\<close>
  duplicated, or its error.
\<close>

definition checkSendFileRange :: "int \<Rightarrow> int \<Rightarrow> goerr option" where
  "checkSendFileRange off count = (if off < 0 \<or> count < 0 then Some InvalidRange else None)"

definition newFileSegment :: "goerr + int \<Rightarrow> int \<Rightarrow> int \<Rightarrow> goerr + fileSegment" where
  "newFileSegment dup off count =
     (case dup of Inl e \<Rightarrow> Inl e
      | Inr fd \<Rightarrow> Inr \<lparr>fs_fd = fd, fs_offset = off, fs_remaining = count, fs_copyBuf = False\<rparr>)"

definition queue_file :: "fileSegment \<Rightarrow> conn \<Rightarrow> conn" where
  "queue_file seg c =
     (let c' = (if sendHead c = length (sends c) then rewindQueueLocked c else c) in
      c'\<lparr>sends := sends c' @ [empty_item\<lparr>it_file := Some seg\<rparr>]\<rparr>)"

definition SendFile ::
  "goerr + int \<Rightarrow> int \<Rightarrow> int \<Rightarrow> sysret list \<Rightarrow> st \<Rightarrow> ((goerr option \<times> st) \<times> sysret list) option"
where
  "SendFile dup off count rs s =
     (case checkSendFileRange off count of
        Some e \<Rightarrow> Some ((Some e, s), rs)
      | None \<Rightarrow>
          (if udp (snd s) then Some ((Some ErrSendFileDatagram, s), rs)
           else if count = 0 then Some ((None, s), rs)
           else (case newFileSegment dup off count of
                   Inl e \<Rightarrow> Some ((Some e, s), rs)
                 | Inr seg \<Rightarrow>
                     (if sendClosed (snd s) then Some ((Some (Sys EPIPE), s), rs)
                      else
                        (let direct = canWriteDirectlyLocked (snd s);
                             s1 = (fst s, queue_file seg (snd s))
                         in if \<not> direct then Some ((None, s1), rs)
                            else (case flushOutput rs s1 of
                                    None \<Rightarrow> None
                                  | Some ((Some e, s2), rs') \<Rightarrow>
                                      Some ((Some e, closeWithError (Some e) s2), rs')
                                  | Some ((None, s2), rs') \<Rightarrow> Some ((None, s2), rs')))))))"

section \<open>The invariant of the queue\<close>

text \<open>
  Drained slots are empty, a live in-memory item still has bytes to send, its pooled buffer (if
  any) holds its data, and a file item is all file.
\<close>

definition item_ok :: "sendItem \<Rightarrow> bool" where
  "item_ok it =
     (case it_file it of
        None \<Rightarrow> it_data it \<noteq> None \<and> it_offset it < length (data_bytes it) \<and>
                (case it_buf it of None \<Rightarrow> True | Some b \<Rightarrow> sb_data b = data_bytes it)
      | Some f \<Rightarrow> it_data it = None \<and> it_offset it = 0 \<and> it_buf it = None \<and> 0 < fs_remaining f)"

definition queue_ok :: "conn \<Rightarrow> bool" where
  "queue_ok c \<longleftrightarrow>
     sendHead c \<le> length (sends c) \<and>
     (\<forall>it \<in> set (take (sendHead c) (sends c)). it = empty_item) \<and>
     (\<forall>it \<in> set (drop (sendHead c) (sends c)). item_ok it)"

definition item_units :: "sendItem \<Rightarrow> out_unit list" where
  "item_units it =
     map Mem (drop (it_offset it) (data_bytes it)) @
     (case it_file it of None \<Rightarrow> [] | Some f \<Rightarrow> file_units f (nat (fs_remaining f)))"

text \<open>The output still to be sent, in order.\<close>

definition queued :: "conn \<Rightarrow> out_unit list" where
  "queued c = concat (map item_units (drop (sendHead c) (sends c)))"

section \<open>Consuming what the socket took\<close>

lemma set_head_simps [simp]:
  "sendHead (set_head it c) = sendHead c"
  "sends (set_head it c) = (sends c)[sendHead c := it]"
  by (simp_all add: set_head_def)

lemma drop_head_simps [simp]:
  "sendHead (snd (drop_head s)) = Suc (sendHead (snd s))"
  "sends (snd (drop_head s)) = (sends (snd s))[sendHead (snd s) := empty_item]"
  by (simp_all add: drop_head_def releaseItemLocked_def Let_def split: prod.splits)

lemma drop_list_update_self:
  "i < length xs \<Longrightarrow> drop i (xs[i := x]) = x # drop (Suc i) xs"
  by (simp add: drop_update_swap flip: Cons_nth_drop_Suc)

text \<open>The queue seen from its head item.\<close>

lemma queue_at_head:
  assumes "sendHead c < length (sends c)"
  shows "queued c = item_units (sends c ! sendHead c) @ queued (c\<lparr>sendHead := Suc (sendHead c)\<rparr>)"
    and "queue_ok c \<Longrightarrow> item_ok (sends c ! sendHead c)"
  using assms by (auto simp: queue_ok_def queued_def simp flip: Cons_nth_drop_Suc)

lemma queue_set_head:
  assumes "sendHead c < length (sends c)"
  shows "queue_ok c \<Longrightarrow> item_ok it \<Longrightarrow> queue_ok (set_head it c)"
    and "queued (set_head it c) = item_units it @ queued (c\<lparr>sendHead := Suc (sendHead c)\<rparr>)"
  using assms
  by (auto simp: queue_ok_def queued_def drop_list_update_self simp flip: Cons_nth_drop_Suc)

lemma queue_drop_head:
  assumes "sendHead (snd s) < length (sends (snd s))"
  shows "queue_ok (snd s) \<Longrightarrow> queue_ok (snd (drop_head s))"
    and "queued (snd (drop_head s)) = queued ((snd s)\<lparr>sendHead := Suc (sendHead (snd s))\<rparr>)"
  using assms
  by (auto simp: queue_ok_def queued_def take_Suc_conv_app_nth simp flip: Cons_nth_drop_Suc)

lemma length_file_units [simp]: "length (file_units f n) = n"
  by (simp add: file_units_def)

lemma file_units_advance: "file_units (advance (int n) f) (m - n) = drop n (file_units f m)"
  by (rule nth_equalityI) (auto simp: file_units_def advance_def)

lemma item_units_cases:
  assumes "item_ok it"
  shows "case it_file it of
           None \<Rightarrow> int (length (item_units it)) = int (length (data_bytes it)) - int (it_offset it)
         | Some f \<Rightarrow> it_data it = None \<and> item_units it = file_units f (nat (fs_remaining f)) \<and>
                     int (length (item_units it)) = fs_remaining f"
  using assms
  by (auto simp: item_ok_def item_units_def data_bytes_def split: option.splits)

lemma consume_partial:
  assumes head: "sendHead (snd s) < length (sends (snd s))" and ok: "queue_ok (snd s)"
    and left: "0 \<le> left" "left < int (length (item_units (sends (snd s) ! sendHead (snd s))))"
  shows "\<exists>it'. consume_loop left s = (fst s, set_head it' (snd s)) \<and> item_ok it' \<and>
    item_units it' = drop (nat left) (item_units (sends (snd s) ! sendHead (snd s)))"
proof -
  let ?it = "sends (snd s) ! sendHead (snd s)"
  have it: "item_ok ?it" using queue_at_head(2) [OF head ok] .
  note units = item_units_cases [OF it]
  show ?thesis
  proof (cases "it_file ?it")
    case None
    let ?it' = "?it\<lparr>it_offset := it_offset ?it + nat left\<rparr>"
    have "consume_loop left s = (fst s, set_head ?it' (snd s))"
      using None head left units by (simp add: consume_loop.simps [of left s] Let_def)
    moreover have "item_ok ?it'" "item_units ?it' = drop (nat left) (item_units ?it)"
      using it None left units
      by (auto simp: item_ok_def item_units_def data_bytes_def drop_map add.commute
          split: option.splits)
    ultimately show ?thesis by blast
  next
    case (Some f)
    let ?it' = "?it\<lparr>it_file := Some (advance left f)\<rparr>"
    have "consume_loop left s = (fst s, set_head ?it' (snd s))"
      using Some head left units by (simp add: consume_loop.simps [of left s] Let_def)
    moreover have "item_ok ?it'"
      using it Some left units by (auto simp: item_ok_def advance_def)
    moreover have "item_units ?it' = drop (nat left) (item_units ?it)"
      using Some left units file_units_advance [of "nat left" f "nat (fs_remaining f)"]
      by (simp add: item_units_def data_bytes_def advance_def nat_diff_distrib)
    ultimately show ?thesis by blast
  qed
qed

lemma consume_whole:
  assumes head: "sendHead (snd s) < length (sends (snd s))" and ok: "queue_ok (snd s)"
    and left: "\<not> left < int (length (item_units (sends (snd s) ! sendHead (snd s))))"
  shows "consume_loop left s =
    consume_loop (left - int (length (item_units (sends (snd s) ! sendHead (snd s))))) (drop_head s)"
proof -
  let ?it = "sends (snd s) ! sendHead (snd s)"
  note units = item_units_cases [OF queue_at_head(2) [OF head ok]]
  show ?thesis
  proof (cases "it_file ?it")
    case None
    with units head left show ?thesis by (simp add: consume_loop.simps [of left s] Let_def)
  next
    case (Some f)
    with units head left show ?thesis by (simp add: consume_loop.simps [of left s] Let_def)
  qed
qed

lemma consume_loop_spec:
  "queue_ok (snd s) \<Longrightarrow> 0 \<le> left \<Longrightarrow> left \<le> int (length (queued (snd s))) \<Longrightarrow>
   queue_ok (snd (consume_loop left s)) \<and>
   queued (snd (consume_loop left s)) = drop (nat left) (queued (snd s))"
proof (induction "length (sends (snd s)) - sendHead (snd s)" arbitrary: left s rule: less_induct)
  case less
  let ?units = "item_units (sends (snd s) ! sendHead (snd s))"
  show ?case
  proof (cases "sendHead (snd s) < length (sends (snd s))")
    case False
    then have "consume_loop left s = s" "queued (snd s) = []"
      by (simp_all add: consume_loop.simps [of left s] queued_def)
    with less.prems show ?thesis by simp
  next
    case head: True
    note q = queue_at_head(1) [OF head]
    show ?thesis
    proof (cases "left < int (length ?units)")
      case True
      with consume_partial [OF head less.prems(1,2)] obtain it' where
        "consume_loop left s = (fst s, set_head it' (snd s))" "item_ok it'"
        "item_units it' = drop (nat left) ?units" by blast
      with queue_set_head [OF head] less.prems q True show ?thesis by simp
    next
      case False
      let ?l = "left - int (length ?units)"
      have "queue_ok (snd (consume_loop ?l (drop_head s))) \<and>
        queued (snd (consume_loop ?l (drop_head s))) = drop (nat ?l) (queued (snd (drop_head s)))"
        using less.hyps [of "drop_head s" ?l] queue_drop_head [OF head] head less.prems q False
        by simp
      then show ?thesis
        using consume_whole [OF head less.prems(1) False] queue_drop_head [OF head] q False
        by (simp add: nat_diff_distrib')
    qed
  qed
qed

text \<open>Consuming moves nothing but the queue and the pool.\<close>

definition queue_frame :: "st \<Rightarrow> st \<Rightarrow> bool" where
  "queue_frame s s' \<longleftrightarrow>
     (\<exists>p xs h. s' = ((fst s)\<lparr>sendBufferPool := p\<rparr>, (snd s)\<lparr>sends := xs, sendHead := h\<rparr>))"

lemma queue_frameI:
  "s' = ((fst s)\<lparr>sendBufferPool := p\<rparr>, (snd s)\<lparr>sends := xs, sendHead := h\<rparr>) \<Longrightarrow> queue_frame s s'"
  by (auto simp: queue_frame_def)

lemma queue_frame_refl [simp]: "queue_frame s s"
  by (rule queue_frameI [where p = "sendBufferPool (fst s)" and xs = "sends (snd s)" and h = "sendHead (snd s)"]) simp

lemma queue_frame_trans: "queue_frame s t \<Longrightarrow> queue_frame t u \<Longrightarrow> queue_frame s u"
  unfolding queue_frame_def by force

lemma queue_frame_set_head [simp]: "queue_frame s (fst s, set_head it (snd s))"
  by (rule queue_frameI [where p = "sendBufferPool (fst s)" and xs = "sends (set_head it (snd s))" and h = "sendHead (snd s)"])
     (simp add: set_head_def)

lemma queue_frame_drop_head [simp]: "queue_frame s (drop_head s)"
  by (rule queue_frameI [where p = "sendBufferPool (fst (drop_head s))" and xs = "sends (snd (drop_head s))" and h = "sendHead (snd (drop_head s))"])
     (cases s, auto simp: drop_head_def releaseItemLocked_def releaseSendBuffer_def Let_def
        split: option.splits)

lemma consume_loop_unfold:
  assumes "r = consume_loop left s"
  shows "r = s \<or> (\<exists>it. r = (fst s, set_head it (snd s))) \<or>
    (\<exists>l. r = consume_loop l (drop_head s) \<and> sendHead (snd s) < length (sends (snd s)))"
  using assms
  by (subst (asm) consume_loop.simps) (auto simp: Let_def split: option.splits if_splits)

lemma consume_loop_frame: "queue_frame s (consume_loop left s)"
proof (induction "length (sends (snd s)) - sendHead (snd s)" arbitrary: left s rule: less_induct)
  case less
  have "queue_frame (drop_head s) (consume_loop l (drop_head s))"
    if "sendHead (snd s) < length (sends (snd s))" for l
    using less.hyps that by simp
  then show ?case
    using consume_loop_unfold [OF refl, of left s] queue_frame_trans [OF queue_frame_drop_head]
    by fastforce
qed

section \<open>Queueing\<close>

lemma sb_data_append_buf [simp]: "sb_data (append_buf g b xs) = sb_data b @ xs"
  by (simp add: append_buf_def Let_def)

lemma acquireSendBuffer_data: "acquireSendBuffer e = (b, e') \<Longrightarrow> sb_data b = []"
  by (auto simp: acquireSendBuffer_def split: list.splits)

lemma queue_frame_acquire:
  "acquireSendBuffer e = (b, e') \<Longrightarrow> \<exists>p. e' = e\<lparr>sendBufferPool := p\<rparr>"
  by (auto simp: acquireSendBuffer_def split: list.splits intro: exI [of _ "sendBufferPool e"])

text \<open>Appending one item, after restarting a drained queue.\<close>

definition push_item :: "sendItem \<Rightarrow> conn \<Rightarrow> conn" where
  "push_item it c =
     (let c' = (if sendHead c = length (sends c) then rewindQueueLocked c else c)
      in c'\<lparr>sends := sends c' @ [it]\<rparr>)"

lemma push_item_spec:
  assumes "queue_ok c" "item_ok it"
  shows "queue_ok (push_item it c)" and "queued (push_item it c) = queued c @ item_units it"
  using assms by (auto simp: push_item_def rewindQueueLocked_def queue_ok_def queued_def Let_def)

lemma push_item_frame:
  "\<exists>xs h. push_item it c = c\<lparr>sends := xs, sendHead := h\<rparr>"
  by (rule exI [of _ "sends (push_item it c)"], rule exI [of _ "sendHead (push_item it c)"])
     (simp add: push_item_def rewindQueueLocked_def Let_def)

lemma queue_new_push:
  "\<exists>b e'. acquireSendBuffer (fst s) = (b, e') \<and>
     queue_new g x y s =
       (e', push_item \<lparr>it_data = Some (x @ y), it_offset = 0,
              it_buf = Some (append_buf g (append_buf g b x) y), it_file = None\<rparr> (snd s))"
  using acquireSendBuffer_data
  by (cases s; cases "acquireSendBuffer (fst s)")
     (force simp: queue_new_def push_item_def Let_def)

lemma queueOwned_push:
  "queueOwnedLocked d c =
     push_item \<lparr>it_data = Some d, it_offset = 0, it_buf = None, it_file = None\<rparr> c"
  by (simp add: queueOwnedLocked_def push_item_def)

lemma queue_file_push: "queue_file seg c = push_item (empty_item\<lparr>it_file := Some seg\<rparr>) c"
  by (simp add: queue_file_def push_item_def)

lemma queueOwned_spec:
  assumes "queue_ok c" "d \<noteq> []"
  shows "queue_ok (queueOwnedLocked d c)" "queued (queueOwnedLocked d c) = queued c @ map Mem d"
  using push_item_spec [OF assms(1)] assms(2)
  by (simp_all add: queueOwned_push item_ok_def item_units_def data_bytes_def)

lemma queue_file_spec:
  assumes "queue_ok c" "0 < fs_remaining seg"
  shows "queue_ok (queue_file seg c)"
    and "queued (queue_file seg c) = queued c @ file_units seg (nat (fs_remaining seg))"
  using push_item_spec [OF assms(1)] assms(2)
  by (simp_all add: queue_file_push item_ok_def item_units_def data_bytes_def empty_item_def)

lemma queue_new_spec:
  assumes "queue_ok (snd s)" "x @ y \<noteq> []"
  shows "queue_ok (snd (queue_new g x y s))"
    and "queued (snd (queue_new g x y s)) = queued (snd s) @ map Mem (x @ y)"
    and "queue_frame s (queue_new g x y s)"
proof -
  obtain b e' where b: "acquireSendBuffer (fst s) = (b, e')"
    and q: "queue_new g x y s =
       (e', push_item \<lparr>it_data = Some (x @ y), it_offset = 0,
              it_buf = Some (append_buf g (append_buf g b x) y), it_file = None\<rparr> (snd s))"
    using queue_new_push by blast
  let ?it = "\<lparr>it_data = Some (x @ y), it_offset = 0,
              it_buf = Some (append_buf g (append_buf g b x) y), it_file = None\<rparr>"
  have "item_ok ?it" "item_units ?it = map Mem (x @ y)"
    using assms(2) acquireSendBuffer_data [OF b]
    by (simp_all add: item_ok_def item_units_def data_bytes_def)
  with push_item_spec [OF assms(1)] q show "queue_ok (snd (queue_new g x y s))"
    and "queued (snd (queue_new g x y s)) = queued (snd s) @ map Mem (x @ y)" by simp_all
  obtain p where "e' = (fst s)\<lparr>sendBufferPool := p\<rparr>" using queue_frame_acquire [OF b] by blast
  with push_item_frame [of ?it "snd s"] q show "queue_frame s (queue_new g x y s)"
    by (auto simp: queue_frame_def)
qed

lemma queue_merge:
  assumes ok: "queue_ok c" and "sends c = ys @ [tail]" and "it_buf tail = Some b"
    and t': "t' = tail\<lparr>it_buf := Some b', it_data := Some (sb_data b')\<rparr>"
    and "sb_data b' = sb_data b @ xs" and "it_offset tail = 0"
  shows "queue_ok (c\<lparr>sends := ys @ [t']\<rparr>)" and "queued (c\<lparr>sends := ys @ [t']\<rparr>) = queued c @ map Mem xs"
proof -
  have h: "sendHead c \<le> length ys"
  proof (rule ccontr)
    assume "\<not> ?thesis"
    with ok assms(2) have "sendHead c = length (ys @ [tail])" by (simp add: queue_ok_def)
    with ok assms(2) have "tail = empty_item" by (simp add: queue_ok_def)
    with assms(3) show False by (simp add: empty_item_def)
  qed
  have tail: "item_ok tail" using ok h assms(2) by (simp add: queue_ok_def)
  with assms(3) have nofile: "it_file tail = None" "sb_data b = data_bytes tail"
    by (auto simp: item_ok_def split: option.splits)
  have "item_ok t'" "item_units t' = item_units tail @ map Mem xs"
    using tail nofile t' assms(3,5,6) by (auto simp: item_ok_def item_units_def data_bytes_def)
  then show "queue_ok (c\<lparr>sends := ys @ [t']\<rparr>)" "queued (c\<lparr>sends := ys @ [t']\<rparr>) = queued c @ map Mem xs"
    using ok h assms(2) by (auto simp: queue_ok_def queued_def)
qed

lemma queueLocked_spec:
  assumes ok: "queue_ok (snd s)" and ne: "x @ y \<noteq> []"
  shows "queue_ok (snd (queueLocked g x y s)) \<and>
    queued (snd (queueLocked g x y s)) = queued (snd s) @ map Mem (x @ y) \<and>
    queue_frame s (queueLocked g x y s)"
proof (cases "queueLocked g x y s = queue_new g x y s")
  case True
  with queue_new_spec [OF assms] show ?thesis by simp
next
  case False
  obtain e c where s: "s = (e, c)" by force
  let ?n = "length (sends c)" and ?tail = "sends c ! (length (sends c) - 1)"
  from False s obtain b where n: "0 < ?n" and b: "it_buf ?tail = Some b" "it_offset ?tail = 0"
    by (auto simp: queueLocked_def Let_def split: option.splits if_splits)
  define b' where "b' = append_buf g (append_buf g b x) y"
  define t' where "t' = ?tail\<lparr>it_buf := Some b', it_data := Some (sb_data b')\<rparr>"
  from False s n b have q: "queueLocked g x y s = (e, c\<lparr>sends := (sends c)[?n - 1 := t']\<rparr>)"
    by (auto simp: queueLocked_def Let_def b'_def t'_def split: option.splits if_splits)
  obtain ys where ys: "sends c = ys @ [?tail]"
    using n by (metis append_butlast_last_id last_conv_nth length_greater_0_conv)
  then have upd: "(sends c)[?n - 1 := t'] = ys @ [t']"
    by (metis add_diff_cancel_right' length_append_singleton list_update_length Suc_eq_plus1)
  have "sb_data b' = sb_data b @ (x @ y)" by (simp add: b'_def)
  from queue_merge [OF _ ys b(1) t'_def this b(2)] ok s q upd show ?thesis
    by (auto intro!: queue_frameI [where p = "sendBufferPool e" and xs = "ys @ [t']" and h = "sendHead c"])
qed

section \<open>What one call on the socket takes\<close>

fun is_mem :: "out_unit \<Rightarrow> bool" where
  "is_mem (Mem b) = True"
| "is_mem (FileByte fd off) = False"

definition mem_count :: "out_unit list \<Rightarrow> int" where
  "mem_count xs = int (length (filter is_mem xs))"

lemma mem_count_append [simp]: "mem_count (xs @ ys) = mem_count xs + mem_count ys"
  by (simp add: mem_count_def)

lemma mem_count_Nil [simp]: "mem_count [] = 0"
  by (simp add: mem_count_def)

lemma mem_count_map_Mem [simp]: "mem_count (map Mem xs) = int (length xs)"
  by (simp add: mem_count_def filter_map o_def)

lemma mem_count_file_units [simp]: "mem_count (file_units f n) = 0"
  by (simp add: mem_count_def file_units_def filter_map o_def)

lemma mem_count_nonneg [simp]: "0 \<le> mem_count xs"
  by (simp add: mem_count_def)

text \<open>
  The result of a call is right for a prefix of the queue when it took the first \<open>n\<close> units of it,
  no more than attempted, and says truly whether they came from memory.
\<close>

definition result_ok :: "out_unit list \<Rightarrow> sent_result \<Rightarrow> bool" where
  "result_ok xs r \<longleftrightarrow>
     sr_n r \<le> sr_attempted r \<and> sr_attempted r \<le> length xs \<and> sr_units r = take (sr_n r) xs \<and>
     mem_count (sr_units r) = (if sr_fromFile r then 0 else int (sr_n r)) \<and>
     (sr_copyBuf r \<longrightarrow> sr_fromFile r)"

lemma result_ok_append: "result_ok xs r \<Longrightarrow> result_ok (xs @ ys) r"
  unfolding result_ok_def by (auto split: if_splits)

lemma take_file_units: "n \<le> m \<Longrightarrow> take n (file_units f m) = file_units f n"
  by (simp add: file_units_def take_map)

lemma file_result_ok:
  "n \<le> attempted \<Longrightarrow> attempted \<le> m \<Longrightarrow> result_ok (file_units f m) (file_result f copied n attempted err)"
  by (simp add: result_ok_def file_result_def take_file_units)

lemma sysWrite_le: "sysWrite r len = (n, err) \<Longrightarrow> n \<le> len"
  by (auto simp: sysWrite_def split: option.splits)

lemma copy_file_ok:
  assumes "copy_file f rs = Some (r, rs')"
  shows "result_ok (file_units f (nat (fs_remaining f))) r"
proof -
  have le: "nat (min (fs_remaining f) sendFileChunk) \<le> nat (fs_remaining f)" by simp
  show ?thesis
    using assms le
    by (auto simp: copy_file_def Let_def split: list.splits prod.splits option.splits if_splits
        intro!: file_result_ok dest!: sysWrite_le)
qed

lemma splice_file_ok:
  "splice_file f rs = Some (r, rs') \<Longrightarrow> result_ok (file_units f (nat (fs_remaining f))) r"
proof (induction rs)
  case (Cons a rs)
  then show ?case
    by (auto simp: Let_def split: option.splits if_splits intro!: file_result_ok
        dest: copy_file_ok)
qed simp

lemma mem_result_ok: "mem_result b rs = Some (r, rs') \<Longrightarrow> result_ok (map Mem b) r"
  by (auto simp: mem_result_def result_ok_def Let_def take_map split: list.splits prod.splits
      dest: sysWrite_le)

lemma sysWritev_ok: "sysWritev bufs rs = Some (r, rs') \<Longrightarrow> result_ok (map Mem (concat bufs)) r"
  by (auto simp: sysWritev_def split: if_splits dest: mem_result_ok) (auto simp: result_ok_def)

lemma writev_buffers_prefix:
  assumes "\<forall>it \<in> set its. item_ok it"
  shows "\<exists>rest. concat (map item_units its) = map Mem (concat (writev_buffers its)) @ rest"
  using assms
proof (induction its)
  case (Cons it its)
  then obtain rest where "concat (map item_units its) = map Mem (concat (writev_buffers its)) @ rest"
    by auto
  then show ?case by (cases "it_file it") (auto simp: item_units_def [of it])
qed simp

lemma write_head_ok:
  assumes ok: "queue_ok (snd s)" and head: "sendHead (snd s) < length (sends (snd s))"
    and w: "write_head s rs = Some (r, rs')"
  shows "result_ok (queued (snd s)) r"
proof -
  let ?c = "snd s"
  let ?it = "sends ?c ! sendHead ?c"
  have it: "item_ok ?it" by (rule queue_at_head(2) [OF head ok])
  note q = queue_at_head(1) [OF head]
  show ?thesis
  proof (cases "it_file ?it")
    case (Some f)
    then have "item_units ?it = file_units f (nat (fs_remaining f))"
      using item_units_cases [OF it] by simp
    with Some w q show ?thesis
      by (auto simp: write_head_def sysSendFileLocked_def Let_def split: prod.splits if_splits
          intro!: result_ok_append dest: copy_file_ok splice_file_ok)
  next
    case None
    define its where "its = take maxWritevItems (drop (sendHead ?c) (sends ?c))"
    have "queued ?c = concat (map item_units its) @
        concat (map item_units (drop maxWritevItems (drop (sendHead ?c) (sends ?c))))"
      unfolding queued_def its_def by (metis append_take_drop_id concat_append map_append)
    moreover have "\<forall>it \<in> set its. item_ok it"
      using ok unfolding its_def queue_ok_def by (meson in_set_takeD)
    ultimately obtain rest where v: "queued ?c = map Mem (concat (writev_buffers its)) @ rest"
      using writev_buffers_prefix by (metis append.assoc)
    have "item_units ?it = map Mem (drop (it_offset ?it) (data_bytes ?it))"
      using None by (simp add: item_units_def)
    with None w q have "result_ok (map Mem (concat (writev_buffers its))) r \<or> result_ok (item_units ?it) r"
      by (auto simp: write_head_def Let_def its_def split: prod.splits if_splits
          dest: mem_result_ok sysWritev_ok)
    then show ?thesis using result_ok_append v q by metis
  qed
qed
section \<open>A flush keeps the stream\<close>

lemma queue_frameD:
  assumes "queue_frame s s'"
  shows "wire (snd s') = wire (snd s)" "pendingBytes (snd s') = pendingBytes (snd s)"
    "pendingTotal (fst s') = pendingTotal (fst s)" "closed (snd s') = closed (snd s)"
    "closing (snd s') = closing (snd s)" "udp (snd s') = udp (snd s)" "cid (snd s') = cid (snd s)"
    "flushing (snd s') = flushing (snd s)" "corked (snd s') = corked (snd s)"
    "closeAfterSend (snd s') = closeAfterSend (snd s)"
    "scheduled (snd s') = scheduled (snd s)" "pendingEvents (snd s') = pendingEvents (snd s)"
    "retainedSendBuffer (fst s') = retainedSendBuffer (fst s)"
  using assms by (auto simp: queue_frame_def)

text \<open>The invariant of one connection: a well-formed queue, and a counter that counts its bytes.\<close>

definition conn_inv :: "conn \<Rightarrow> bool" where
  "conn_inv c \<longleftrightarrow> queue_ok c \<and> pendingBytes c = mem_count (queued c)"

text \<open>
  A step that accepted the output \<open>xs\<close>: what was taken followed by what is queued grew by exactly
  \<open>xs\<close>, at its end, and the engine's total moved with the connection's counter.
\<close>

definition stream_step :: "out_unit list \<Rightarrow> st \<Rightarrow> st \<Rightarrow> bool" where
  "stream_step xs s s' \<longleftrightarrow>
     conn_inv (snd s') \<and>
     wire (snd s') @ queued (snd s') = wire (snd s) @ queued (snd s) @ xs \<and>
     (\<exists>ys. wire (snd s') = wire (snd s) @ ys) \<and>
     pendingTotal (fst s') - pendingBytes (snd s') = pendingTotal (fst s) - pendingBytes (snd s) \<and>
     closed (snd s') = closed (snd s) \<and> cid (snd s') = cid (snd s) \<and> udp (snd s') = udp (snd s)"

lemma stream_step_refl: "conn_inv (snd s) \<Longrightarrow> stream_step [] s s"
  by (simp add: stream_step_def)

lemma stream_step_trans:
  "stream_step xs s t \<Longrightarrow> stream_step ys t u \<Longrightarrow> stream_step (xs @ ys) s u"
  unfolding stream_step_def by auto

lemma stream_step_frame:
  assumes "conn_inv (snd s)"
    and "sends (snd s') = sends (snd s)" "sendHead (snd s') = sendHead (snd s)"
    and "wire (snd s') = wire (snd s)" "pendingBytes (snd s') = pendingBytes (snd s)"
    and "pendingTotal (fst s') = pendingTotal (fst s)"
    and "closed (snd s') = closed (snd s)" "cid (snd s') = cid (snd s)" "udp (snd s') = udp (snd s)"
  shows "stream_step [] s s'"
  using assms by (simp add: stream_step_def conn_inv_def queue_ok_def queued_def)

lemma stop_flush_step: "conn_inv (snd s) \<Longrightarrow> stream_step [] s (stop_flush s)"
  by (rule stream_step_frame) (simp_all add: stop_flush_def Let_def)

lemma flush_empty_step:
  assumes "conn_inv (snd s)" "sendHead (snd s) = length (sends (snd s))"
  shows "stream_step [] s (flush_empty s)"
proof -
  have "queued (snd s) = []" using assms(2) by (simp add: queued_def)
  with assms show ?thesis
    by (cases s) (auto simp: flush_empty_def Let_def stream_step_def conn_inv_def rewindQueueLocked_def
        queue_ok_def queued_def)
qed

lemma note_copyBuf_spec:
  assumes "queue_ok c" "sendHead c < length (sends c)"
  shows "queue_ok (note_copyBuf b c)" "queued (note_copyBuf b c) = queued c"
    and "\<exists>xs. note_copyBuf b c = c\<lparr>sends := xs\<rparr>"
proof -
  let ?it = "sends c ! sendHead c"
  let ?it' = "?it\<lparr>it_file := map_option (\<lambda>f. f\<lparr>fs_copyBuf := True\<rparr>) (it_file ?it)\<rparr>"
  have "item_ok ?it'" "item_units ?it' = item_units ?it"
    using queue_at_head(2) [OF assms(2,1)]
    by (auto simp: item_ok_def item_units_def data_bytes_def file_units_def split: option.splits)
  with queue_set_head [OF assms(2), of ?it'] queue_at_head(1) [OF assms(2)] assms(1)
  show "queue_ok (note_copyBuf b c)" "queued (note_copyBuf b c) = queued c"
    by (simp_all add: note_copyBuf_def Let_def)
  show "\<exists>xs. note_copyBuf b c = c\<lparr>sends := xs\<rparr>"
    by (rule exI [of _ "sends (note_copyBuf b c)"]) (simp add: note_copyBuf_def set_head_def Let_def)
qed

lemma note_copyBuf_step:
  assumes "conn_inv (snd s)" "sendHead (snd s) < length (sends (snd s))"
  shows "stream_step [] s (fst s, note_copyBuf b (snd s))"
  using note_copyBuf_spec [of "snd s" b] assms
  by (auto simp: stream_step_def conn_inv_def)

text \<open>What the socket took moves from the queue to the wire.\<close>

lemma take_sent_step:
  assumes inv: "conn_inv (snd s)" and r: "result_ok (queued (snd s)) r"
  shows "stream_step [] s (take_sent r s)"
    and "queued (snd (take_sent r s)) = drop (sr_n r) (queued (snd s))"
    and "closing (snd (take_sent r s)) = closing (snd s)"
proof -
  define s1 where "s1 = emit (sr_units r) s"
  define s2 where "s2 = (if sr_fromFile r then s1 else subPending (int (sr_n r)) s1)"
  let ?q = "queued (snd s)" and ?s3 = "consumeLocked (sr_n r) s2"
  have q1: "queue_ok (snd s1)" "queued (snd s1) = ?q" "pendingBytes (snd s1) = mem_count ?q"
    using inv by (auto simp: s1_def emit_def conn_inv_def queue_ok_def queued_def)
  then have q2: "queue_ok (snd s2)" "queued (snd s2) = ?q"
    by (auto simp: s2_def queue_ok_def queued_def)
  have n: "sr_n r \<le> length ?q" "sr_units r = take (sr_n r) ?q"
    and mc: "mem_count (take (sr_n r) ?q) = (if sr_fromFile r then 0 else int (sr_n r))"
    using r by (auto simp: result_ok_def)
  have split: "mem_count ?q = mem_count (take (sr_n r) ?q) + mem_count (drop (sr_n r) ?q)"
    by (metis append_take_drop_id mem_count_append)
  have q3: "queue_ok (snd ?s3)" "queued (snd ?s3) = drop (sr_n r) ?q"
    using consume_loop_spec [OF q2(1), of "int (sr_n r)"] q2(2) n(1) by (auto simp: consumeLocked_def)
  have frame: "queue_frame s2 ?s3" by (simp add: consumeLocked_def consume_loop_frame)
  have pend: "pendingBytes (snd s2) = mem_count (drop (sr_n r) ?q)"
    using q1(3) mc split subPending_exact [of "int (sr_n r)" s1] by (auto simp: s2_def)
  have tot: "pendingTotal (fst s2) - pendingBytes (snd s2) = pendingTotal (fst s) - pendingBytes (snd s)"
    using q1(3) subPending_in_step [of s1 "int (sr_n r)"]
    by (auto simp: s2_def) (simp_all add: s1_def emit_def)
  have other: "wire (snd s2) = wire (snd s) @ sr_units r" "closed (snd s2) = closed (snd s)"
     "cid (snd s2) = cid (snd s)" "udp (snd s2) = udp (snd s)" "closing (snd s2) = closing (snd s)"
    by (auto simp: s2_def s1_def emit_def)
  have s3: "take_sent r s = ?s3" by (simp add: take_sent_def s2_def s1_def Let_def)
  show "stream_step [] s (take_sent r s)"
    using q3 pend tot other queue_frameD [OF frame] n(2) unfolding s3 stream_step_def conn_inv_def by auto
  show "queued (snd (take_sent r s)) = drop (sr_n r) (queued (snd s))"
    and "closing (snd (take_sent r s)) = closing (snd s)"
    using q3 other queue_frameD [OF frame] by (simp_all add: s3)
qed

lemma flush_iter_step:
  assumes inv: "conn_inv (snd s)" and it: "flush_iter rs s = Some (res, s', rs')"
  shows "stream_step [] s s'"
proof (cases "sendHead (snd s) = length (sends (snd s))")
  case True
  with it flush_empty_step [OF inv] show ?thesis by (auto simp: flush_iter_def)
next
  case False
  with inv have head: "sendHead (snd s) < length (sends (snd s))"
    by (simp add: conn_inv_def queue_ok_def)
  from it False obtain r where w: "write_head s rs = Some (r, rs')"
    by (auto simp: flush_iter_def Let_def split: option.splits if_splits goerr.splits)
  define s0 where "s0 = (fst s, note_copyBuf (sr_copyBuf r) (snd s))"
  have s0: "stream_step [] s s0" using note_copyBuf_step [OF inv head] by (simp add: s0_def)
  then have inv0: "conn_inv (snd s0)" by (simp add: stream_step_def)
  have "queued (snd s0) = queued (snd s)"
    using note_copyBuf_spec(2) [of "snd s"] inv head by (simp add: s0_def conn_inv_def)
  then have ok: "result_ok (queued (snd s0)) r"
    using write_head_ok [OF _ head w] inv by (simp add: conn_inv_def)
  note taken = take_sent_step(1) [OF inv0 ok]
  then have inv3: "conn_inv (snd (take_sent r s0))"
    by (simp add: stream_step_def)
  have quit: "stream_step [] s0 (fst s0, (snd s0)\<lparr>flushing := False\<rparr>)"
    by (rule stream_step_frame [OF inv0]) simp_all
  have "stream_step [] s0 s'"
    using it False w taken stream_step_trans [OF taken stop_flush_step [OF inv3]]
      stop_flush_step [OF inv0] quit stream_step_refl [OF inv0]
    by (auto simp: flush_iter_def s0_def [symmetric] Let_def split: if_splits option.splits goerr.splits)
  with s0 show ?thesis using stream_step_trans by fastforce
qed

lemma flush_loop_step:
  "conn_inv (snd s) \<Longrightarrow> flush_loop rs s = Some ((res, s'), rs') \<Longrightarrow> stream_step [] s s'"
proof (induction rs s rule: flush_loop.induct)
  case (1 rs s)
  from 1(3) obtain out t ts where it: "flush_iter rs s = Some (out, t, ts)"
    by (auto simp: flush_loop.simps [of rs s] split: option.splits)
  have st: "stream_step [] s t" using flush_iter_step [OF 1(2) it] .
  show ?case
  proof (cases out)
    case FlushContinue
    with 1(3) it have "flush_loop ts t = Some ((res, s'), rs')"
      by (simp add: flush_loop.simps [of rs s])
    with 1(1) [OF it refl FlushContinue refl] st have "stream_step [] t s'"
      by (simp add: stream_step_def)
    with st show ?thesis using stream_step_trans by fastforce
  next
    case FlushReturn
    with 1(3) it st show ?thesis by (simp add: flush_loop.simps [of rs s])
  qed
qed

lemma flushOutput_step:
  assumes "conn_inv (snd s)" "flushOutput rs s = Some ((res, s'), rs')"
  shows "stream_step [] s s'"
proof (cases "closing (snd s) \<or> closed (snd s) \<or> flushing (snd s)")
  case True
  with assms show ?thesis
    by (cases s) (auto simp: flushOutput_def flush_enter_def stream_step_refl)
next
  case False
  let ?t = "(fst s, (snd s)\<lparr>flushing := True\<rparr>)"
  have st: "stream_step [] s ?t" by (rule stream_step_frame [OF assms(1)]) simp_all
  from False assms(2) have "flush_loop rs ?t = Some ((res, s'), rs')"
    by (cases s) (auto simp: flushOutput_def flush_enter_def)
  moreover have "conn_inv (snd ?t)" using st by (simp add: stream_step_def)
  ultimately have "stream_step [] ?t s'" by (rule flush_loop_step [rotated])
  with st show ?thesis using stream_step_trans by fastforce
qed

section \<open>Sends append to the stream\<close>

lemma after_queue_frame [simp]:
  "snd (snd (after_queue s)) = snd s" "pendingTotal (fst (snd (after_queue s))) = pendingTotal (fst s)"
  by (simp_all add: after_queue_def)

text \<open>Queueing bytes and counting them is a step of the stream that accepts them.\<close>

lemma queued_step:
  assumes inv: "conn_inv (snd s)"
    and t: "queue_ok (snd t)" "queued (snd t) = queued (snd s) @ map Mem d" "queue_frame s t"
  shows "stream_step (map Mem d) s (snd (after_queue (addPending (int (length d)) t)))"
proof -
  let ?u = "addPending (int (length d)) t"
  have "queue_ok (snd ?u)" "queued (snd ?u) = queued (snd s) @ map Mem d"
    using t by (auto simp: queue_ok_def queued_def)
  then show ?thesis
    using inv queue_frameD [OF t(3)] addPending_exact [of "int (length d)" t]
      addPending_in_step [of "int (length d)" t]
    by (auto simp: stream_step_def conn_inv_def)
qed

lemma queue_frame_push [simp]: "queue_frame s (fst s, push_item it (snd s))"
proof -
  obtain xs h where "push_item it (snd s) = (snd s)\<lparr>sends := xs, sendHead := h\<rparr>"
    using push_item_frame by blast
  then show ?thesis unfolding queue_frame_def
    by (intro exI [of _ "sendBufferPool (fst s)"] exI [of _ xs] exI [of _ h]) simp
qed

lemma queue_rest_step:
  assumes "conn_inv (snd s)" "d \<noteq> []"
  shows "stream_step (map Mem d) s (snd (queue_rest g cp d s))"
proof (cases cp)
  case True
  with queued_step [OF assms(1)] queueLocked_spec [of s d "[]" g] assms show ?thesis
    by (simp add: queue_rest_def conn_inv_def)
next
  case False
  have "queue_frame s (fst s, queueOwnedLocked d (snd s))"
    by (simp add: queueOwned_push)
  with False queued_step [OF assms(1)] queueOwned_spec [of "snd s" d] assms show ?thesis
    by (simp add: queue_rest_def conn_inv_def)
qed

lemma parts_rest_step:
  assumes "conn_inv (snd s)" "n < length (d1 @ d2)"
  shows "stream_step (map Mem (drop n (d1 @ d2))) s (snd (parts_rest g d1 d2 n s))"
proof -
  let ?t = "if n < length d1 then queueLocked g (drop n d1) d2 s
            else queueLocked g (drop (n - length d1) d2) [] s"
  have "queue_ok (snd ?t) \<and> queued (snd ?t) = queued (snd s) @ map Mem (drop n (d1 @ d2)) \<and>
        queue_frame s ?t"
    using queueLocked_spec [of s "drop n d1" d2 g]
      queueLocked_spec [of s "drop (n - length d1) d2" "[]" g] assms
    by (auto simp: conn_inv_def)
  then show ?thesis
    using queued_step [OF assms(1), of ?t "drop n (d1 @ d2)"] assms(2)
    unfolding parts_rest_def Let_def length_drop length_append
    by (simp only: of_nat_diff less_imp_le)
qed

text \<open>A direct write onto an empty queue puts the first bytes on the wire.\<close>

lemma emit_step:
  assumes "conn_inv (snd s)" "queued (snd s) = []"
  shows "stream_step xs s (emit xs s)"
proof -
  have "queued (snd (emit xs s)) = queued (snd s)" "queue_ok (snd (emit xs s)) = queue_ok (snd s)"
    by (simp_all add: emit_def queued_def queue_ok_def)
  with assms show ?thesis by (simp add: stream_step_def conn_inv_def) (simp add: emit_def)
qed

lemma direct_queue_empty: "canWriteDirectlyLocked c \<Longrightarrow> queued c = []"
  by (simp add: canWriteDirectlyLocked_def queued_def)

lemma direct_write_le: "direct_write rs len = Some ((n, err), rs') \<Longrightarrow> n \<le> len"
  by (induction rs) (auto simp: Let_def dest: sysWrite_le split: prod.splits if_splits)

lemma closeWithError_step: "conn_inv (snd s) \<Longrightarrow> stream_step [] s (closeWithError err s)"
  by (rule stream_step_frame) simp_all

lemma send_step:
  assumes inv: "conn_inv (snd s)" and r: "send g cp d rs s = Some ((err, s'), rs')"
  shows "stream_step (if err = None then map Mem d else []) s s'"
proof (cases "d = [] \<or> sendClosed (snd s)")
  case True
  with r inv show ?thesis by (auto simp: send_def stream_step_refl split: if_splits)
next
  case False
  note live = False
  show ?thesis
  proof (cases "canWriteDirectlyLocked (snd s)")
    case False
    with live r queue_rest_step [OF inv, of d g cp] show ?thesis
      by (auto simp: send_def queue_rest_def after_queue_def Let_def)
  next
    case True
    with live r obtain n e where w: "direct_write rs (length d) = Some ((n, e), rs')"
      by (auto simp: send_def Let_def split: option.splits if_splits)
    define k where "k = (if e = None then n else 0)"
    define s1 where "s1 = emit (map Mem (take k d)) s"
    have em: "stream_step (map Mem (take k d)) s s1"
      unfolding s1_def by (rule emit_step [OF inv direct_queue_empty [OF True]])
    then have inv1: "conn_inv (snd s1)" by (simp add: stream_step_def)
    have k: "k \<le> length d" using direct_write_le [OF w] by (simp add: k_def)
    have "k \<noteq> length d \<Longrightarrow> stream_step (map Mem d) s (snd (queue_rest g cp (drop k d) s1))"
      using stream_step_trans [OF em queue_rest_step [OF inv1, of "drop k d" g cp]] k
      by (simp flip: map_append)
    moreover have "k = length d \<Longrightarrow> stream_step (map Mem d) s (emit (map Mem d) s)"
      using em by (simp add: s1_def)
    ultimately show ?thesis
      using r live True w closeWithError_step [OF inv]
      by (auto simp: send_def k_def [symmetric] s1_def [symmetric] Let_def queue_rest_def
          after_queue_def split: if_splits)
  qed
qed

lemma SendParts_step:
  assumes inv: "conn_inv (snd s)" and r: "SendParts g d1 d2 rs s = Some ((err, s'), rs')"
  shows "stream_step (if err = None then map Mem (d1 @ d2) else []) s s'"
proof (cases "d1 @ d2 = [] \<or> sendClosed (snd s)")
  case True
  with r inv show ?thesis by (auto simp: SendParts_def stream_step_refl Let_def split: if_splits)
next
  case False
  note live = False
  let ?d = "d1 @ d2"
  show ?thesis
  proof (cases "canWriteDirectlyLocked (snd s)")
    case False
    with live r parts_rest_step [OF inv, of 0 d1 d2 g] show ?thesis
      by (auto simp: SendParts_def parts_rest_def after_queue_def Let_def)
  next
    case True
    with live r obtain n e where w: "direct_write rs (length ?d) = Some ((n, e), rs')"
      by (auto simp: SendParts_def Let_def split: option.splits if_splits)
    define k where "k = (if e = None then n else 0)"
    define s1 where "s1 = emit (map Mem (take k ?d)) s"
    have em: "stream_step (map Mem (take k ?d)) s s1"
      unfolding s1_def by (rule emit_step [OF inv direct_queue_empty [OF True]])
    then have inv1: "conn_inv (snd s1)" by (simp add: stream_step_def)
    have k: "k \<le> length ?d" using direct_write_le [OF w] by (simp add: k_def)
    from r live True w consider (fail) "err \<noteq> None" "s' = closeWithError err s"
      | (all) "err = None" "k = length ?d" "s' = s1"
      | (rest) "err = None" "k \<noteq> length ?d" "s' = snd (parts_rest g d1 d2 k s1)"
      by (auto simp: SendParts_def k_def s1_def Let_def parts_rest_def after_queue_def split: if_splits)
    then show ?thesis
    proof cases
      case rest
      with stream_step_trans [OF em parts_rest_step [OF inv1, of k d1 d2 g]] k show ?thesis
        unfolding map_append [symmetric] append_take_drop_id by simp
    qed (use em closeWithError_step [OF inv] in auto)
  qed
qed

text \<open>A file range is accepted as the bytes of the duplicated descriptor.\<close>

lemma queue_file_step:
  assumes "conn_inv (snd s)" "0 < fs_remaining seg"
  shows "stream_step (file_units seg (nat (fs_remaining seg))) s (fst s, queue_file seg (snd s))"
proof -
  have "queue_frame s (fst s, queue_file seg (snd s))"
    by (simp add: queue_file_push)
  with queue_file_spec [of "snd s" seg] assms show ?thesis
    by (auto simp: stream_step_def conn_inv_def dest: queue_frameD)
qed

definition file_range :: "int \<Rightarrow> int \<Rightarrow> int \<Rightarrow> out_unit list" where
  "file_range fd off count = map (\<lambda>i. FileByte fd (off + int i)) [0..<nat count]"

lemma SendFile_step:
  assumes inv: "conn_inv (snd s)" and r: "SendFile (Inr fd) off count rs s = Some ((err, s'), rs')"
  shows "stream_step (file_range fd off count) s s' \<or> err \<noteq> None \<and> stream_step [] s s'"
proof -
  let ?seg = "\<lparr>fs_fd = fd, fs_offset = off, fs_remaining = count, fs_copyBuf = False\<rparr>"
  let ?s1 = "(fst s, queue_file ?seg (snd s))"
  show ?thesis
  proof (cases "checkSendFileRange off count \<noteq> None \<or> udp (snd s) \<or> count = 0 \<or> sendClosed (snd s)")
    case True
    with r inv show ?thesis
      by (auto simp: SendFile_def newFileSegment_def stream_step_refl file_range_def
          split: if_splits option.splits)
  next
    case False
    then have "0 < count" by (auto simp: checkSendFileRange_def split: if_splits)
    then have q: "stream_step (file_range fd off count) s ?s1"
      using queue_file_step [OF inv, of ?seg] by (simp add: file_units_def file_range_def)
    then have inv1: "conn_inv (snd ?s1)" by (simp add: stream_step_def)
    have fl: "stream_step (file_range fd off count) s t" if "flushOutput rs ?s1 = Some ((x, t), ts)" for x t ts
      using stream_step_trans [OF q flushOutput_step [OF inv1 that]] by simp
    have cl: "stream_step xs s (closeWithError e t)" if "stream_step xs s t" for xs e t
      using stream_step_trans [OF that closeWithError_step [of t]] that by (simp add: stream_step_def [of xs])
    from r False consider "s' = ?s1"
      | x ts where "flushOutput rs ?s1 = Some ((x, s'), ts)"
      | x ts e t where "flushOutput rs ?s1 = Some ((x, t), ts)" "s' = closeWithError e t"
      by (auto simp: SendFile_def newFileSegment_def Let_def split: option.splits if_splits)
    then show ?thesis by cases (use q fl cl in blast)+
  qed
qed

section \<open>Progress\<close>

text \<open>Answers without an error that take at least \<open>m\<close> units each.\<close>

definition taking :: "nat \<Rightarrow> sysret list \<Rightarrow> bool" where
  "taking m rs \<longleftrightarrow> (\<forall>r \<in> set rs. ret_err r = None \<and> m \<le> ret_n r)"

lemma taking_drop: "taking m rs \<Longrightarrow> taking m (drop k rs)"
  by (auto simp: taking_def dest: in_set_dropD)

lemma taking_mono: "taking m rs \<Longrightarrow> k \<le> m \<Longrightarrow> taking k rs"
  unfolding taking_def by (meson order_trans)

lemma two_answers:
  assumes "taking m rs" "2 \<le> length rs"
  obtains a b ts where "rs = a # b # ts" "ret_err a = None" "ret_err b = None" "m \<le> ret_n a" "m \<le> ret_n b"
  using assms by (cases rs; cases "tl rs") (auto simp: taking_def)

text \<open>A call that gets such answers sends something, at most two answers are used, and if each
  answer takes the whole queue, everything attempted is sent.\<close>

definition good_result :: "nat \<Rightarrow> sysret list \<Rightarrow> (sent_result \<times> sysret list) option \<Rightarrow> bool" where
  "good_result m rs x = (\<exists>r k. x = Some (r, drop k rs) \<and> k \<in> {1, 2} \<and> sr_err r = None \<and>
      0 < sr_n r \<and> (sr_attempted r \<le> m \<longrightarrow> sr_n r = sr_attempted r))"

lemma mem_result_good:
  assumes "taking m rs" "2 \<le> length rs" "0 < m" "b \<noteq> []"
  shows "good_result m rs (mem_result b rs)"
  using two_answers [OF assms(1,2)]
proof -
  obtain a c ts where "rs = a # c # ts" "ret_err a = None" "m \<le> ret_n a"
    using two_answers [OF assms(1,2)] by metis
  with assms(3,4) show ?thesis
    unfolding good_result_def by (intro exI exI [of _ 1]) (auto simp: mem_result_def sysWrite_def)
qed

lemma copy_file_good:
  assumes "taking m rs" "2 \<le> length rs" "0 < m" "0 < fs_remaining f"
  shows "good_result m rs (copy_file f rs)"
proof -
  obtain a c ts where "rs = a # c # ts" "ret_err a = None" "m \<le> ret_n a" "ret_err c = None" "m \<le> ret_n c"
    using two_answers [OF assms(1,2)] by metis
  moreover have "0 < nat (min (fs_remaining f) sendFileChunk)"
    using assms(4) by (simp add: sendFileChunk_def)
  ultimately show ?thesis using assms(3)
    unfolding good_result_def
    by (intro exI exI [of _ 2]) (auto simp: copy_file_def sysWrite_def file_result_def Let_def)
qed

lemma splice_file_good:
  assumes "taking m rs" "2 \<le> length rs" "0 < m" "0 < fs_remaining f"
  shows "good_result m rs (splice_file f rs)"
proof -
  obtain a c ts where a: "rs = a # c # ts" "ret_err a = None" "m \<le> ret_n a"
    using two_answers [OF assms(1,2)] by metis
  define att where "att = nat (min (fs_remaining f) maxSendFileCall)"
  have "0 < att" using assms(4) by (simp add: att_def maxSendFileCall_def)
  then have "splice_file f (a # c # ts) = Some (file_result f False (min (ret_n a) att) att None, c # ts)"
    unfolding splice_file.simps Let_def att_def [symmetric] using a assms(3) by simp
  with \<open>0 < att\<close> a assms(3) show ?thesis
    unfolding good_result_def
    by (intro exI [of _ "file_result f False (min (ret_n a) att) att None"] exI [of _ 1])
       (auto simp: file_result_def)
qed

lemma write_head_good:
  assumes t: "taking m rs" "2 \<le> length rs" "0 < m"
    and ok: "queue_ok (snd s)" and head: "sendHead (snd s) < length (sends (snd s))"
  shows "good_result m rs (write_head s rs)"
proof -
  let ?c = "snd s" and ?it = "sends (snd s) ! sendHead (snd s)"
  have it: "item_ok ?it" using queue_at_head(2) [OF head ok] .
  show ?thesis
  proof (cases "it_file ?it")
    case (Some f)
    then show ?thesis
      using it copy_file_good [OF t, of f] splice_file_good [OF t, of f]
      by (cases s) (auto simp: write_head_def sysSendFileLocked_def item_ok_def)
  next
    case None
    then have ne: "drop (it_offset ?it) (data_bytes ?it) \<noteq> []" using it by (simp add: item_ok_def)
    have "take maxWritevItems (drop (sendHead ?c) (sends ?c)) =
          ?it # take 63 (drop (Suc (sendHead ?c)) (sends ?c))"
      using head by (simp add: maxWritevItems_def flip: Cons_nth_drop_Suc)
    then have "concat (writev_buffers (take maxWritevItems (drop (sendHead ?c) (sends ?c)))) \<noteq> []"
      using None ne by simp
    then have "good_result m rs (sysWritev
        (writev_buffers (take maxWritevItems (drop (sendHead ?c) (sends ?c)))) rs)"
      using mem_result_good [OF t] by (simp only: sysWritev_def if_False)
    with None ne mem_result_good [OF t] show ?thesis
      by (cases s) (simp add: write_head_def Let_def)
  qed
qed

lemma queued_empty_iff:
  assumes "queue_ok c" shows "queued c = [] \<longleftrightarrow> sendHead c = length (sends c)"
proof
  assume e: "queued c = []"
  show "sendHead c = length (sends c)"
  proof (rule ccontr)
    assume "sendHead c \<noteq> length (sends c)"
    with assms have h: "sendHead c < length (sends c)" by (simp add: queue_ok_def)
    with e have "item_units (sends c ! sendHead c) = []" using queue_at_head(1) by simp
    with queue_at_head(2) [OF h assms] show False
      by (auto simp: item_ok_def item_units_def file_units_def split: option.splits)
  qed
qed (simp add: queued_def)

text \<open>One turn on a queue that is not empty, with such answers: it goes on with fewer units.\<close>

lemma flush_iter_good:
  assumes t: "taking m rs" "2 \<le> length rs" "0 < m"
    and inv: "conn_inv (snd s)" and ne: "queued (snd s) \<noteq> []"
  obtains res s' k where "flush_iter rs s = Some (res, s', drop k rs)" "k \<in> {1, 2}"
    "length (queued (snd s')) < length (queued (snd s))"
    "res = FlushContinue \<or> res = FlushReturn None \<and> \<not> flushing (snd s')"
    "length (queued (snd s)) \<le> m \<Longrightarrow> res = FlushContinue"
    "closing (snd s') = closing (snd s)"
proof -
  have ok: "queue_ok (snd s)" using inv by (simp add: conn_inv_def)
  with ne have head: "sendHead (snd s) < length (sends (snd s))"
    using queued_empty_iff by (auto simp: queue_ok_def)
  from write_head_good [OF t ok head] obtain r k where w: "write_head s rs = Some (r, drop k rs)"
    and k: "k \<in> {1, 2}" and n: "0 < sr_n r" "sr_attempted r \<le> m \<longrightarrow> sr_n r = sr_attempted r"
    by (auto simp: good_result_def)
  note rok = write_head_ok [OF ok head w]
  define s0 where "s0 = (fst s, note_copyBuf (sr_copyBuf r) (snd s))"
  have inv0: "conn_inv (snd s0)" and q0: "queued (snd s0) = queued (snd s)"
    and c0: "closing (snd s0) = closing (snd s)"
    using note_copyBuf_step [OF inv head] note_copyBuf_spec [OF ok head, of "sr_copyBuf r"]
    by (auto simp: s0_def stream_step_def)
  note ts = take_sent_step [OF inv0 rok [folded q0]]
  let ?t = "take_sent r s0"
  let ?res = "if sr_n r < sr_attempted r then FlushReturn None else FlushContinue"
  let ?s' = "if sr_n r < sr_attempted r then stop_flush ?t else ?t"
  have q: "queued (snd ?s') = drop (sr_n r) (queued (snd s))"
    using ts(2) q0 by (auto simp: stop_flush_def Let_def queued_def)
  show thesis
  proof (rule that [of ?res ?s' k])
    show "flush_iter rs s = Some (?res, ?s', drop k rs)"
      using head w n(1) by (simp add: flush_iter_def s0_def Let_def)
    show "length (queued (snd ?s')) < length (queued (snd s))" unfolding q using ne n(1) by simp
    show "length (queued (snd s)) \<le> m \<Longrightarrow> ?res = FlushContinue"
      using n(2) rok unfolding result_ok_def by (metis dual_order.trans less_irrefl)
    show "closing (snd ?s') = closing (snd s)" using ts(3) c0 by (simp add: stop_flush_def Let_def)
  qed (use k in \<open>auto simp: stop_flush_def Let_def\<close>)
qed

lemma flush_iter_empty:
  "queue_ok (snd s) \<Longrightarrow> queued (snd s) = [] \<Longrightarrow> flush_iter rs s = Some (FlushReturn None, flush_empty s, rs)"
  by (simp add: flush_iter_def queued_empty_iff)

lemma flush_empty_queue: "queued (snd (flush_empty s)) = []" "\<not> flushing (snd (flush_empty s))"
  by (simp_all add: flush_empty_def rewindQueueLocked_def queued_def Let_def split: prod.splits)

lemma flush_loop_returns:
  assumes "conn_inv (snd s)" "taking m rs" "0 < m" "2 * length (queued (snd s)) \<le> length rs"
  shows "\<exists>s' rs'. flush_loop rs s = Some ((None, s'), rs') \<and> \<not> flushing (snd s') \<and>
    (length (queued (snd s)) \<le> m \<longrightarrow> queued (snd s') = [])"
  using assms
proof (induction "length (queued (snd s))" arbitrary: s rs rule: less_induct)
  case less
  note inv = less.prems(1)
  show ?case
  proof (cases "queued (snd s) = []")
    case True
    with inv have "flush_loop rs s = Some ((None, flush_empty s), rs)"
      by (simp add: flush_loop.simps [of rs s] conn_inv_def flush_iter_empty)
    with flush_empty_queue [of s] show ?thesis by blast
  next
    case False
    then have two: "2 \<le> length rs" using less.prems(4) by (cases "queued (snd s)") auto
    from flush_iter_good [OF less.prems(2) two less.prems(3) inv False]
    obtain res t k where it: "flush_iter rs s = Some (res, t, drop k rs)" "k \<in> {1, 2}"
      and lt: "length (queued (snd t)) < length (queued (snd s))"
      and res: "res = FlushContinue \<or> res = FlushReturn None \<and> \<not> flushing (snd t)"
      and m: "length (queued (snd s)) \<le> m \<Longrightarrow> res = FlushContinue" by blast
    have inv': "conn_inv (snd t)" using flush_iter_step [OF inv it(1)] by (simp add: stream_step_def)
    have "2 * length (queued (snd t)) \<le> length (drop k rs)" using lt it(2) less.prems(4) by auto
    from less.hyps [OF lt inv' taking_drop [OF less.prems(2)] less.prems(3) this]
    obtain s' rs' where s': "flush_loop (drop k rs) t = Some ((None, s'), rs')" "\<not> flushing (snd s')"
      "length (queued (snd t)) \<le> m \<longrightarrow> queued (snd s') = []" by blast
    show ?thesis
    proof (cases "res = FlushContinue")
      case True
      with it(1) s' lt show ?thesis by (simp add: flush_loop.simps [of rs s])
    next
      case False
      with res m it(1) have "flush_loop rs s = Some ((None, t), drop k rs)" "\<not> flushing (snd t)"
        "\<not> length (queued (snd s)) \<le> m" by (auto simp: flush_loop.simps [of rs s])
      then show ?thesis by blast
    qed
  qed
qed

section \<open>Interleavings\<close>

text \<open>
  The critical sections that touch the output of one connection, run by any goroutine in any order:
  sends and the critical sections of flushes alternate freely, and a close may come at any point.
  \<open>conn_step xs s s'\<close> says that the section accepted the output \<open>xs\<close>.
\<close>

inductive conn_step :: "out_unit list \<Rightarrow> st \<Rightarrow> st \<Rightarrow> bool" where
  step_send: "send g cp d rs s = Some ((err, s'), rs') \<Longrightarrow>
     conn_step (if err = None then map Mem d else []) s s'"
| step_parts: "SendParts g d1 d2 rs s = Some ((err, s'), rs') \<Longrightarrow>
     conn_step (if err = None then map Mem (d1 @ d2) else []) s s'"
| step_file: "0 < count \<Longrightarrow> \<not> sendClosed (snd s) \<Longrightarrow> newFileSegment (Inr fd) off count = Inr seg \<Longrightarrow>
     conn_step (file_range fd off count) s (fst s, queue_file seg (snd s))"
| step_flush_enter: "flush_enter s = (r, s') \<Longrightarrow> conn_step [] s s'"
| step_flush: "flushing (snd s) \<Longrightarrow> flush_iter rs s = Some (res, s', rs') \<Longrightarrow> conn_step [] s s'"
| step_cork: "conn_step [] s (fst s, (snd s)\<lparr>corked := b\<rparr>)"
| step_close: "conn_step [] s (closeWithError err s)"
| step_close_after: "conn_step [] s (closeAfterSendRaw s)"

text \<open>A history: what the sections accepted, in the order they ran.\<close>

inductive conn_run :: "out_unit list \<Rightarrow> st \<Rightarrow> st \<Rightarrow> bool" where
  run_nil: "conn_run [] s s"
| run_step: "conn_run xs s t \<Longrightarrow> conn_step ys t u \<Longrightarrow> conn_run (xs @ ys) s u"

lemma closeAfterSendRaw_step: "conn_inv (snd s) \<Longrightarrow> stream_step [] s (closeAfterSendRaw s)"
  by (rule stream_step_frame; cases s) (simp_all add: closeAfterSendRaw_def Let_def)

lemma flush_enter_step:
  assumes "conn_inv (snd s)" "flush_enter s = (r, s')" shows "stream_step [] s s'"
  by (rule stream_step_frame [OF assms(1)]; use assms(2) in \<open>cases s\<close>)
     (auto simp: flush_enter_def split: if_splits)

lemma conn_step_stream: "conn_step xs s s' \<Longrightarrow> conn_inv (snd s) \<Longrightarrow> stream_step xs s s'"
proof (induction rule: conn_step.induct)
  case (step_file count s fd off seg)
  then show ?case using queue_file_step [of s seg]
    by (auto simp: newFileSegment_def file_units_def file_range_def)
next
  case (step_cork s b)
  then show ?case by (intro stream_step_frame) simp_all
qed (simp_all add: send_step SendParts_step flush_enter_step flush_iter_step closeWithError_step
    closeAfterSendRaw_step)

lemma conn_run_stream: "conn_run xs s s' \<Longrightarrow> conn_inv (snd s) \<Longrightarrow> stream_step xs s s'"
proof (induction rule: conn_run.induct)
  case (run_step xs s t ys u)
  then have "stream_step xs s t" by simp
  moreover from this have "stream_step ys t u" using conn_step_stream [OF run_step(2)]
    by (simp add: stream_step_def)
  ultimately show ?case by (rule stream_step_trans)
qed (rule stream_step_refl)

section \<open>Properties\<close>

lemma conn_inv_new [simp]: "conn_inv (newConnection i u)"
  by (simp add: newConnection_def conn_inv_def queue_ok_def queued_def)

lemma new_conn_empty [simp]:
  "wire (newConnection i u) = []" "queued (newConnection i u) = []" "pendingBytes (newConnection i u) = 0"
  by (simp_all add: newConnection_def queued_def)

text \<open>
  C1. Output order: whatever sends, flush turns, corks and closes run on a connection, in any
  interleaving and with any answers of the kernel (short writes, would-block, interrupts, errors),
  what the kernel took so far followed by what is still queued is exactly what the sends accepted,
  in the order they accepted it. Nothing is lost, duplicated or reordered, the queue stays
  well-formed, and \<open>pendingBytes\<close> is the number of bytes held in memory.
\<close>

theorem output_in_order:
  assumes "conn_run xs (e, newConnection i u) s'"
  shows "wire (snd s') @ queued (snd s') = xs \<and> queue_ok (snd s') \<and>
    pendingBytes (snd s') = mem_count (queued (snd s')) \<and>
    pendingTotal (fst s') - pendingBytes (snd s') = pendingTotal e"
proof -
  have "stream_step xs (e, newConnection i u) s'" using conn_run_stream [OF assms] by simp
  then show ?thesis by (simp add: stream_step_def conn_inv_def)
qed

definition demo_engine :: engine where
  "demo_engine = newEngine \<lparr>MaxEvents = 0, ReadBufferSize = 0, UseWritev = True, InlineHandlers = False,
     WriteBufferHighWatermark = 65536, MaxPendingBytes = 0, UDPIdleTimeout = 0\<rparr>"

definition demo_conn :: conn where
  "demo_conn = newConnection 7 False"

lemmas demo_defs = demo_engine_def demo_conn_def newEngine_def newConnection_def go_quot_def

text \<open>A short direct write leaves two bytes queued; one flush turn then sends one of them.\<close>

lemma demo_run:
  "\<exists>s'. conn_run (map Mem [1, 2, 3]) (demo_engine, newConnection 7 False) s' \<and> wire (snd s') = [Mem 1, Mem 2]"
proof -
  let ?s0 = "(demo_engine, newConnection 7 False)"
  obtain s1 where s1: "send (\<lambda>_ n. n) True [1, 2, 3] [SysRet 1 None] ?s0 = Some ((None, s1), [])"
    and c1: "sends (snd s1) = [\<lparr>it_data = Some [2, 3], it_offset = 0,
        it_buf = Some \<lparr>sb_data = [2, 3], sb_cap = 32768\<rparr>, it_file = None\<rparr>]"
      "sendHead (snd s1) = 0" "\<not> closing (snd s1)" "\<not> closed (snd s1)" "\<not> flushing (snd s1)"
      "wire (snd s1) = [Mem 1]"
    by (simp add: send_def demo_defs sendClosed_def canWriteDirectlyLocked_def Let_def sysWrite_def
        queue_rest_def queueLocked_def queue_new_def rewindQueueLocked_def acquireSendBuffer_def
        append_buf_def after_queue_def addPending_def pauseStateChangedLocked_def pauseDecision_def
        refresh_if_def emit_def)
  define s2 where "s2 = (fst s1, (snd s1)\<lparr>flushing := True\<rparr>)"
  have s2: "flush_enter s1 = (None, s2)" using c1 by (cases s1) (simp add: flush_enter_def s2_def)
  obtain s3 where s3: "flush_iter [SysRet 1 None] s2 = Some (FlushReturn None, s3, [])"
    "wire (snd s3) = [Mem 1, Mem 2]"
    using c1 by (cases s1)
      (simp add: s2_def flush_iter_def write_head_def mem_result_def sysWrite_def Let_def data_bytes_def
        note_copyBuf_def take_sent_def emit_def subPending_def consumeLocked_def stop_flush_def
        consume_loop.simps set_head_def)
  have "conn_run ([] @ map Mem [1, 2, 3]) ?s0 s1"
    using run_step [OF run_nil step_send [OF s1]] by simp
  from run_step [OF this step_flush_enter [OF s2]] have "conn_run (map Mem [1, 2, 3]) ?s0 s2" by simp
  from run_step [OF this step_flush [OF _ s3(1)]] have "conn_run (map Mem [1, 2, 3]) ?s0 s3"
    by (simp add: s2_def)
  with s3(2) show ?thesis by blast
qed

theorem output_in_order_witness:
  "\<exists>s'. conn_run (map Mem [1, 2, 3]) (demo_engine, newConnection 7 False) s' \<and>
     wire (snd s') = [Mem 1, Mem 2] \<and> queued (snd s') = [Mem 3] \<and> pendingBytes (snd s') = 1"
proof -
  obtain s' where run: "conn_run (map Mem [1, 2, 3]) (demo_engine, newConnection 7 False) s'"
    and w: "wire (snd s') = [Mem 1, Mem 2]" using demo_run by blast
  from output_in_order [OF run] w have q: "queued (snd s') = [Mem 3]"
    and p: "pendingBytes (snd s') = mem_count (queued (snd s'))" by auto
  have "mem_count (map Mem [3]) = 1" by (simp only: mem_count_map_Mem) simp
  with run w q p show ?thesis by (intro exI [of _ s']) simp
qed



end
