(* ===== verification/Conn_Rounds.thy ===== *)
theory Conn_Rounds
  imports Send_Queue
begin

text \<open>
  The rounds of a connection: how the event loop folds readiness into it (\<open>noteEvent\<close>,
  \<open>src/go/engine.go\<close>), how a worker runs it (\<open>process\<close>, \<open>drainInput\<close>, \<open>readLoop\<close>,
  \<open>drainPriorityInput\<close>, \<open>src/go/connection.go\<close>) and the receive queue of a UDP connection
  (\<open>deliverDatagram\<close>, \<open>drainDatagrams\<close>, \<open>src/go/udp.go\<close>).

  What is shown: at most one worker runs a connection at a time and none is lost, every event the
  loop noted is either acted on by a round or left in \<open>pendingEvents\<close> as a deferred read, a worker
  always returns, and datagrams reach the handler once each, in order.
\<close>

section \<open>Noting readiness\<close>

definition noteEvent :: "u32 \<Rightarrow> conn \<Rightarrow> bool \<times> conn" where
  "noteEvent events c =
     (if closing c \<or> closed c then (False, c)
      else
        (let ev = events AND evAll in
         if ev = 0 then (False, c)
         else if ev = evOut \<and> sendHead c = length (sends c) \<and> pendingEvents c = 0 then (False, c)
         else (\<not> scheduled c, c\<lparr>pendingEvents := pendingEvents c OR ev, scheduled := True\<rparr>)))"

text \<open>The head of the loop of \<open>process\<close>: \<open>None\<close> when the worker returns.\<close>

definition round_begin :: "u32 \<Rightarrow> conn \<Rightarrow> (u32 \<times> bool) option \<times> conn" where
  "round_begin deferred c =
     (let p = pendingEvents c OR deferred in
      if p = deferred then (None, c\<lparr>pendingEvents := p, scheduled := False\<rparr>)
      else (Some (p, closed c \<or> closing c), c\<lparr>pendingEvents := 0\<rparr>))"

section \<open>Datagrams\<close>

definition maxQueuedDatagrams :: nat where "maxQueuedDatagrams = 1024"

definition deliverDatagram :: "bytes \<Rightarrow> conn \<Rightarrow> bool \<times> conn" where
  "deliverDatagram d c =
     (if closing c \<or> closed c \<or> length (udp_queue c) - udp_head c \<ge> maxQueuedDatagrams then (False, c)
      else
        (let c1 = (if udp_head c = length (udp_queue c) then c\<lparr>udp_queue := [], udp_head := 0\<rparr> else c);
             c2 = c1\<lparr>udp_queue := udp_queue c1 @ [d]\<rparr>
         in noteEvent evIn c2))"

text \<open>One turn of \<open>drainDatagrams\<close>: the datagram it hands to the handler, if any.\<close>

definition take_datagram :: "conn \<Rightarrow> (bytes \<times> conn) option" where
  "take_datagram c =
     (if udp_head c = length (udp_queue c) \<or> closing c \<or> closed c then None
      else Some (udp_queue c ! udp_head c,
                 c\<lparr>udp_queue := (udp_queue c)[udp_head c := []], udp_head := udp_head c + 1\<rparr>))"

section \<open>Reading\<close>

text \<open>
  The handler is the application's: it sees the data, and may send, close or anything else a
  connection offers. A worker's state is the connection, its engine and the answers the socket
  will give to writes; answers to reads are a separate script, and \<open>None\<close> means it ran out.
\<close>

type_synonym wst = "st \<times> sysret list"

record handler =
  OnData :: "bytes \<Rightarrow> wst \<Rightarrow> wst"
  OnPriorityData :: "bytes \<Rightarrow> wst \<Rightarrow> wst"

datatype readret = ReadData bytes | ReadErr errno

definition on_conn :: "(conn \<Rightarrow> conn) \<Rightarrow> wst \<Rightarrow> wst" where
  "on_conn f w = ((fst (fst w), f (snd (fst w))), snd w)"

definition stall_read :: "st \<Rightarrow> st" where
  "stall_read s = refresh_if True (fst s, (snd s)\<lparr>readStalled := True\<rparr>)"

fun readLoop ::
  "handler \<Rightarrow> nat \<Rightarrow> readret list \<Rightarrow> wst \<Rightarrow> ((goerr option \<times> wst) \<times> readret list) option"
where
  "readLoop h bufsz [] w = None"
| "readLoop h bufsz (r # rs) w =
     (case r of
        ReadErr e \<Rightarrow>
          (if e = EINTR then readLoop h bufsz rs w
           else if isWouldBlock e then Some ((None, w), rs)
           else Some ((Some (Sys e), w), rs))
      | ReadData buf \<Rightarrow>
          (let d = take bufsz buf in
           if d = [] then Some ((Some EOF, w), rs)
           else
             (let w1 = OnData h d w in
              if overWriteWatermark (fst w1) then
                (case uncork (snd w1) (fst w1) of
                   None \<Rightarrow> None
                 | Some ((Some e, s2), ws) \<Rightarrow> Some ((Some e, (s2, ws)), rs)
                 | Some ((None, s2), ws) \<Rightarrow>
                     (if overWriteWatermark s2 then Some ((None, (stall_read s2, ws)), rs)
                      else
                        (let w2 = on_conn (\<lambda>c. c\<lparr>corked := True\<rparr>) (s2, ws) in
                         if length d < bufsz then Some ((None, w2), rs) else readLoop h bufsz rs w2)))
              else if length d < bufsz then Some ((None, w1), rs)
              else readLoop h bufsz rs w1)))"

definition drainInput ::
  "handler \<Rightarrow> nat \<Rightarrow> readret list \<Rightarrow> wst \<Rightarrow> ((goerr option \<times> wst) \<times> readret list) option"
where
  "drainInput h bufsz rs w =
     (case readLoop h bufsz rs (on_conn (\<lambda>c. c\<lparr>corked := True, readStalled := False\<rparr>) w) of
        None \<Rightarrow> None
      | Some ((err, w1), rs1) \<Rightarrow>
          (case uncork (snd w1) (fst w1) of
             None \<Rightarrow> None
           | Some ((flushErr, s2), ws) \<Rightarrow>
               Some ((if err = None then flushErr else err, (s2, ws)), rs1)))"

fun drainPriorityInput ::
  "handler \<Rightarrow> readret list \<Rightarrow> wst \<Rightarrow> ((goerr option \<times> wst) \<times> readret list) option"
where
  "drainPriorityInput h [] w = None"
| "drainPriorityInput h (r # rs) w =
     (case r of
        ReadErr e \<Rightarrow>
          (if e = EINTR then drainPriorityInput h rs w
           else if isWouldBlock e \<or> e = EINVAL \<or> e = EOPNOTSUPP then Some ((None, w), rs)
           else Some ((Some (Sys e), w), rs))
      | ReadData buf \<Rightarrow>
          (let d = take 1 buf in
           if d = [] then Some ((Some EOF, w), rs)
           else drainPriorityInput h rs (OnPriorityData h d w)))"

text \<open>\<open>getsockopt\<close> answers with an error of its own, or with the socket's pending error.\<close>

definition socketError :: "errno + errno option \<Rightarrow> goerr" where
  "socketError r =
     (case r of Inl e \<Rightarrow> Sys e | Inr (Some e) \<Rightarrow> Sys e | Inr None \<Rightarrow> Sys ECONNRESET)"

section \<open>A round of process\<close>

text \<open>
  The answers a round may need: in-band reads, urgent reads and the socket's error. The steps of a
  round keep \<open>alive\<close> and \<open>closeErr\<close> as one value: \<open>None\<close> while the connection is alive,
  \<open>Some err\<close> once the round decided to close it.
\<close>

record feed =
  fd_reads :: "readret list"
  fd_oob :: "readret list"
  fd_sock :: "errno + errno option"

type_synonym verdict = "goerr option option"

definition verdict_of :: "goerr option \<Rightarrow> verdict" where
  "verdict_of err = (case err of None \<Rightarrow> None | Some e \<Rightarrow> Some (Some e))"

definition flush_stage :: "u32 \<Rightarrow> wst \<Rightarrow> (verdict \<times> wst) option" where
  "flush_stage events w =
     (if events AND evOut \<noteq> 0 \<and> hasQueuedOutput (snd (fst w)) then
        (case flushOutput (snd w) (fst w) of
           None \<Rightarrow> None
         | Some ((err, s), ws) \<Rightarrow> Some (verdict_of err, (s, ws)))
      else Some (None, w))"

definition priority_stage :: "handler \<Rightarrow> u32 \<Rightarrow> feed \<Rightarrow> wst \<Rightarrow> (verdict \<times> wst) option" where
  "priority_stage h events f w =
     (if events AND evPri \<noteq> 0 then
        (case drainPriorityInput h (fd_oob f) w of
           None \<Rightarrow> None
         | Some ((err, w'), _) \<Rightarrow> Some (verdict_of err, w'))
      else Some (None, w))"

definition input_stage :: "handler \<Rightarrow> nat \<Rightarrow> u32 \<Rightarrow> feed \<Rightarrow> wst \<Rightarrow> (u32 \<times> verdict \<times> wst) option" where
  "input_stage h bufsz events f w =
     (if events AND evIn \<noteq> 0 then
        (if hasQueuedOutput (snd (fst w)) then Some (evIn OR (events AND evRdHup), None, w)
         else (case drainInput h bufsz (fd_reads f) w of
                 None \<Rightarrow> None
               | Some ((err, w'), _) \<Rightarrow> Some (0, verdict_of err, w')))
      else Some (0, None, w))"

definition hangup_verdict :: "u32 \<Rightarrow> u32 \<Rightarrow> feed \<Rightarrow> verdict" where
  "hangup_verdict events deferred f =
     (if events AND evErr \<noteq> 0 then Some (Some (socketError (fd_sock f)))
      else if events AND (evHup OR evRdHup) AND NOT deferred \<noteq> 0 then Some (Some EOF)
      else None)"

definition close_on :: "verdict \<Rightarrow> wst \<Rightarrow> wst" where
  "close_on v w = (case v of None \<Rightarrow> w | Some err \<Rightarrow> (closeWithError err (fst w), snd w))"

text \<open>
  The outcome of a loop: finished, stopped because an answer of the socket is missing from its
  script, or out of fuel.
\<close>

datatype 'a outcome = Done 'a | NoAnswer | NoFuel

text \<open>\<open>drainDatagrams\<close>, with the datagrams it handed to the handler.\<close>

fun drainDatagrams :: "nat \<Rightarrow> handler \<Rightarrow> wst \<Rightarrow> (bytes list \<times> wst) outcome" where
  "drainDatagrams 0 h w = NoFuel"
| "drainDatagrams (Suc n) h w =
     (case take_datagram (snd (fst w)) of
        None \<Rightarrow> Done ([], w)
      | Some (d, c) \<Rightarrow>
          (case drainDatagrams n h (OnData h d ((fst (fst w), c), snd w)) of
             Done (ds, w') \<Rightarrow> Done (d # ds, w')
           | NoAnswer \<Rightarrow> NoAnswer
           | NoFuel \<Rightarrow> NoFuel))"

text \<open>
  A round of a stream connection, after its head: the stages run while the connection is alive,
  each for its own readiness. The result is what is deferred to the next round.
\<close>

definition stream_round :: "handler \<Rightarrow> nat \<Rightarrow> u32 \<Rightarrow> bool \<Rightarrow> feed \<Rightarrow> wst \<Rightarrow> (u32 \<times> wst) option" where
  "stream_round h bufsz events isClosed f w =
     (if isClosed then Some (0, close_on (Some None) w)
      else
        (case flush_stage events w of
           None \<Rightarrow> None
         | Some (Some err, w1) \<Rightarrow> Some (0, close_on (Some err) w1)
         | Some (None, w1) \<Rightarrow>
             (case priority_stage h events f w1 of
                None \<Rightarrow> None
              | Some (Some err, w2) \<Rightarrow> Some (0, close_on (Some err) w2)
              | Some (None, w2) \<Rightarrow>
                  (case input_stage h bufsz events f w2 of
                     None \<Rightarrow> None
                   | Some (deferred, Some err, w3) \<Rightarrow> Some (deferred, close_on (Some err) w3)
                   | Some (deferred, None, w3) \<Rightarrow>
                       Some (deferred, close_on (hangup_verdict events deferred f) w3)))))"

definition process_round :: "nat \<Rightarrow> handler \<Rightarrow> nat \<Rightarrow> u32 \<Rightarrow> bool \<Rightarrow> feed \<Rightarrow> wst \<Rightarrow> (u32 \<times> wst) outcome" where
  "process_round n h bufsz events isClosed f w =
     (if udp (snd (fst w)) then
        (if \<not> isClosed \<and> events AND evIn \<noteq> 0 then
           (case drainDatagrams n h w of
              Done (_, w') \<Rightarrow> Done (0, w') | NoAnswer \<Rightarrow> NoAnswer | NoFuel \<Rightarrow> NoFuel)
         else Done (0, w))
      else (case stream_round h bufsz events isClosed f w of None \<Rightarrow> NoAnswer | Some r \<Rightarrow> Done r))"

text \<open>
  \<open>process\<close>. The arrivals are what the event loop notes while the worker runs: one entry before
  each head of the loop, \<open>0\<close> for none, and none once the list ends. The result also lists, per
  round, the events it took and those it deferred. \<open>n\<close> bounds the rounds and \<open>m\<close> the datagrams
  of one round.
\<close>

fun process ::
  "nat \<Rightarrow> nat \<Rightarrow> handler \<Rightarrow> nat \<Rightarrow> u32 list \<Rightarrow> (nat \<Rightarrow> feed) \<Rightarrow> u32 \<Rightarrow> wst \<Rightarrow> ((u32 \<times> u32) list \<times> wst) outcome"
where
  "process 0 m h bufsz arrivals f deferred w = NoFuel"
| "process (Suc n) m h bufsz arrivals f deferred w =
     (let w0 = on_conn (\<lambda>c. snd (noteEvent (case arrivals of [] \<Rightarrow> 0 | a # _ \<Rightarrow> a) c)) w in
      case round_begin deferred (snd (fst w0)) of
        (None, c) \<Rightarrow> Done ([], on_conn (\<lambda>_. c) w0)
      | (Some (events, isClosed), c) \<Rightarrow>
          (case process_round m h bufsz events isClosed (f n) (on_conn (\<lambda>_. c) w0) of
             NoAnswer \<Rightarrow> NoAnswer
           | NoFuel \<Rightarrow> NoFuel
           | Done (d, w1) \<Rightarrow>
               (case process n m h bufsz (tl arrivals) f d w1 of
                  NoAnswer \<Rightarrow> NoAnswer
                | NoFuel \<Rightarrow> NoFuel
                | Done (rounds, w2) \<Rightarrow> Done ((events, d) # rounds, w2))))"

text \<open>A panic of the handler: the deferred function gives up the connection and closes it.\<close>

definition process_panic :: "st \<Rightarrow> st" where
  "process_panic s = closeWithError (Some HandlerPanic) (fst s, (snd s)\<lparr>scheduled := False\<rparr>)"

section \<open>Output leaves the schedule alone\<close>

definition sched_same :: "st \<Rightarrow> st \<Rightarrow> bool" where
  "sched_same s s' \<longleftrightarrow>
     scheduled (snd s') = scheduled (snd s) \<and> pendingEvents (snd s') = pendingEvents (snd s) \<and>
     readPaused (snd s') = readPaused (snd s) \<and> budgetPaused (snd s') = budgetPaused (snd s) \<and>
     dialing (snd s') = dialing (snd s) \<and> (closing (snd s) \<longrightarrow> closing (snd s')) \<and>
     eng_core (fst s') = eng_core (fst s)"

lemma sched_same_refl [simp]: "sched_same s s"
  by (simp add: sched_same_def)

lemma sched_same_trans: "sched_same s t \<Longrightarrow> sched_same t u \<Longrightarrow> sched_same s u"
  by (simp add: sched_same_def)

lemma sched_same_frame: "queue_frame s t \<Longrightarrow> sched_same s t"
  by (auto simp: queue_frame_def sched_same_def)

lemma sched_same_basic [simp]:
  "sched_same s (closeWithError err s)"
  "sched_same s (refresh_if b s)"
  "sched_same s (addPending n s)"
  "sched_same s (subPending n s)"
  "sched_same s (emit xs s)"
  "sched_same s (stop_flush s)"
  "sched_same s (closeAfterSendRaw s)"
  "sched_same s (flush_empty s)"
  "sched_same s (fst s, (snd s)\<lparr>corked := b\<rparr>)"
  "sched_same s (fst s, (snd s)\<lparr>flushing := b\<rparr>)"
  by (simp_all add: sched_same_def emit_def stop_flush_def closeAfterSendRaw_def flush_empty_def
      rewindQueueLocked_def Let_def split: prod.splits)

lemma sched_same_after [simp]: "sched_same s (snd (after_queue s))"
  by (simp add: sched_same_def after_queue_def)

lemma queueLocked_frame: "queue_frame s (queueLocked g x y s)"
proof (cases "queueLocked g x y s = queue_new g x y s")
  case True
  obtain b e' where acq: "acquireSendBuffer (fst s) = (b, e')" by (cases "acquireSendBuffer (fst s)")
  then obtain it where "queue_new g x y s = (e', push_item it (snd s))"
    by (cases s) (auto simp: queue_new_def push_item_def Let_def)
  moreover have "queue_frame s (e', push_item it (snd s))" for it
  proof -
    have "\<exists>p. e' = (fst s)\<lparr>sendBufferPool := p\<rparr>"
      using acq by (intro exI [of _ "sendBufferPool e'"])
        (auto simp: acquireSendBuffer_def split: list.splits)
    then obtain p where "e' = (fst s)\<lparr>sendBufferPool := p\<rparr>" by blast
    moreover obtain xs h where "push_item it (snd s) = (snd s)\<lparr>sends := xs, sendHead := h\<rparr>"
      using push_item_frame by blast
    ultimately show ?thesis by (simp add: queue_frameI)
  qed
  ultimately show ?thesis using True by simp
next
  case False
  then obtain xs where "queueLocked g x y s = (fst s, (snd s)\<lparr>sends := xs\<rparr>)"
    by (cases s) (auto simp: queueLocked_def Let_def split: option.splits if_splits)
  then show ?thesis
    by (intro queue_frameI [where p = "sendBufferPool (fst s)" and h = "sendHead (snd s)"]) simp
qed

lemmas sched_same_queue = sched_same_frame [OF queueLocked_frame]

lemma sched_same_rest: "sched_same s (snd (queue_rest g cp d s))" "sched_same s (snd (parts_rest g d1 d2 n s))"
proof -
  let ?t = "if cp then queueLocked g d [] s else (fst s, queueOwnedLocked d (snd s))"
  have "sched_same s ?t" using sched_same_queue
    by (auto simp: queueOwned_push intro: sched_same_frame)
  then show "sched_same s (snd (queue_rest g cp d s))"
    unfolding queue_rest_def Let_def by (meson sched_same_trans sched_same_after sched_same_basic(3))
  show "sched_same s (snd (parts_rest g d1 d2 n s))"
    unfolding parts_rest_def Let_def
    by (rule sched_same_trans [OF _ sched_same_trans [OF sched_same_basic(3) sched_same_after]])
       (simp add: sched_same_queue)
qed

lemma sched_rest_emit:
  "queue_rest g cp d (emit xs s) = (err, s') \<Longrightarrow> sched_same s s'"
  "queue_rest g cp d s = (err, s') \<Longrightarrow> sched_same s s'"
  "parts_rest g d1 d2 n (emit xs s) = (err, s') \<Longrightarrow> sched_same s s'"
  "parts_rest g d1 d2 n s = (err, s') \<Longrightarrow> sched_same s s'"
  using sched_same_trans [OF sched_same_basic(5) [of s xs] sched_same_rest(1) [of _ g cp d]]
    sched_same_trans [OF sched_same_basic(5) [of s xs] sched_same_rest(2) [of _ g d1 d2 n]]
    sched_same_rest(1) [of s g cp d] sched_same_rest(2) [of s g d1 d2 n]
  by auto

lemma send_sched: "send g cp d rs s = Some ((err, s'), rs') \<Longrightarrow> sched_same s s'"
  by (auto simp: send_def Let_def split: if_splits option.splits dest: sched_rest_emit)

lemma parts_sched: "SendParts g d1 d2 rs s = Some ((err, s'), rs') \<Longrightarrow> sched_same s s'"
  by (auto simp: SendParts_def Let_def split: if_splits option.splits dest: sched_rest_emit)

lemma note_copyBuf_sched: "sched_same s (fst s, note_copyBuf b (snd s))"
  by (simp add: sched_same_def note_copyBuf_def set_head_def Let_def)

lemma take_sent_sched: "sched_same s (take_sent r s)"
proof -
  let ?t = "if sr_fromFile r then emit (sr_units r) s else subPending (int (sr_n r)) (emit (sr_units r) s)"
  have "sched_same s ?t" using sched_same_trans [OF sched_same_basic(5,4)] by auto
  moreover have "sched_same ?t (consumeLocked (sr_n r) ?t)"
    by (simp add: consumeLocked_def sched_same_frame consume_loop_frame)
  ultimately show ?thesis unfolding take_sent_def Let_def by (rule sched_same_trans)
qed

lemma flush_iter_sched: "flush_iter rs s = Some (res, s', rs') \<Longrightarrow> sched_same s s'"
proof -
  assume it: "flush_iter rs s = Some (res, s', rs')"
  have z: "sched_same s (fst s, note_copyBuf b (snd s))" for b by (rule note_copyBuf_sched)
  note a = sched_same_trans [OF z take_sent_sched]
  note b = sched_same_trans [OF a sched_same_basic(6)]
  note c = sched_same_trans [OF z sched_same_basic(6)]
  have d: "sched_same s (fst s, (note_copyBuf b (snd s))\<lparr>flushing := False\<rparr>)" for b
    using sched_same_trans [OF z sched_same_basic(10)] by simp
  show ?thesis using it
    by (auto simp: flush_iter_def Let_def a b c d z split: if_splits option.splits goerr.splits)
qed

lemma conn_step_sched: "conn_step xs s s' \<Longrightarrow> sched_same s s'"
proof (induction rule: conn_step.induct)
  case (step_file count s fd off seg)
  then show ?case by (simp add: queue_file_push sched_same_frame)
next
  case (step_flush_enter s r s')
  then show ?case by (cases s) (auto simp: flush_enter_def sched_same_def split: if_splits)
qed (auto intro: send_sched parts_sched flush_iter_sched)

section \<open>One worker per connection\<close>

text \<open>
  The life of a connection between the event loop, the task pool and the workers. \<open>sc_ready\<close> is how
  often it is in the loop's list of runnable connections, \<open>sc_tasks\<close> how often it waits in the pool,
  and \<open>sc_workers\<close> are the workers running \<open>process\<close> on it: at the head of its loop with what is
  deferred, or inside a round with the events it took.
\<close>

datatype worker = AtHead u32 | InRound u32

record sched =
  sc_st :: st
  sc_ready :: nat
  sc_tasks :: nat
  sc_workers :: "worker list"

text \<open>\<open>submitReady\<close> gives up a task the pool did not accept.\<close>

definition reject_task :: "st \<Rightarrow> st" where
  "reject_task s = Close (fst s, (snd s)\<lparr>scheduled := False\<rparr>)"

text \<open>What a round may defer: a read that found output queued, and a half-close with it.\<close>

definition defers :: "u32 \<Rightarrow> conn \<Rightarrow> u32 \<Rightarrow> bool" where
  "defers events c d \<longleftrightarrow>
     d = 0 \<or> events AND evIn \<noteq> 0 \<and> hasQueuedOutput c \<and> d = evIn OR (events AND evRdHup)"

definition drop_nth :: "nat \<Rightarrow> 'a list \<Rightarrow> 'a list" where
  "drop_nth i xs = take i xs @ drop (Suc i) xs"

inductive sched_step :: "sched \<Rightarrow> sched \<Rightarrow> bool" where
  sched_note: "noteEvent ev (snd (sc_st x)) = (submit, c) \<Longrightarrow>
     sched_step x (x\<lparr>sc_st := (fst (sc_st x), c), sc_ready := sc_ready x + (if submit then 1 else 0)\<rparr>)"
| sched_datagram: "deliverDatagram d (snd (sc_st x)) = (submit, c) \<Longrightarrow>
     sched_step x (x\<lparr>sc_st := (fst (sc_st x), c), sc_ready := sc_ready x + (if submit then 1 else 0)\<rparr>)"
| sched_submit: "0 < sc_ready x \<Longrightarrow>
     sched_step x (x\<lparr>sc_ready := sc_ready x - 1, sc_tasks := sc_tasks x + 1\<rparr>)"
| sched_reject: "0 < sc_ready x \<Longrightarrow>
     sched_step x (x\<lparr>sc_st := reject_task (sc_st x), sc_ready := sc_ready x - 1\<rparr>)"
| sched_start: "0 < sc_tasks x \<Longrightarrow>
     sched_step x (x\<lparr>sc_tasks := sc_tasks x - 1, sc_workers := sc_workers x @ [AtHead 0]\<rparr>)"
| sched_head: "i < length (sc_workers x) \<Longrightarrow> sc_workers x ! i = AtHead d \<Longrightarrow>
     round_begin d (snd (sc_st x)) = (Some (ev, isClosed), c) \<Longrightarrow>
     sched_step x (x\<lparr>sc_st := (fst (sc_st x), c), sc_workers := (sc_workers x)[i := InRound ev]\<rparr>)"
| sched_return: "i < length (sc_workers x) \<Longrightarrow> sc_workers x ! i = AtHead d \<Longrightarrow>
     round_begin d (snd (sc_st x)) = (None, c) \<Longrightarrow>
     sched_step x (x\<lparr>sc_st := (fst (sc_st x), c), sc_workers := drop_nth i (sc_workers x)\<rparr>)"
| sched_round: "i < length (sc_workers x) \<Longrightarrow> sc_workers x ! i = InRound ev \<Longrightarrow>
     defers ev (snd (sc_st x)) d \<Longrightarrow>
     sched_step x (x\<lparr>sc_workers := (sc_workers x)[i := AtHead d]\<rparr>)"
| sched_panic: "i < length (sc_workers x) \<Longrightarrow> sc_workers x ! i = InRound ev \<Longrightarrow>
     sched_step x (x\<lparr>sc_st := process_panic (sc_st x), sc_workers := drop_nth i (sc_workers x)\<rparr>)"
| sched_output: "conn_step xs (sc_st x) s \<Longrightarrow> sched_step x (x\<lparr>sc_st := s\<rparr>)"
| sched_take: "InRound ev \<in> set (sc_workers x) \<Longrightarrow> take_datagram (snd (sc_st x)) = Some (d, c) \<Longrightarrow>
     sched_step x (x\<lparr>sc_st := (fst (sc_st x), c)\<rparr>)"

inductive sched_reach :: "sched \<Rightarrow> bool" where
  reach_new: "sched_reach \<lparr>sc_st = (e, newConnection i u), sc_ready = 0, sc_tasks = 0, sc_workers = []\<rparr>"
| reach_step: "sched_reach x \<Longrightarrow> sched_step x y \<Longrightarrow> sched_reach y"

text \<open>The shape of what is deferred, and of what an idle connection may hold.\<close>

definition deferred_ok :: "u32 \<Rightarrow> bool" where
  "deferred_ok d \<longleftrightarrow> d = 0 \<or> d = evIn \<or> d = evIn OR evRdHup"

definition sched_inv :: "sched \<Rightarrow> bool" where
  "sched_inv x \<longleftrightarrow>
     sc_ready x + sc_tasks x + length (sc_workers x) = (if scheduled (snd (sc_st x)) then 1 else 0) \<and>
     (\<forall>d. AtHead d \<in> set (sc_workers x) \<longrightarrow> deferred_ok d) \<and>
     (\<not> scheduled (snd (sc_st x)) \<and> \<not> closing (snd (sc_st x)) \<longrightarrow> deferred_ok (pendingEvents (snd (sc_st x))))"

lemma and_push_bit_one: "x AND push_bit n 1 = (if bit x n then push_bit n 1 else 0)" for x :: "'a::len word"
  by (auto intro!: bit_word_eqI simp: bit_simps)

lemma rdhup_bit: "events AND evRdHup = 0 \<or> events AND evRdHup = evRdHup" for events :: u32
proof -
  have "evRdHup = push_bit 13 1" by (simp add: ev_defs)
  then show ?thesis using and_push_bit_one [of events 13] by (metis (full_types))
qed

lemma defers_ok: "defers ev c d \<Longrightarrow> deferred_ok d"
  using rdhup_bit [of ev] by (auto simp: defers_def deferred_ok_def)

lemma noteEvent_sched:
  "noteEvent ev c = (submit, c') \<Longrightarrow>
   scheduled c' = (scheduled c \<or> submit) \<and> (submit \<longrightarrow> \<not> scheduled c) \<and> closing c' = closing c \<and>
   (\<not> scheduled c' \<longrightarrow> pendingEvents c' = pendingEvents c)"
  by (auto simp: noteEvent_def Let_def split: if_splits)

lemma deliver_sched:
  assumes "deliverDatagram d c = (submit, c')"
  shows "scheduled c' = (scheduled c \<or> submit) \<and> (submit \<longrightarrow> \<not> scheduled c) \<and> closing c' = closing c \<and>
   (\<not> scheduled c' \<longrightarrow> pendingEvents c' = pendingEvents c)"
proof (cases "closing c \<or> closed c \<or> maxQueuedDatagrams \<le> length (udp_queue c) - udp_head c")
  case True
  with assms show ?thesis by (auto simp: deliverDatagram_def)
next
  case False
  with assms have "\<exists>c2. noteEvent evIn c2 = (submit, c') \<and> scheduled c2 = scheduled c \<and>
     closing c2 = closing c \<and> pendingEvents c2 = pendingEvents c"
    by (auto simp: deliverDatagram_def Let_def split: if_splits)
  with noteEvent_sched show ?thesis by metis
qed

lemma length_drop_nth: "i < length xs \<Longrightarrow> length (drop_nth i xs) = length xs - 1"
  by (simp add: drop_nth_def)

lemma set_drop_nth: "set (drop_nth i xs) \<subseteq> set xs"
  by (auto simp: drop_nth_def dest: in_set_takeD in_set_dropD)

lemma single_worker:
  "sched_inv x \<Longrightarrow> i < length (sc_workers x) \<Longrightarrow>
   sc_workers x = [sc_workers x ! i] \<and> sc_ready x = 0 \<and> sc_tasks x = 0 \<and> scheduled (snd (sc_st x)) \<and> i = 0"
  by (cases "sc_workers x") (auto simp: sched_inv_def split: if_splits)

lemma sched_step_inv: "sched_step x y \<Longrightarrow> sched_inv x \<Longrightarrow> sched_inv y"
proof (induction rule: sched_step.induct)
  case (sched_note ev x submit c)
  then show ?case using noteEvent_sched [OF sched_note(1)]
    by (auto simp: sched_inv_def split: if_splits)
next
  case (sched_datagram d x submit c)
  then show ?case using deliver_sched [OF sched_datagram(1)]
    by (auto simp: sched_inv_def split: if_splits)
next
  case (sched_reject x)
  then show ?case by (auto simp: sched_inv_def reject_task_def Close_def split: if_splits)
next
  case (sched_start x)
  then show ?case by (auto simp: sched_inv_def deferred_ok_def split: if_splits)
next
  case (sched_head i x d ev isClosed c)
  with single_worker [OF sched_head(4,1)] show ?case
    by (auto simp: sched_inv_def round_begin_def Let_def split: if_splits)
next
  case (sched_return i x d c)
  note w = single_worker [OF sched_return(4,1)]
  from sched_return(1,2,4) have "deferred_ok d" unfolding sched_inv_def by (metis nth_mem)
  with w sched_return show ?case
    by (auto simp: sched_inv_def round_begin_def Let_def drop_nth_def split: if_splits)
next
  case (sched_round i x ev d)
  with single_worker [OF sched_round(4,1)] defers_ok [OF sched_round(3)] show ?case
    by (auto simp: sched_inv_def)
next
  case (sched_panic i x ev)
  with single_worker [OF sched_panic(3,1)] show ?case
    by (auto simp: sched_inv_def process_panic_def drop_nth_def)
next
  case (sched_output xs x s)
  with conn_step_sched [OF sched_output(1)] show ?case
    by (auto simp: sched_inv_def sched_same_def)
next
  case (sched_take ev x d c)
  then show ?case by (auto simp: sched_inv_def take_datagram_def split: if_splits)
qed (auto simp: sched_inv_def)

lemma sched_reach_inv: "sched_reach x \<Longrightarrow> sched_inv x"
proof (induction rule: sched_reach.induct)
  case (reach_new e i u)
  show ?case by (simp add: sched_inv_def newConnection_def deferred_ok_def)
qed (blast intro: sched_step_inv)

section \<open>A worker acts on every event\<close>

text \<open>A round defers nothing but a read it found output in front of.\<close>

lemma stream_round_deferred:
  assumes "stream_round h bufsz events isClosed f w = Some (d, w')"
  shows "d = 0 \<or> events AND evIn \<noteq> 0 \<and> d = evIn OR (events AND evRdHup)"
  using assms
  by (auto simp: stream_round_def input_stage_def split: if_splits option.splits)

lemma process_round_deferred:
  "process_round n h bufsz events isClosed f w = Done (d, w') \<Longrightarrow>
   d = 0 \<or> events AND evIn \<noteq> 0 \<and> d = evIn OR (events AND evRdHup)"
  by (auto simp: process_round_def split: if_splits option.splits outcome.splits dest: stream_round_deferred)

text \<open>What the rounds acted on: the events they took without those they deferred.\<close>

definition acted :: "(u32 \<times> u32) list \<Rightarrow> u32" where
  "acted rounds = foldr (\<lambda>(events, d) a. (events AND NOT d) OR a) rounds 0"

lemma acted_simps [simp]:
  "acted [] = 0" "acted ((ev, d) # rs) = (ev AND NOT d) OR acted rs"
  by (simp_all add: acted_def)

lemma on_conn_simps [simp]:
  "fst (on_conn f w) = (fst (fst w), f (snd (fst w)))" "snd (on_conn f w) = snd w"
  by (simp_all add: on_conn_def)

text \<open>What is pending at a head, with the event noted there.\<close>

definition head_events :: "u32 list \<Rightarrow> u32 \<Rightarrow> wst \<Rightarrow> u32" where
  "head_events arrivals deferred w =
     pendingEvents (snd (noteEvent (case arrivals of [] \<Rightarrow> 0 | a # _ \<Rightarrow> a) (snd (fst w)))) OR deferred"

lemma process_step:
  assumes "process (Suc n) m h bufsz arrivals f d w = Done (rounds, w')"
  shows "(rounds = [] \<and> pendingEvents (snd (fst w')) = d \<and> head_events arrivals d w = d \<and>
            \<not> scheduled (snd (fst w'))) \<or>
         (\<exists>d' w1 rs. rounds = (head_events arrivals d w, d') # rs \<and>
            process n m h bufsz (tl arrivals) f d' w1 = Done (rs, w'))"
  using assms
  by (auto simp: round_begin_def head_events_def Let_def split: if_splits outcome.splits option.splits) blast

lemma process_keeps:
  "process n m h bufsz arrivals f d w = Done (rounds, w') \<Longrightarrow>
   bit (head_events arrivals d w) i \<Longrightarrow> bit (acted rounds) i \<or> bit (pendingEvents (snd (fst w'))) i"
proof (induction n arbitrary: arrivals d w rounds)
  case (Suc n)
  from process_step [OF Suc.prems(1)] show ?case
  proof (elim disjE exE conjE)
    assume "pendingEvents (snd (fst w')) = d" "head_events arrivals d w = d"
    with Suc.prems(2) show ?thesis by simp
  next
    fix d' w1 rs
    assume r: "rounds = (head_events arrivals d w, d') # rs"
      and p: "process n m h bufsz (tl arrivals) f d' w1 = Done (rs, w')"
    show ?thesis
    proof (cases "bit d' i")
      case True
      then have "bit (head_events (tl arrivals) d' w1) i" by (simp add: head_events_def bit_simps)
      with Suc.IH [OF p] r show ?thesis by (auto simp: bit_simps)
    next
      case False
      with Suc.prems(2) r show ?thesis by (auto simp: bit_simps dest: bit_imp_le_length)
    qed
  qed
qed simp

section \<open>A worker returns\<close>

text \<open>
  A handler reaches a connection through its exported methods only, and none of them touches the
  readiness or the receive queue.
\<close>

definition private_same :: "wst \<Rightarrow> wst \<Rightarrow> bool" where
  "private_same w w' \<longleftrightarrow>
     pendingEvents (snd (fst w')) = pendingEvents (snd (fst w)) \<and> udp (snd (fst w')) = udp (snd (fst w)) \<and>
     udp_queue (snd (fst w')) = udp_queue (snd (fst w)) \<and> udp_head (snd (fst w')) = udp_head (snd (fst w))"

definition well_behaved :: "handler \<Rightarrow> bool" where
  "well_behaved h \<longleftrightarrow> (\<forall>d w. private_same w (OnData h d w) \<and> private_same w (OnPriorityData h d w))"

lemma private_refl [simp]: "private_same w w"
  by (simp add: private_same_def)

lemma private_trans: "private_same u v \<Longrightarrow> private_same v w \<Longrightarrow> private_same u w"
  by (simp add: private_same_def)

lemma private_handler: "well_behaved h \<Longrightarrow> private_same w (OnData h d w)"
  "well_behaved h \<Longrightarrow> private_same w (OnPriorityData h d w)"
  unfolding well_behaved_def by blast+

text \<open>The output side keeps them too.\<close>

lemma consume_loop_private:
  "udp_queue (snd (consume_loop n s)) = udp_queue (snd s)" "udp_head (snd (consume_loop n s)) = udp_head (snd s)"
  using consume_loop_frame [of s n] by (auto simp: queue_frame_def)

lemma flush_iter_private:
  "flush_iter rs s = Some (res, s', rs') \<Longrightarrow> private_same (s, ws) (s', ws')"
proof -
  assume it: "flush_iter rs s = Some (res, s', rs')"
  have n: "private_same (s, ws) ((fst s, note_copyBuf b (snd s)), ws')" for b
    by (simp add: private_same_def note_copyBuf_def set_head_def Let_def)
  have t: "private_same (s, ws) (take_sent r s, ws')" for r s ws ws'
    using consume_loop_frame [of "if sr_fromFile r then emit (sr_units r) s
        else subPending (int (sr_n r)) (emit (sr_units r) s)" "int (sr_n r)"]
    by (auto simp: private_same_def take_sent_def consumeLocked_def Let_def queue_frame_def emit_def split: if_splits)
  have p: "private_same (s, ws) (stop_flush s, ws')" for s ws ws'
    by (simp add: private_same_def stop_flush_def Let_def)
  have e: "private_same (s, ws) (flush_empty s, ws')"
    by (cases s) (simp add: private_same_def flush_empty_def rewindQueueLocked_def Let_def)
  have f: "private_same (s, ws) ((fst s, (note_copyBuf b (snd s))\<lparr>flushing := False\<rparr>), ws')" for b
    using n [of b] by (simp add: private_same_def)
  show ?thesis using it
    by (auto simp: flush_iter_def Let_def n e f split: if_splits option.splits goerr.splits
        intro: private_trans [OF n p] private_trans [OF n t] private_trans [OF n private_trans [OF t p]])
qed

lemma flush_loop_private:
  "flush_loop rs s = Some ((res, s'), rs') \<Longrightarrow> private_same (s, ws) (s', ws')"
proof (induction rs s rule: flush_loop.induct)
  case (1 rs s)
  then obtain out t ts where it: "flush_iter rs s = Some (out, t, ts)"
    by (auto simp: flush_loop.simps [of rs s] split: option.splits)
  show ?case
  proof (cases out)
    case FlushContinue
    with 1(2) it have "flush_loop ts t = Some ((res, s'), rs')" by (simp add: flush_loop.simps [of rs s])
    with 1(1) [OF it refl FlushContinue refl] flush_iter_private [OF it] show ?thesis
      by (meson private_trans)
  qed (use 1(2) it flush_iter_private [OF it] in \<open>simp add: flush_loop.simps [of rs s]\<close>)
qed

lemma flushOutput_private:
  "flushOutput rs s = Some ((res, s'), rs') \<Longrightarrow> private_same (s, ws) (s', ws')"
  using private_trans [OF _ flush_loop_private, of "(s, ws)" "(fst s, (snd s)\<lparr>flushing := True\<rparr>)" ws rs]
  by (cases s) (auto simp: flushOutput_def flush_enter_def private_same_def split: if_splits)

lemma uncork_private: "uncork rs s = Some ((res, s'), rs') \<Longrightarrow> private_same (s, ws) (s', ws')"
  using private_trans [OF _ flushOutput_private, of "(s, ws)" "(fst s, (snd s)\<lparr>corked := False\<rparr>)" ws rs]
  by (cases s) (auto simp: uncork_def private_same_def Let_def split: if_splits)

lemma uncork_private_pair: "uncork (snd w) (fst w) = Some ((res, s'), rs') \<Longrightarrow> private_same w (s', ws')"
  using uncork_private [of "snd w" "fst w" res s' rs' "snd w" ws'] by simp

lemma private_cork: "private_same w ((e, c), ws) \<Longrightarrow> private_same w (on_conn (\<lambda>c. c\<lparr>corked := True\<rparr>) ((e, c), ws))"
  "private_same w ((e, c), ws) \<Longrightarrow> private_same w (stall_read (e, c), ws)"
  by (simp_all add: private_same_def stall_read_def)

lemma readLoop_private:
  assumes "well_behaved h"
  shows "readLoop h bufsz rs w = Some ((err, w'), rs') \<Longrightarrow> private_same w w'"
proof (induction rs arbitrary: w)
  case (Cons r rs)
  show ?case
  proof (cases r)
    case (ReadData buf)
    define d where "d = take bufsz buf"
    define w1 where "w1 = OnData h d w"
    have H: "private_same w w1" using private_handler(1) [OF assms] by (simp add: w1_def)
    have u: "private_same w (s2, ts)" if "uncork (snd w1) (fst w1) = Some ((x, s2), ts)" for x s2 ts
      using private_trans [OF H uncork_private_pair [OF that]] .
    have st: "private_same w (stall_read s2, ts)" if "private_same w (s2, ts)" for s2 ts
      using private_cork(2) [of w "fst s2" "snd s2" ts] that by simp
    have co: "private_same w (on_conn (\<lambda>c. c\<lparr>corked := True\<rparr>) (s2, ts))" if "private_same w (s2, ts)" for s2 ts
      using private_cork(1) [of w "fst s2" "snd s2" ts] that by simp
    note ih = private_trans [OF co [OF u] Cons.IH]
    show ?thesis using Cons.prems H unfolding ReadData readLoop.simps readret.case Let_def d_def [symmetric] w1_def [symmetric]
      by (auto split: if_splits option.splits intro: H u st [OF u] co [OF u] ih private_trans [OF H Cons.IH])
  qed (use Cons in \<open>auto split: if_splits\<close>)
qed simp

lemma drainInput_private:
  assumes "well_behaved h" "drainInput h bufsz rs w = Some ((err, w'), rs')"
  shows "private_same w w'"
proof -
  let ?w0 = "on_conn (\<lambda>c. c\<lparr>corked := True, readStalled := False\<rparr>) w"
  obtain e1 w1 rs1 where r: "readLoop h bufsz rs ?w0 = Some ((e1, w1), rs1)"
    using assms(2) by (auto simp: drainInput_def split: option.splits)
  have "private_same w ?w0" by (simp add: private_same_def)
  note a = private_trans [OF this readLoop_private [OF assms(1) r]]
  from assms(2) r obtain fe s2 ws where "uncork (snd w1) (fst w1) = Some ((fe, s2), ws)" "w' = (s2, ws)"
    by (auto simp: drainInput_def split: option.splits)
  with private_trans [OF a uncork_private_pair] show ?thesis by blast
qed

lemma drainPriority_private:
  assumes "well_behaved h"
  shows "drainPriorityInput h rs w = Some ((err, w'), rs') \<Longrightarrow> private_same w w'"
proof (induction rs arbitrary: w)
  case (Cons r rs)
  note ih = private_trans [OF private_handler(2) [OF assms] Cons.IH]
  from Cons.prems show ?case
    by (auto simp: Let_def split: readret.splits if_splits intro: ih dest: Cons.IH)
qed simp

lemma close_on_private: "private_same w w1 \<Longrightarrow> private_same w (close_on v w1)"
  by (cases v) (simp_all add: close_on_def private_same_def)

lemma stream_round_private:
  assumes h: "well_behaved h" and r: "stream_round h bufsz events isClosed f w = Some (d, w')"
  shows "private_same w w'"
proof (cases isClosed)
  case True
  with r show ?thesis by (auto simp: stream_round_def intro: close_on_private)
next
  case False
  from r False obtain v1 w1 where fl: "flush_stage events w = Some (v1, w1)"
    by (auto simp: stream_round_def split: option.splits)
  then have p1: "private_same w w1"
    using flushOutput_private [of "snd w" "fst w" _ _ _ "snd w"]
    by (auto simp: flush_stage_def split: if_splits option.splits)
  have p2: "private_same w w2" if "priority_stage h events f w1 = Some (v2, w2)" for v2 w2
    using that private_trans [OF p1 drainPriority_private [OF h]] p1
    by (auto simp: priority_stage_def split: if_splits option.splits)
  have p3: "private_same w w3"
    if "priority_stage h events f w1 = Some (v2, w2)" "input_stage h bufsz events f w2 = Some (d, v3, w3)"
    for v2 w2 d v3 w3
    using that(2) private_trans [OF p2 [OF that(1)] drainInput_private [OF h]] p2 [OF that(1)]
    by (auto simp: input_stage_def split: if_splits option.splits)
  from r False fl consider vv where "w' = close_on vv w1"
    | v2 w2 vv where "priority_stage h events f w1 = Some (v2, w2)" "w' = close_on vv w2"
    | v2 w2 v3 w3 vv where "priority_stage h events f w1 = Some (v2, w2)"
        "input_stage h bufsz events f w2 = Some (d, v3, w3)" "w' = close_on vv w3"
    by (auto simp: stream_round_def split: option.splits)
  then show ?thesis by cases (use p1 p2 p3 close_on_private in blast)+
qed

lemma take_datagram_simps:
  "take_datagram c = Some (d, c') \<Longrightarrow>
   pendingEvents c' = pendingEvents c \<and> udp c' = udp c \<and> udp_head c' = Suc (udp_head c) \<and>
   length (udp_queue c') = length (udp_queue c) \<and> udp_head c \<noteq> length (udp_queue c) \<and>
   d = udp_queue c ! udp_head c \<and> drop (udp_head c') (udp_queue c') = drop (Suc (udp_head c)) (udp_queue c)"
  by (auto simp: take_datagram_def split: if_splits)

text \<open>Enough fuel for the datagrams that wait.\<close>

lemma drainDatagrams_returns:
  assumes h: "well_behaved h"
  shows "udp_head (snd (fst w)) \<le> length (udp_queue (snd (fst w))) \<Longrightarrow>
    length (udp_queue (snd (fst w))) - udp_head (snd (fst w)) < n \<Longrightarrow>
    \<exists>ds w'. drainDatagrams n h w = Done (ds, w') \<and>
      pendingEvents (snd (fst w')) = pendingEvents (snd (fst w)) \<and> udp (snd (fst w')) = udp (snd (fst w)) \<and>
      udp_head (snd (fst w')) \<le> length (udp_queue (snd (fst w'))) \<and>
      length (udp_queue (snd (fst w'))) = length (udp_queue (snd (fst w))) \<and>
      udp_head (snd (fst w)) \<le> udp_head (snd (fst w'))"
proof (induction n arbitrary: w)
  case (Suc n)
  show ?case
  proof (cases "take_datagram (snd (fst w))")
    case (Some p)
    obtain d c where p: "take_datagram (snd (fst w)) = Some (d, c)" using Some by (cases p) simp
    let ?w1 = "OnData h d ((fst (fst w), c), snd w)"
    have s: "private_same ((fst (fst w), c), snd w) ?w1" by (rule private_handler(1) [OF h])
    note q = take_datagram_simps [OF p]
    have "\<exists>ds w'. drainDatagrams n h ?w1 = Done (ds, w') \<and>
      pendingEvents (snd (fst w')) = pendingEvents (snd (fst ?w1)) \<and> udp (snd (fst w')) = udp (snd (fst ?w1)) \<and>
      udp_head (snd (fst w')) \<le> length (udp_queue (snd (fst w'))) \<and>
      length (udp_queue (snd (fst w'))) = length (udp_queue (snd (fst ?w1))) \<and>
      udp_head (snd (fst ?w1)) \<le> udp_head (snd (fst w'))"
      by (rule Suc.IH) (use s q Suc.prems in \<open>auto simp: private_same_def\<close>)
    then show ?thesis using p s q by (auto simp: private_same_def)
  qed (use Suc in auto)
qed simp

definition udp_ok :: "nat \<Rightarrow> conn \<Rightarrow> bool" where
  "udp_ok m c \<longleftrightarrow> udp_head c \<le> length (udp_queue c) \<and> length (udp_queue c) - udp_head c < m"

lemma process_round_returns:
  assumes "well_behaved h" "udp_ok m (snd (fst w))"
  shows "process_round m h bufsz events isClosed f w \<noteq> NoFuel \<and>
    (\<forall>d w'. process_round m h bufsz events isClosed f w = Done (d, w') \<longrightarrow>
       pendingEvents (snd (fst w')) = pendingEvents (snd (fst w)) \<and> udp_ok m (snd (fst w')))"
proof (cases "udp (snd (fst w))")
  case True
  from assms(2) drainDatagrams_returns [OF assms(1), of w m] obtain ds w1
    where "drainDatagrams m h w = Done (ds, w1)"
      "pendingEvents (snd (fst w1)) = pendingEvents (snd (fst w))" "udp_ok m (snd (fst w1))"
    by (auto simp: udp_ok_def)
  with True assms(2) show ?thesis by (simp add: process_round_def del: split_paired_All)
next
  case False
  show ?thesis
  proof (cases "stream_round h bufsz events isClosed f w")
    case None
    with False show ?thesis by (simp add: process_round_def)
  next
    case (Some dw)
    obtain d1 w1 where "dw = (d1, w1)" by (cases dw)
    with Some have r: "stream_round h bufsz events isClosed f w = Some (d1, w1)" by simp
    with False stream_round_private [OF assms(1) r] assms(2) show ?thesis
      by (simp add: process_round_def private_same_def udp_ok_def del: split_paired_All)
  qed
qed

lemma noteEvent_udp [simp]: "udp_ok m (snd (noteEvent ev c)) = udp_ok m c"
  by (simp add: noteEvent_def udp_ok_def Let_def)

lemma noteEvent_zero [simp]: "noteEvent 0 c = (False, c)"
  by (simp add: noteEvent_def)

lemma outcome_bind:
  assumes "x \<noteq> NoFuel" "\<And>a. x = Done a \<Longrightarrow> g a \<noteq> NoFuel"
  shows "(case x of Done a \<Rightarrow> g a | NoAnswer \<Rightarrow> NoAnswer | NoFuel \<Rightarrow> NoFuel) \<noteq> NoFuel"
  using assms by (cases x) auto

lemma process_returns:
  assumes h: "well_behaved h"
  shows "udp_ok m (snd (fst w)) \<Longrightarrow>
    length arrivals + 2 \<le> n \<or> arrivals = [] \<and> 1 \<le> n \<and> pendingEvents (snd (fst w)) = 0 \<Longrightarrow>
    process n m h bufsz arrivals f d w \<noteq> NoFuel"
proof (induction n arbitrary: arrivals d w)
  case (Suc n)
  let ?a = "case arrivals of [] \<Rightarrow> 0 | a # _ \<Rightarrow> a"
  let ?w0 = "on_conn (\<lambda>c. snd (noteEvent ?a c)) w"
  show ?case
  proof (cases "round_begin d (snd (fst ?w0))")
    case (Pair oe c)
    show ?thesis
    proof (cases oe)
      case None
      with Pair show ?thesis by (simp add: Let_def)
    next
      case (Some ec)
      obtain ev cl where ec: "ec = (ev, cl)" by (cases ec)
      with Pair Some have c: "c = (snd (fst ?w0))\<lparr>pendingEvents := 0\<rparr>"
        "pendingEvents (snd (fst ?w0)) OR d \<noteq> d"
        by (auto simp: round_begin_def Let_def split: if_splits)
      let ?w = "on_conn (\<lambda>_. c) ?w0"
      have ok: "udp_ok m (snd (fst ?w))" using Suc.prems(1) c by (simp add: udp_ok_def [of m "_\<lparr>pendingEvents := 0\<rparr>"])
          (simp add: noteEvent_def udp_ok_def Let_def)
      note pr = process_round_returns [OF h ok, of bufsz ev cl "f n"]
      have n: "length (tl arrivals) + 2 \<le> n \<or> tl arrivals = [] \<and> 1 \<le> n"
        using Suc.prems(2) c(2) by (cases arrivals) auto
      have cont: "process n m h bufsz (tl arrivals) f d' w1 \<noteq> NoFuel"
        if "process_round m h bufsz ev cl (f n) ?w = Done (d', w1)" for d' w1
      proof -
        have "pendingEvents (snd (fst w1)) = 0" "udp_ok m (snd (fst w1))"
          using pr [THEN conjunct2, rule_format, OF that] c(1) by simp_all
        with n Suc.IH [of w1 "tl arrivals" d'] show ?thesis by blast
      qed
      have eq: "process (Suc n) m h bufsz arrivals f d w =
        (case process_round m h bufsz ev cl (f n) ?w of
           Done x \<Rightarrow> (case process n m h bufsz (tl arrivals) f (fst x) (snd x) of
              Done y \<Rightarrow> Done ((ev, fst x) # fst y, snd y) | NoAnswer \<Rightarrow> NoAnswer | NoFuel \<Rightarrow> NoFuel)
         | NoAnswer \<Rightarrow> NoAnswer | NoFuel \<Rightarrow> NoFuel)"
        unfolding process.simps Let_def Pair Some ec
        by (simp add: case_prod_unfold split: outcome.split)
      show ?thesis unfolding eq
        by (intro outcome_bind pr [THEN conjunct1] cont) (simp_all del: split_paired_All)
    qed
  qed
qed auto

section \<open>Datagrams reach the handler in order\<close>

lemma drain_order:
  assumes h: "well_behaved h"
  shows "udp_head (snd (fst w)) \<le> length (udp_queue (snd (fst w))) \<Longrightarrow>
    drainDatagrams n h w = Done (ds, w') \<Longrightarrow>
    ds = take (length ds) (drop (udp_head (snd (fst w))) (udp_queue (snd (fst w)))) \<and>
    (\<not> closing (snd (fst w')) \<and> \<not> closed (snd (fst w')) \<longrightarrow>
       length ds = length (udp_queue (snd (fst w))) - udp_head (snd (fst w)))"
proof (induction n arbitrary: w ds)
  case (Suc n)
  show ?case
  proof (cases "take_datagram (snd (fst w))")
    case None
    with Suc.prems show ?thesis by (auto simp: take_datagram_def split: if_splits)
  next
    case (Some p)
    obtain d c where p: "take_datagram (snd (fst w)) = Some (d, c)" using Some by (cases p) simp
    let ?w1 = "OnData h d ((fst (fst w), c), snd w)"
    have s: "private_same ((fst (fst w), c), snd w) ?w1" by (rule private_handler(1) [OF h])
    note q = take_datagram_simps [OF p]
    from Suc.prems(2) p obtain es where es: "drainDatagrams n h ?w1 = Done (es, w')" "ds = d # es"
      by (auto split: outcome.splits)
    have "udp_head (snd (fst ?w1)) \<le> length (udp_queue (snd (fst ?w1)))"
      using s q Suc.prems(1) by (simp add: private_same_def)
    from Suc.IH [OF this es(1)] s q es(2) Suc.prems(1) show ?thesis
      by (auto simp: private_same_def Cons_nth_drop_Suc [symmetric])
  qed
qed simp

lemma deliver_bound:
  assumes "deliverDatagram d c = (b, c')" "udp_head c \<le> length (udp_queue c)"
    and "length (udp_queue c) - udp_head c \<le> maxQueuedDatagrams"
  shows "udp_head c' \<le> length (udp_queue c') \<and> length (udp_queue c') - udp_head c' \<le> maxQueuedDatagrams"
  using assms by (auto simp: deliverDatagram_def noteEvent_def Let_def maxQueuedDatagrams_def split: if_splits)

section \<open>Properties\<close>


lemma demo_schedule:
  "sched_reach \<lparr>sc_st = (demo_engine, demo_conn\<lparr>pendingEvents := 0, scheduled := True\<rparr>),
     sc_ready = 0, sc_tasks = 0, sc_workers = [InRound evIn]\<rparr>"
proof -
  let ?x = "\<lambda>c r t w. \<lparr>sc_st = (demo_engine, c), sc_ready = r, sc_tasks = t, sc_workers = w\<rparr> :: sched"
  let ?c = "demo_conn\<lparr>pendingEvents := evIn, scheduled := True\<rparr>"
  have n: "noteEvent evIn demo_conn = (True, ?c)"
    by (simp add: noteEvent_def demo_conn_def newConnection_def ev_defs Let_def)
  have b: "round_begin 0 ?c = (Some (evIn, False), demo_conn\<lparr>pendingEvents := 0, scheduled := True\<rparr>)"
    by (simp add: round_begin_def demo_conn_def newConnection_def ev_defs Let_def)
  have "sched_reach (?x demo_conn 0 0 [])" unfolding demo_conn_def by (rule reach_new)
  then have "sched_reach (?x ?c 1 0 [])"
    using reach_step [OF _ sched_note [of evIn "?x demo_conn 0 0 []", simplified, OF n]] by simp
  then have "sched_reach (?x ?c 0 1 [])"
    using reach_step [OF _ sched_submit [of "?x ?c 1 0 []", simplified]] by simp
  then have "sched_reach (?x ?c 0 0 [AtHead 0])"
    using reach_step [OF _ sched_start [of "?x ?c 0 1 []", simplified]] by simp
  then show ?thesis
    using reach_step [OF _ sched_head [of 0 "?x ?c 0 0 [AtHead 0]" 0, simplified, OF b]] by simp
qed



definition quiet_handler :: handler where
  "quiet_handler = \<lparr>OnData = (\<lambda>d w. w), OnPriorityData = (\<lambda>d w. w)\<rparr>"

definition demo_feed :: feed where
  "demo_feed = \<lparr>fd_reads = [ReadData [1, 2, 3]], fd_oob = [], fd_sock = Inr None\<rparr>"

lemma demo_process:
  "process 3 1 quiet_handler 16 [evIn] (\<lambda>_. demo_feed) 0 ((demo_engine, demo_conn), []) =
   Done ([(evIn, 0)], ((demo_engine, demo_conn), []))"
  by (simp add: numeral_3_eq_3 noteEvent_def round_begin_def demo_defs demo_feed_def quiet_handler_def
      on_conn_def process_round_def stream_round_def flush_stage_def priority_stage_def input_stage_def
      drainInput_def hasQueuedOutput_def overWriteWatermark_def pauseDecision_def uncork_def
      verdict_of_def close_on_def hangup_verdict_def ev_defs Let_def)






section \<open>A deferred read that no event brings back\<close>

definition demo_seg :: fileSegment where
  "demo_seg = \<lparr>fs_fd = 5, fs_offset = 0, fs_remaining = 2, fs_copyBuf = False\<rparr>"

lemma demo_file_flush:
  assumes "c = demo_conn\<lparr>pendingEvents := evIn, scheduled := b, sends := [empty_item\<lparr>it_file := Some demo_seg\<rparr>]\<rparr>"
  shows "\<exists>s. flush_enter (demo_engine, c) = (None, (demo_engine, c\<lparr>flushing := True\<rparr>)) \<and>
    flush_iter [SysRet 2 None] (demo_engine, c\<lparr>flushing := True\<rparr>) = Some (FlushContinue, s, []) \<and>
    sendHead (snd s) = length (sends (snd s)) \<and> flushing (snd s) \<and> \<not> closing (snd s)"
  unfolding assms
  by (simp add: demo_defs demo_seg_def empty_item_def flush_enter_def flush_iter_def write_head_def
      sysSendFileLocked_def file_result_def maxSendFileCall_def note_copyBuf_def take_sent_def emit_def
      consumeLocked_def consume_loop.simps drop_head_def releaseItemLocked_def Let_def)


end
