(* ===== verification/Fd_Table.thy ===== *)
theory Fd_Table
  imports Prelude
begin

text \<open>
  The descriptor table of the readiness backends, \<open>src/go/engine_unix.go\<close>: the paged table from
  descriptors to connections, the tokens that an event carries back, and \<open>detach\<close>. A connection is
  named by a number, which stands for its pointer.

  What is shown: the paged table is a finite map from descriptors to connections, and an event
  left over from an earlier owner of a descriptor resolves to nothing, as long as fewer than
  \<open>2 ^ 32\<close> connections were opened.
\<close>

section \<open>Model\<close>

definition listenerKind :: u64 where "listenerKind = 0"
definition wakeKind :: u64 where "wakeKind = 1"
definition udpKind :: u64 where "udpKind = 2"
definition firstGeneration :: u64 where "firstGeneration = 3"

definition connPageSize :: nat where "connPageSize = 2 ^ 12"

type_synonym page = "nat option list"

text \<open>\<open>enginePlatform\<close> with the \<open>fd\<close> and \<open>token\<close> fields of the connections.\<close>

record platform =
  connections :: "page option list"
  nextGeneration :: u64
  fd_of :: "nat \<Rightarrow> int"
  token_of :: "nat \<Rightarrow> u64"

definition page_index :: "int \<Rightarrow> int" where
  "page_index fd = fd div int connPageSize"

definition page_slot :: "int \<Rightarrow> nat" where
  "page_slot fd = nat (fd mod int connPageSize)"

definition connectionAt :: "platform \<Rightarrow> int \<Rightarrow> nat option" where
  "connectionAt p fd =
     (let page = page_index fd in
      if page < 0 \<or> page \<ge> int (length (connections p)) then None
      else case connections p ! nat page of
             None \<Rightarrow> None
           | Some entries \<Rightarrow> entries ! page_slot fd)"

text \<open>The token packs the descriptor with a kind or a generation.\<close>

definition listenerToken :: "int \<Rightarrow> u64" where
  "listenerToken fd = ucast (word_of_int fd :: u32) OR push_bit 32 listenerKind"

definition wakeToken :: "int \<Rightarrow> u64" where
  "wakeToken fd = ucast (word_of_int fd :: u32) OR push_bit 32 wakeKind"

definition udpToken :: "int \<Rightarrow> u64" where
  "udpToken fd = ucast (word_of_int fd :: u32) OR push_bit 32 udpKind"

definition token_fd :: "u64 \<Rightarrow> int" where
  "token_fd token = uint (ucast token :: u32)"

definition connectionFor :: "platform \<Rightarrow> u64 \<Rightarrow> nat option" where
  "connectionFor p token =
     (case connectionAt p (token_fd token) of
        None \<Rightarrow> None
      | Some c \<Rightarrow> if token_of p c \<noteq> token then None else Some c)"

definition grow_directory :: "nat \<Rightarrow> page option list \<Rightarrow> page option list" where
  "grow_directory page d =
     (if page \<ge> length d
      then d @ replicate (max (page + 1) (2 * length d) - length d) None
      else d)"

definition trackConnection :: "int \<Rightarrow> nat \<Rightarrow> platform \<Rightarrow> platform" where
  "trackConnection fd c p =
     (let page = nat (page_index fd);
          d = grow_directory page (connections p);
          entries = (case d ! page of None \<Rightarrow> replicate connPageSize None | Some es \<Rightarrow> es)
      in p\<lparr>connections := d[page := Some (entries[page_slot fd := Some c])]\<rparr>)"

text \<open>
  \<open>acceptConnections\<close> for one accepted descriptor: the generation counter steps, the connection
  gets its token and descriptor and, if the backend registers it, its slot in the table.
\<close>

definition accept_one :: "int \<Rightarrow> nat \<Rightarrow> bool \<Rightarrow> platform \<Rightarrow> platform" where
  "accept_one fd c registered p =
     (let gen = nextGeneration p + 1;
          token = ucast (word_of_int fd :: u32) OR push_bit 32 gen;
          p1 = p\<lparr>nextGeneration := gen, token_of := (token_of p)(c := token), fd_of := (fd_of p)(c := fd)\<rparr>
      in if registered then trackConnection fd c p1 else p1)"

text \<open>\<open>detach\<close> of a connection with a descriptor of its own.\<close>

definition detach :: "nat \<Rightarrow> platform \<Rightarrow> platform" where
  "detach c p =
     (let fd = fd_of p c;
          p1 = p\<lparr>fd_of := (fd_of p)(c := -1)\<rparr>
      in if fd < 0 then p1
         else
           (let page = nat (page_index fd) in
            if page < length (connections p)
            then (case connections p ! page of
                    None \<Rightarrow> p1
                  | Some entries \<Rightarrow>
                      (if entries ! page_slot fd = Some c
                       then p1\<lparr>connections := (connections p)[page := Some (entries[page_slot fd := None])]\<rparr>
                       else p1))
            else p1))"

definition new_platform :: platform where
  "new_platform = \<lparr>connections = [], nextGeneration = firstGeneration, fd_of = (\<lambda>_. -1), token_of = (\<lambda>_. 0)\<rparr>"

section \<open>The table is a map\<close>

definition table_ok :: "platform \<Rightarrow> bool" where
  "table_ok p \<longleftrightarrow> (\<forall>es. Some es \<in> set (connections p) \<longrightarrow> length es = connPageSize)"

text \<open>What a descriptor table promises, for descriptors that are not negative.\<close>

locale fd_map =
  fixes ok :: "'t \<Rightarrow> bool"
    and lookup :: "'t \<Rightarrow> int \<Rightarrow> 'c option"
    and put :: "int \<Rightarrow> 'c \<Rightarrow> 't \<Rightarrow> 't"
    and empty :: 't
  assumes ok_empty: "ok empty"
    and lookup_empty: "lookup empty fd = None"
    and ok_put: "ok t \<Longrightarrow> 0 \<le> fd \<Longrightarrow> ok (put fd c t)"
    and lookup_put: "ok t \<Longrightarrow> 0 \<le> fd \<Longrightarrow> lookup (put fd c t) fd' = (if fd' = fd then Some c else lookup t fd')"
begin

lemma fold_put:
  "\<forall>(fd, c) \<in> set xs. 0 \<le> fd \<Longrightarrow>
   ok (fold (\<lambda>(fd, c). put fd c) xs empty) \<and>
   lookup (fold (\<lambda>(fd, c). put fd c) xs empty) = map_of (rev xs)"
proof (induction xs rule: rev_induct)
  case Nil
  show ?case by (simp add: ok_empty lookup_empty fun_eq_iff)
next
  case (snoc x xs)
  obtain fd c where x: "x = (fd, c)" by (cases x)
  with snoc show ?case by (auto simp: fun_eq_iff ok_put lookup_put)
qed

end

lemma page_index_slot:
  "0 \<le> fd \<Longrightarrow> page_slot fd < connPageSize"
  "page_index fd = page_index fd' \<Longrightarrow> page_slot fd = page_slot fd' \<Longrightarrow> fd = fd'"
  "0 \<le> fd \<Longrightarrow> 0 \<le> page_index fd"
proof -
  have pos: "0 < int connPageSize" by (simp add: connPageSize_def)
  then show "0 \<le> fd \<Longrightarrow> page_slot fd < connPageSize"
    by (simp add: page_slot_def nat_less_iff)
  show "0 \<le> fd \<Longrightarrow> 0 \<le> page_index fd"
    using pos by (simp add: page_index_def pos_imp_zdiv_nonneg_iff)
  assume "page_index fd = page_index fd'" "page_slot fd = page_slot fd'"
  then have "fd div int connPageSize = fd' div int connPageSize"
    "fd mod int connPageSize = fd' mod int connPageSize"
    using pos pos_mod_sign [OF pos] by (simp_all add: page_index_def page_slot_def eq_nat_nat_iff)
  then show "fd = fd'" by (metis mult_div_mod_eq)
qed

lemma nth_grow_directory:
  "i < length d \<Longrightarrow> grow_directory page d ! i = d ! i"
  "length d \<le> i \<Longrightarrow> i < length (grow_directory page d) \<Longrightarrow> grow_directory page d ! i = None"
  "page < length (grow_directory page d)"
  "length d \<le> length (grow_directory page d)"
  by (auto simp: grow_directory_def nth_append)

lemma set_grow_directory: "Some es \<in> set (grow_directory page d) \<Longrightarrow> Some es \<in> set d"
  by (auto simp: grow_directory_def split: if_splits)

lemma track_ok:
  assumes "table_ok p" "0 \<le> fd"
  shows "table_ok (trackConnection fd c p)"
  using assms
  by (auto simp: table_ok_def trackConnection_def Let_def dest!: set_update_subset_insert [THEN subsetD]
      set_grow_directory split: option.splits)
     (metis nth_grow_directory(3) nth_mem set_grow_directory)+

lemma connectionAt_pages:
  "0 \<le> fd \<Longrightarrow> connectionAt p fd =
    (if nat (page_index fd) < length (connections p)
     then (case connections p ! nat (page_index fd) of None \<Rightarrow> None | Some es \<Rightarrow> es ! page_slot fd) else None)"
  using page_index_slot(3) [of fd] by (auto simp: connectionAt_def Let_def)

lemma connectionAt_negative: "fd < 0 \<Longrightarrow> connectionAt p fd = None"
proof -
  assume "fd < 0"
  moreover have "0 < int connPageSize" by (simp add: connPageSize_def)
  ultimately have "page_index fd < 0" by (simp add: page_index_def pos_imp_zdiv_neg_iff)
  then show ?thesis by (simp add: connectionAt_def Let_def)
qed

lemma lookup_track:
  assumes ok: "table_ok p" and fd: "0 \<le> fd"
  shows "connectionAt (trackConnection fd c p) fd' = (if fd' = fd then Some c else connectionAt p fd')"
proof (cases "fd' < 0")
  case True
  with fd show ?thesis by (auto simp: connectionAt_negative)
next
  case False
  then have fd': "0 \<le> fd'" by simp
  define pg where "pg = nat (page_index fd)"
  define d where "d = grow_directory pg (connections p)"
  define es where "es = (case d ! pg of None \<Rightarrow> replicate connPageSize None | Some es \<Rightarrow> es)"
  have conn: "connections (trackConnection fd c p) = d[pg := Some (es[page_slot fd := Some c])]"
    by (simp add: trackConnection_def Let_def pg_def [symmetric] d_def [symmetric] es_def)
  have pg: "pg < length d" by (simp add: d_def nth_grow_directory)
  have len: "length es = connPageSize"
  proof (cases "d ! pg")
    case (Some xs)
    then have "Some xs \<in> set (connections p)"
      using pg by (metis d_def nth_mem set_grow_directory)
    with ok Some show ?thesis by (simp add: es_def table_ok_def)
  qed (simp add: es_def)
  show ?thesis
  proof (cases "nat (page_index fd') = pg")
    case same: True
    have at: "connectionAt (trackConnection fd c p) fd' = es[page_slot fd := Some c] ! page_slot fd'"
      using fd' pg by (simp add: connectionAt_pages conn same)
    have "connectionAt p fd' = es ! page_slot fd'"
      using page_index_slot(1) [OF fd'] nth_grow_directory [where d = "connections p" and page = pg] pg
      by (auto simp: connectionAt_pages [OF fd'] same es_def d_def split: option.splits)
    moreover have "fd' = fd \<longleftrightarrow> page_slot fd' = page_slot fd"
      using same page_index_slot(2,3) fd fd' by (metis eq_nat_nat_iff pg_def)
    ultimately show ?thesis
      using at page_index_slot(1) [OF fd] len by (auto simp: nth_list_update)
  next
    case other: False
    then have ne: "fd' \<noteq> fd" by (auto simp: pg_def)
    have "(if nat (page_index fd') < length d then
             (case d ! nat (page_index fd') of None \<Rightarrow> None | Some es \<Rightarrow> es ! page_slot fd') else None) =
          connectionAt p fd'"
      using nth_grow_directory [where d = "connections p" and page = pg]
      by (auto simp: connectionAt_pages [OF fd'] d_def not_less)
    moreover have "connectionAt (trackConnection fd c p) fd' =
        (if nat (page_index fd') < length d then
           (case d ! nat (page_index fd') of None \<Rightarrow> None | Some es \<Rightarrow> es ! page_slot fd') else None)"
      using other by (simp add: connectionAt_pages [OF fd'] conn)
    ultimately show ?thesis using ne by simp
  qed
qed

lemma new_platform_table: "table_ok new_platform" "connectionAt new_platform fd = None"
  by (auto simp: table_ok_def new_platform_def connectionAt_def Let_def)

interpretation fdt: fd_map table_ok connectionAt trackConnection new_platform
  by unfold_locales (simp_all add: new_platform_table track_ok lookup_track)

text \<open>\<open>detach\<close> frees the slot of a connection that still holds its descriptor, and no other slot.\<close>

lemma detach_table:
  assumes ok: "table_ok p" and fd: "0 \<le> fd_of p c" and at: "connectionAt p (fd_of p c) = Some c"
  shows "table_ok (detach c p)"
    and "connectionAt (detach c p) fd' = (if fd' = fd_of p c then None else connectionAt p fd')"
proof -
  let ?fd = "fd_of p c"
  let ?pg = "nat (page_index ?fd)"
  obtain es where es: "?pg < length (connections p)" "connections p ! ?pg = Some es" "es ! page_slot ?fd = Some c"
    using at by (auto simp: connectionAt_pages [OF fd] split: if_splits option.splits)
  have conn: "connections (detach c p) = (connections p)[?pg := Some (es[page_slot ?fd := None])]"
    using es fd by (simp add: detach_def Let_def)
  have len: "length es = connPageSize" using ok es by (auto simp: table_ok_def) (metis nth_mem)
  show "table_ok (detach c p)"
    using ok len by (auto simp: table_ok_def conn dest!: set_update_subset_insert [THEN subsetD])
  show "connectionAt (detach c p) fd' = (if fd' = ?fd then None else connectionAt p fd')"
  proof (cases "fd' < 0")
    case True
    then show ?thesis by (simp add: connectionAt_negative)
  next
    case False
    then have fd': "0 \<le> fd'" by simp
    have "fd' = ?fd \<longleftrightarrow> nat (page_index fd') = ?pg \<and> page_slot fd' = page_slot ?fd"
      using page_index_slot(2,3) fd fd' by (metis eq_nat_nat_iff)
    with es len page_index_slot(1) [OF fd] show ?thesis
      by (auto simp: connectionAt_pages [OF fd'] conn nth_list_update)
  qed
qed

section \<open>Tokens\<close>

lemma token_parts:
  fixes fd :: int and gen :: u64
  assumes "0 \<le> fd" "fd < 2 ^ 32"
  defines "t \<equiv> ucast (word_of_int fd :: u32) OR push_bit 32 gen"
  shows "token_fd t = fd" and "drop_bit 32 t = take_bit 32 gen"
proof -
  have "(ucast t :: u32) = word_of_int fd"
    unfolding t_def by (rule bit_word_eqI) (auto simp: bit_simps)
  then show "token_fd t = fd"
    using assms(1,2) by (simp add: token_fd_def unsigned_of_int take_bit_int_eq_self)
  show "drop_bit 32 t = take_bit 32 gen"
    unfolding t_def by (rule bit_word_eqI) (auto simp: bit_simps dest: bit_imp_le_length)
qed

text \<open>
  A history of the backend: connections are accepted, under fresh names and on descriptors the
  kernel gave out (so not held by another open connection), and detached when they close.
\<close>

datatype fd_op = Accept int nat bool | Detach nat

fun fd_step :: "fd_op \<Rightarrow> platform \<Rightarrow> platform" where
  "fd_step (Accept fd c registered) p = accept_one fd c registered p"
| "fd_step (Detach c) p = detach c p"

fun fd_guard :: "nat set \<Rightarrow> fd_op \<Rightarrow> platform \<Rightarrow> bool" where
  "fd_guard used (Accept fd c registered) p \<longleftrightarrow>
     0 \<le> fd \<and> fd < 2 ^ 31 \<and> c \<notin> used \<and> connectionAt p fd = None"
| "fd_guard used (Detach c) p \<longleftrightarrow> 0 \<le> fd_of p c \<and> connectionAt p (fd_of p c) = Some c"

inductive fd_reach :: "nat \<Rightarrow> nat set \<Rightarrow> platform \<Rightarrow> bool" where
  fd_new: "fd_reach 0 {} new_platform"
| fd_accept: "fd_reach n used p \<Longrightarrow> fd_guard used (Accept fd c r) p \<Longrightarrow>
     fd_reach (Suc n) (insert c used) (fd_step (Accept fd c r) p)"
| fd_detach: "fd_reach n used p \<Longrightarrow> fd_guard used (Detach c) p \<Longrightarrow> fd_reach n used (fd_step (Detach c) p)"

definition gen_at :: "nat \<Rightarrow> u64" where
  "gen_at k = take_bit 32 (firstGeneration + of_nat k + 1)"

definition tokens_inv :: "nat \<Rightarrow> nat set \<Rightarrow> platform \<Rightarrow> bool" where
  "tokens_inv n used p \<longleftrightarrow>
     table_ok p \<and> nextGeneration p = firstGeneration + of_nat n \<and>
     (\<exists>ix. inj_on ix used \<and> (\<forall>c \<in> used. ix c < n \<and> drop_bit 32 (token_of p c) = gen_at (ix c))) \<and>
     (\<forall>fd c. connectionAt p fd = Some c \<longrightarrow> c \<in> used \<and> fd_of p c = fd \<and> token_fd (token_of p c) = fd)"

lemma unat_gen_at: "k + 4 < 2 ^ 32 \<Longrightarrow> unat (gen_at k) = k + 4"
proof -
  assume k: "k + 4 < 2 ^ 32"
  have "(firstGeneration + of_nat k + 1 :: u64) = of_nat (k + 4)" by (simp add: firstGeneration_def)
  moreover from k have "unat (of_nat (k + 4) :: u64) = k + 4"
    by (simp only: unsigned_of_nat) (simp add: take_bit_nat_eq_self)
  ultimately show ?thesis using k
    unfolding gen_at_def by (simp only: unsigned_take_bit_eq) (simp add: take_bit_nat_eq_self)
qed

lemma connectionAt_fields [simp]:
  "connectionAt (p\<lparr>nextGeneration := g\<rparr>) = connectionAt p"
  "connectionAt (p\<lparr>token_of := t\<rparr>) = connectionAt p"
  "connectionAt (p\<lparr>fd_of := f\<rparr>) = connectionAt p"
  by (simp_all add: connectionAt_def fun_eq_iff Let_def)

lemma table_ok_fields [simp]:
  "table_ok (p\<lparr>nextGeneration := g\<rparr>) = table_ok p"
  "table_ok (p\<lparr>token_of := t\<rparr>) = table_ok p"
  "table_ok (p\<lparr>fd_of := f\<rparr>) = table_ok p"
  by (simp_all add: table_ok_def)

lemma track_fields [simp]:
  "nextGeneration (trackConnection fd c p) = nextGeneration p"
  "token_of (trackConnection fd c p) = token_of p"
  "fd_of (trackConnection fd c p) = fd_of p"
  by (simp_all add: trackConnection_def Let_def)

lemma detach_fields [simp]:
  "nextGeneration (detach c p) = nextGeneration p"
  "token_of (detach c p) = token_of p"
  "fd_of (detach c p) = (fd_of p)(c := -1)"
  by (simp_all add: detach_def Let_def split: option.splits)

lemma accept_inv:
  assumes inv: "tokens_inv n used p" and g: "fd_guard used (Accept fd c r) p"
  shows "tokens_inv (Suc n) (insert c used) (accept_one fd c r p)"
proof -
  let ?gen = "nextGeneration p + 1"
  let ?tok = "ucast (word_of_int fd :: u32) OR push_bit 32 ?gen :: u64"
  let ?p1 = "p\<lparr>nextGeneration := ?gen, token_of := (token_of p)(c := ?tok), fd_of := (fd_of p)(c := fd)\<rparr>"
  from g have fd: "0 \<le> fd" "fd < 2 ^ 32" and c: "c \<notin> used" by auto
  from inv have ok: "table_ok ?p1" by (simp add: tokens_inv_def)
  obtain ix where ix: "inj_on ix used" "\<forall>c \<in> used. ix c < n \<and> drop_bit 32 (token_of p c) = gen_at (ix c)"
    using inv by (auto simp: tokens_inv_def)
  have at: "connectionAt (accept_one fd c r p) fd' = (if r \<and> fd' = fd then Some c else connectionAt p fd')" for fd'
    using lookup_track [OF ok fd(1)] by (auto simp: accept_one_def Let_def)
  have f: "token_of (accept_one fd c r p) = (token_of p)(c := ?tok)" "fd_of (accept_one fd c r p) = (fd_of p)(c := fd)"
    "nextGeneration (accept_one fd c r p) = ?gen" "table_ok (accept_one fd c r p)"
    using ok track_ok [OF ok fd(1)] by (auto simp: accept_one_def Let_def)
  have tok: "token_fd ?tok = fd" "drop_bit 32 ?tok = gen_at n"
    using token_parts [OF fd, of ?gen] inv by (simp_all add: tokens_inv_def gen_at_def)
  have "inj_on (ix(c := n)) (insert c used)" using ix c by (auto simp: inj_on_def)
  moreover have "\<forall>c' \<in> insert c used. (ix(c := n)) c' < Suc n \<and>
      drop_bit 32 (token_of (accept_one fd c r p) c') = gen_at ((ix(c := n)) c')"
    using ix tok c by (auto simp: f less_SucI)
  ultimately have "\<exists>ix. inj_on ix (insert c used) \<and> (\<forall>c' \<in> insert c used. ix c' < Suc n \<and>
      drop_bit 32 (token_of (accept_one fd c r p) c') = gen_at (ix c'))" by blast
  then show ?thesis using inv c tok f(4)
    unfolding tokens_inv_def at f(1-3) by (auto split: if_splits)
qed

lemma detach_inv:
  assumes "tokens_inv n used p" "fd_guard used (Detach c) p"
  shows "tokens_inv n used (detach c p)"
proof -
  from assms have t: "table_ok p" "0 \<le> fd_of p c" "connectionAt p (fd_of p c) = Some c"
    by (auto simp: tokens_inv_def)
  show ?thesis
    using assms(1) detach_table(1) [OF t] unfolding tokens_inv_def detach_table(2) [OF t] detach_fields
    by auto
qed

lemma fd_reach_inv: "fd_reach n used p \<Longrightarrow> tokens_inv n used p"
proof (induction rule: fd_reach.induct)
  case fd_new
  show ?case using new_platform_table by (auto simp: tokens_inv_def) (simp add: new_platform_def)
qed (auto intro: accept_inv detach_inv)

section \<open>Properties\<close>



text \<open>
  C11. Stale events: while fewer than \<open>2 ^ 32 - 4\<close> connections were accepted, the token of a
  connection resolves to that connection as long as it holds its descriptor and to nothing after
  it was detached, even when the descriptor has been given to another connection since; and no
  connection token is taken for the token of a listener, of the wake-up descriptor or of a UDP
  socket.
\<close>

theorem stale_tokens_resolve_to_nothing:
  assumes "fd_reach n used p" "n + 4 \<le> 2 ^ 32" "c \<in> used"
  shows "connectionFor p (token_of p c) = (if connectionAt p (fd_of p c) = Some c then Some c else None) \<and>
    drop_bit 32 (token_of p c) \<notin> {listenerKind, wakeKind, udpKind}"
proof -
  note inv = fd_reach_inv [OF assms(1), unfolded tokens_inv_def]
  then obtain ix where ix: "inj_on ix used" "\<forall>c \<in> used. ix c < n \<and> drop_bit 32 (token_of p c) = gen_at (ix c)"
    by blast
  have gen: "unat (drop_bit 32 (token_of p c)) = ix c + 4" if "c \<in> used" for c
  proof -
    from ix(2) that have "ix c < n" "drop_bit 32 (token_of p c) = gen_at (ix c)" by blast+
    with assms(2) unat_gen_at [of "ix c"] show ?thesis by simp
  qed
  have same: "c' = c" if "c' \<in> used" "token_of p c' = token_of p c" for c'
  proof -
    have "ix c' = ix c" using gen [OF that(1)] gen [OF assms(3)] that(2) by (metis add_right_cancel)
    then show ?thesis using ix(1) that(1) assms(3) by (metis inj_on_eq_iff)
  qed
  have held: "c' \<in> used" "fd_of p c' = fd" "token_fd (token_of p c') = fd" if "connectionAt p fd = Some c'" for fd c'
    using inv that by blast+
  have "connectionFor p (token_of p c) = (if connectionAt p (fd_of p c) = Some c then Some c else None)"
  proof (cases "connectionAt p (fd_of p c) = Some c")
    case True
    with held(3) [OF True] show ?thesis by (simp add: connectionFor_def)
  next
    case False
    have "c' \<noteq> c \<and> token_of p c' \<noteq> token_of p c" if "connectionAt p (token_fd (token_of p c)) = Some c'" for c'
      using held [OF that] same False that by metis
    with False show ?thesis by (simp add: connectionFor_def split: option.split)
  qed
  moreover have "drop_bit 32 (token_of p c) \<notin> {listenerKind, wakeKind, udpKind}"
  proof
    assume "drop_bit 32 (token_of p c) \<in> {listenerKind, wakeKind, udpKind}"
    then have "unat (drop_bit 32 (token_of p c)) \<in> {0, 1, 2}"
      unfolding listenerKind_def wakeKind_def udpKind_def by (elim insertE emptyE) (simp_all only:, simp_all)
    with gen [OF assms(3)] show False by simp
  qed
  ultimately show ?thesis by blast
qed

text \<open>Connection 1 had descriptor 7 and closed; connection 2 has descriptor 7 now.\<close>

lemma demo_reuse:
  defines "p1 \<equiv> accept_one 7 1 True new_platform"
  defines "p2 \<equiv> accept_one 7 2 True (detach 1 p1)"
  shows "fd_reach 2 {2, 1} p2 \<and> fd_of p2 1 = -1 \<and> connectionAt p2 7 = Some 2"
proof -
  have t0: "table_ok (p\<lparr>nextGeneration := g, token_of := t, fd_of := f\<rparr>) = table_ok p" for p g t f by simp
  have r1: "fd_reach 1 {1} p1"
    using fd_accept [OF fd_new, of 7 1 True] new_platform_table by (simp add: p1_def)
  have a1: "connectionAt p1 7 = Some 1" "fd_of p1 1 = 7"
    using new_platform_table(1) by (simp_all add: p1_def accept_one_def lookup_track Let_def)
  have ok1: "table_ok p1" using fd_reach_inv [OF r1] by (simp add: tokens_inv_def)
  have r2: "fd_reach 1 {1} (detach 1 p1)" using fd_detach [OF r1, of 1] a1 by simp
  have a2: "connectionAt (detach 1 p1) 7 = None" "table_ok (detach 1 p1)"
    using detach_table [OF ok1, of 1] a1 by simp_all
  have "fd_reach 2 {2, 1} p2"
    using fd_accept [OF r2, of 7 2 True] a2 by (simp add: p2_def numeral_2_eq_2)
  then show ?thesis using a2 by (simp add: p2_def accept_one_def lookup_track Let_def)
qed

theorem stale_tokens_resolve_to_nothing_witness:
  "let p2 = accept_one 7 2 True (detach 1 (accept_one 7 1 True new_platform)) in
   connectionFor p2 (token_of p2 1) = None \<and> connectionAt p2 7 = Some 2"
proof -
  let ?p2 = "accept_one 7 2 True (detach 1 (accept_one 7 1 True new_platform))"
  have r: "fd_reach 2 {2, 1} ?p2" and f: "fd_of ?p2 1 = -1" "connectionAt ?p2 7 = Some 2"
    using demo_reuse by simp_all
  from stale_tokens_resolve_to_nothing [OF r, of 1] f show ?thesis
    by (simp add: connectionAt_negative Let_def)
qed

text \<open>The bound is needed: the generation after \<open>2 ^ 32 - 1\<close> is cut to the kind of a listener.\<close>

theorem token_generation_wraps:
  assumes "nextGeneration p = 2 ^ 32 - 1"
  shows "token_of (accept_one fd c r p) c = listenerToken fd"
proof -
  have "nextGeneration p + 1 = 2 ^ 32" using assms by simp
  moreover have "push_bit 32 (2 ^ 32 :: u64) = 0" by (simp add: push_bit_eq_mult flip: power_add)
  ultimately have "push_bit 32 (nextGeneration p + 1) = 0" by metis
  then show ?thesis by (simp add: accept_one_def listenerToken_def listenerKind_def Let_def)
qed

end
