(* ===== verification/Engine_Loop.thy ===== *)
theory Engine_Loop
  imports Conn_Rounds Fd_Table
begin

text \<open>
  The event loop's side of the engine, \<open>src/go/engine.go\<close>, over all its connections: backpressure
  (\<open>refreshConnection\<close>, \<open>resumeBudgetPaused\<close>), closing (\<open>closeConnection\<close>), the command queue
  (\<open>drainCommands\<close>), dials (\<open>src/go/dial.go\<close>, \<open>src/go/dial_unix.go\<close>), UDP peers and their idle sweep
  (\<open>src/go/udp.go\<close>), and handing a round's connections to the pool (\<open>runReady\<close>, \<open>submitReady\<close>).

  What is shown: the engine-wide total of pending bytes is the sum over the connections in every
  reachable state, a close gives back its share, the statistics count the paused connections, a
  dial reports its outcome exactly once, and resuming lifts every pause that only the budget caused.
\<close>

section \<open>State\<close>

datatype callback = OnOpen nat | OnClose nat "goerr option"
  | DialDone nat "nat option" "goerr option" | SetReadPaused nat bool

text \<open>
  Connections are named by numbers; \<open>ids\<close> lists those that were made. \<open>peer_of\<close> is the listener
  and address of a UDP peer, \<open>peers\<close> the peer table of each listener. \<open>calls\<close> is the trace of what
  the application and the backend were told. \<open>batch\<close> is the command batch that \<open>drainCommands\<close> holds,
  and \<open>dials\<close> lists the dials that were requested.
\<close>

record world =
  eng :: engine
  conns :: "nat \<Rightarrow> conn"
  ids :: "nat list"
  plat :: platform
  peer_of :: "nat \<Rightarrow> (nat \<times> nat) option"
  peers :: "nat \<Rightarrow> nat \<Rightarrow> nat option"
  lastActive :: "nat \<Rightarrow> int"
  idleTimeout :: int
  batch :: "command list"
  dials :: "nat list"
  calls :: "callback list"

definition st_of :: "nat \<Rightarrow> world \<Rightarrow> st" where
  "st_of i w = (eng w, conns w i)"

definition put :: "nat \<Rightarrow> st \<Rightarrow> world \<Rightarrow> world" where
  "put i s w = w\<lparr>eng := fst s, conns := (conns w)(i := snd s)\<rparr>"

definition call :: "callback \<Rightarrow> world \<Rightarrow> world" where
  "call cb w = w\<lparr>calls := calls w @ [cb]\<rparr>"

section \<open>Closing\<close>

text \<open>\<open>detach\<close>: a UDP peer leaves its listener's table, any other connection its descriptor.\<close>

definition detach_conn :: "nat \<Rightarrow> world \<Rightarrow> world" where
  "detach_conn i w =
     (case peer_of w i of
        Some (l, key) \<Rightarrow>
          (if peers w l key = Some i
           then w\<lparr>peers := (peers w)(l := (peers w l)(key := None))\<rparr> else w)
      | None \<Rightarrow> w\<lparr>plat := detach i (plat w)\<rparr>)"

definition failDial :: "nat \<Rightarrow> goerr \<Rightarrow> world \<Rightarrow> world" where
  "failDial i err w =
     (case dialing (conns w i) of
        None \<Rightarrow> w
      | Some d \<Rightarrow>
          (let c = (conns w i)\<lparr>dialing := None, closing := True, closed := True\<rparr>
           in call (DialDone d None (Some err)) (detach_conn i (put i (eng w, c) w))))"

definition completeDial :: "nat \<Rightarrow> world \<Rightarrow> world" where
  "completeDial i w =
     (case dialing (conns w i) of
        None \<Rightarrow> w
      | Some d \<Rightarrow>
          call (DialDone d (Some i) None)
            (call (OnOpen i) (put i (eng w, (conns w i)\<lparr>dialing := None\<rparr>) w)))"

text \<open>The buffers of an abandoned queue go back to the pool, the connection's share to the budget.\<close>

definition release_queue :: "st \<Rightarrow> st" where
  "release_queue s =
     fold releaseItemLocked [sendHead (snd s)..<length (sends (snd s))] s"

definition abandon :: "st \<Rightarrow> st" where
  "abandon s =
     (let (e, c) = release_queue (fst s, (snd s)\<lparr>closed := True, closing := True\<rparr>);
          e' = (if pendingBytes c > 0 then e\<lparr>pendingTotal := pendingTotal e - pendingBytes c\<rparr> else e)
      in (e', c\<lparr>sends := [], sendHead := 0, budgetPaused := False, pendingBytes := 0\<rparr>))"

definition closeConnection :: "nat \<Rightarrow> goerr option \<Rightarrow> bool \<Rightarrow> world \<Rightarrow> world" where
  "closeConnection i err callback w =
     (if dialing (conns w i) \<noteq> None
      then failDial i (case err of None \<Rightarrow> NetErrClosed | Some e \<Rightarrow> e) w
      else if closed (conns w i) then w
      else
        (let w1 = detach_conn i (put i (abandon (st_of i w)) w)
         in if callback then call (OnClose i err) w1 else w1))"

section \<open>Backpressure\<close>

text \<open>
  The critical section of \<open>refreshConnection\<close>, value by value: whether reads are to be paused and
  whether the budget forces it, whether that is a change, whether the connection goes on the
  budget's list, whether a stalled read is handed back, and the connection it leaves.
\<close>

definition usable :: "conn \<Rightarrow> bool" where
  "usable c \<longleftrightarrow> \<not> closing c \<and> \<not> closed c"

definition refresh_pause :: "st \<Rightarrow> bool" where
  "refresh_pause s = fst (pauseDecision s (readPaused (snd s)))"

definition refresh_byBudget :: "st \<Rightarrow> bool" where
  "refresh_byBudget s = snd (pauseDecision s (readPaused (snd s)))"

definition refresh_changed :: "st \<Rightarrow> bool" where
  "refresh_changed s \<longleftrightarrow> readPaused (snd s) \<noteq> refresh_pause s"

definition refresh_track :: "st \<Rightarrow> bool" where
  "refresh_track s \<longleftrightarrow>
     usable (snd s) \<and> refresh_pause s \<and> refresh_byBudget s \<and> \<not> budgetPaused (snd s)"

definition refresh_redeliver :: "st \<Rightarrow> bool" where
  "refresh_redeliver s \<longleftrightarrow>
     readStalled (snd s) \<and> \<not> refresh_pause s \<and> usable (snd s) \<and> \<not> refresh_changed s"

definition refresh_locked :: "st \<Rightarrow> conn" where
  "refresh_locked s =
     (snd s)\<lparr>readPaused := refresh_pause s,
       budgetPaused := refresh_pause s \<and> (refresh_track s \<or> budgetPaused (snd s)),
       readStalled := readStalled (snd s) \<and> refresh_pause s\<rparr>"

definition count_change :: "bool \<Rightarrow> bool \<Rightarrow> engine \<Rightarrow> engine" where
  "count_change pauseReads byBudget e =
     (if \<not> pauseReads then e\<lparr>readsResumed := readsResumed e + 1\<rparr>
      else if byBudget then e\<lparr>readsPausedByBudget := readsPausedByBudget e + 1\<rparr>
      else e\<lparr>readsPausedByWatermark := readsPausedByWatermark e + 1\<rparr>)"

text \<open>Everything up to the call of \<open>setReadPaused\<close>.\<close>

definition refresh_st :: "nat \<Rightarrow> st \<Rightarrow> st" where
  "refresh_st i s =
     (let c = refresh_locked s;
          (submit, c1) = (if refresh_redeliver s then noteEvent evIn c else (False, c));
          e1 = (if submit then (fst s)\<lparr>redeliver := redeliver (fst s) @ [i]\<rparr> else fst s);
          e2 = (if refresh_track s then e1\<lparr>budgetPausedQ := budgetPausedQ e1 @ [i]\<rparr> else e1);
          e3 = (if refresh_changed s then count_change (refresh_pause s) (refresh_byBudget s) e2 else e2)
      in (e3, c1))"

text \<open>\<open>ctl\<close> is what \<open>epoll_ctl\<close> answers to \<open>setReadPaused\<close>.\<close>

definition refreshConnection :: "(nat \<Rightarrow> bool \<Rightarrow> goerr option) \<Rightarrow> nat \<Rightarrow> world \<Rightarrow> world" where
  "refreshConnection ctl i w =
     (let s = st_of i w;
          w1 = put i (refresh_st i s) w
      in if usable (snd s) \<and> refresh_changed s then
           (let w2 = call (SetReadPaused i (refresh_pause s)) w1
            in case ctl i (refresh_pause s) of
                 None \<Rightarrow> w2
               | Some err \<Rightarrow> put i (closeWithError (Some err) (st_of i w2)) w2)
         else w1)"

text \<open>\<open>resumeBudgetPaused\<close> walks the list it swapped out.\<close>

definition resume_one :: "(nat \<Rightarrow> bool \<Rightarrow> goerr option) \<Rightarrow> nat \<Rightarrow> world \<Rightarrow> world" where
  "resume_one ctl i w =
     refreshConnection ctl i (put i (eng w, (conns w i)\<lparr>budgetPaused := False\<rparr>) w)"

definition resumeBudgetPaused :: "(nat \<Rightarrow> bool \<Rightarrow> goerr option) \<Rightarrow> world \<Rightarrow> world" where
  "resumeBudgetPaused ctl w =
     (if budgetPausedQ (eng w) = [] \<or> pendingTotal (eng w) > budgetResumeBytes (eng w) then w
      else fold (resume_one ctl) (budgetPausedQ (eng w)) (w\<lparr>eng := (eng w)\<lparr>budgetPausedQ := []\<rparr>\<rparr>))"

section \<open>Handing a round to the workers\<close>

text \<open>
  \<open>submitReady\<close> of the connections the round made runnable: the pool accepted the first
  \<open>accepted\<close> of them, the others are given up.
\<close>

definition submitReady :: "nat \<Rightarrow> nat list \<Rightarrow> world \<Rightarrow> nat list \<times> world" where
  "submitReady accepted ready w =
     (take accepted ready,
      fold (\<lambda>i v. put i (reject_task (st_of i v)) v) (drop accepted ready) w)"

text \<open>
  \<open>runReady\<close>: resume, add what is redelivered, submit. The result lists the connections whose
  \<open>process\<close> runs next, on the workers or, with inline handlers, on the loop itself.
\<close>

definition runReady :: "(nat \<Rightarrow> bool \<Rightarrow> goerr option) \<Rightarrow> nat \<Rightarrow> nat list \<Rightarrow> world \<Rightarrow> nat list \<times> world" where
  "runReady ctl accepted ready w =
     (let w1 = resumeBudgetPaused ctl w;
          all = ready @ redeliver (eng w1);
          w2 = w1\<lparr>eng := (eng w1)\<lparr>redeliver := []\<rparr>\<rparr>
      in if all = [] then ([], w2)
         else if inlineHandlers (eng w2) then (all, w2)
         else submitReady accepted all w2)"

section \<open>Dials\<close>

text \<open>
  What the operating system answers while a dial runs: the socket, each \<open>connect\<close> until it is not
  interrupted, and the registration. \<open>d_err\<close> is the resolver's error, \<open>i\<close> the new connection.
\<close>

record dial_env =
  d_err :: "goerr option"
  d_udp :: bool
  d_socket :: "goerr + int"
  d_connect :: "errno option"
  d_register :: "goerr option"

definition new_conn :: "nat \<Rightarrow> bool \<Rightarrow> nat option \<Rightarrow> int \<Rightarrow> bool \<Rightarrow> world \<Rightarrow> world" where
  "new_conn i isUDP d fd registered w =
     w\<lparr>ids := ids w @ [i], conns := (conns w)(i := (newConnection i isUDP)\<lparr>dialing := d\<rparr>),
       plat := accept_one fd i registered (plat w)\<rparr>"

text \<open>\<open>acceptConnections\<close> for one accepted descriptor.\<close>

definition acceptConnection :: "int \<Rightarrow> nat \<Rightarrow> bool \<Rightarrow> world \<Rightarrow> world" where
  "acceptConnection fd i registered w =
     (if registered then call (OnOpen i) (new_conn i False None fd True w)
      else w\<lparr>plat := (plat w)\<lparr>nextGeneration := nextGeneration (plat w) + 1\<rparr>\<rparr>)"

definition connectSocket :: "nat \<Rightarrow> dial_env \<Rightarrow> nat \<Rightarrow> world \<Rightarrow> (goerr + bool) \<times> world" where
  "connectSocket d env i w =
     (case d_socket env of
        Inl err \<Rightarrow> (Inl err, w)
      | Inr fd \<Rightarrow>
          (if d_connect env = None \<or> \<not> d_udp env \<and> d_connect env \<in> {Some EINPROGRESS, Some EALREADY}
           then (case d_register env of
                   None \<Rightarrow> (Inr (d_connect env = None), new_conn i (d_udp env) (Some d) fd True w)
                 | Some err \<Rightarrow> (Inl err, w\<lparr>plat := (plat w)\<lparr>nextGeneration := nextGeneration (plat w) + 1\<rparr>\<rparr>))
           else (Inl (Sys (the (d_connect env))), w)))"

definition startDial :: "nat \<Rightarrow> dial_env \<Rightarrow> nat \<Rightarrow> world \<Rightarrow> world" where
  "startDial d env i w =
     (case d_err env of
        Some err \<Rightarrow> call (DialDone d None (Some err)) w
      | None \<Rightarrow>
          (if stopping (eng w) then call (DialDone d None (Some NetErrClosed)) w
           else (case connectSocket d env i w of
                   (Inl err, w1) \<Rightarrow> call (DialDone d None (Some err)) w1
                 | (Inr connected, w1) \<Rightarrow> (if connected then completeDial i w1 else w1))))"

definition expireDial :: "nat \<Rightarrow> nat \<Rightarrow> world \<Rightarrow> world" where
  "expireDial i d w =
     (if dialing (conns w i) = Some d then failDial i ErrDeadlineExceeded w else w)"

text \<open>
  \<open>finishDial\<close>: \<open>sock\<close> is what \<open>getsockopt\<close> says of the socket's error, \<open>peer\<close> whether
  \<open>getpeername\<close> finds a peer. The result says whether the connection needs a worker.
\<close>

definition dial_outcome :: "u32 \<Rightarrow> goerr option \<Rightarrow> errno + errno option \<Rightarrow> bool \<Rightarrow> goerr option option" where
  "dial_outcome events reported sock peer =
     (case sock of
        Inl e \<Rightarrow> Some (Some (Sys e))
      | Inr None \<Rightarrow>
          (case reported of
             Some err \<Rightarrow> Some (Some err)
           | None \<Rightarrow> (if peer then Some None
                      else if events AND (evErr OR evHup) = 0 then None
                      else Some (Some (Sys ECONNREFUSED))))
      | Inr (Some e) \<Rightarrow>
          (if e \<in> {EINPROGRESS, EALREADY, EINTR} then None
           else if e \<noteq> EISCONN then Some (Some (Sys e))
           else (case reported of
                   Some err \<Rightarrow> Some (Some err)
                 | None \<Rightarrow> (if peer then Some None
                            else if events AND (evErr OR evHup) = 0 then None
                            else Some (Some (Sys ECONNREFUSED))))))"

definition finishDial ::
  "nat \<Rightarrow> u32 \<Rightarrow> goerr option \<Rightarrow> errno + errno option \<Rightarrow> bool \<Rightarrow> world \<Rightarrow> bool \<times> world"
where
  "finishDial i events reported sock peer w =
     (case dial_outcome events reported sock peer of
        None \<Rightarrow> (False, w)
      | Some (Some err) \<Rightarrow> (False, failDial i err w)
      | Some None \<Rightarrow>
          (let w1 = completeDial i w;
               (submit, c) = noteEvent events (conns w1 i)
           in (submit, put i (eng w1, c) w1)))"

section \<open>UDP peers\<close>

definition udpPeer :: "int \<Rightarrow> nat \<Rightarrow> nat \<Rightarrow> nat \<Rightarrow> world \<Rightarrow> nat option \<times> world" where
  "udpPeer now l key i w =
     (case peers w l key of
        Some c \<Rightarrow> (Some c, w)
      | None \<Rightarrow>
          (if stopping (eng w) then (None, w)
           else (Some i, call (OnOpen i)
                   (w\<lparr>ids := ids w @ [i], conns := (conns w)(i := newConnection i True),
                      peer_of := (peer_of w)(i := Some (l, key)), lastActive := (lastActive w)(i := now),
                      peers := (peers w)(l := (peers w l)(key := Some i))\<rparr>))))"

text \<open>One datagram from the peer at \<open>key\<close>: find or open its connection and queue it there.\<close>

definition readUDPListener_one :: "int \<Rightarrow> nat \<Rightarrow> nat \<Rightarrow> nat \<Rightarrow> bytes \<Rightarrow> world \<Rightarrow> nat option \<times> world" where
  "readUDPListener_one now l key i d w =
     (case udpPeer now l key i w of
        (None, w1) \<Rightarrow> (None, w1)
      | (Some c, w1) \<Rightarrow>
          (let (submit, k) = deliverDatagram d (conns w1 c);
               full = (closing (conns w1 c) \<or> closed (conns w1 c) \<or>
                       length (udp_queue (conns w1 c)) - udp_head (conns w1 c) \<ge> maxQueuedDatagrams);
               w2 = put c (eng w1, k) w1
           in (if submit then Some c else None,
               if full then w2 else w2\<lparr>lastActive := (lastActive w2)(c := now)\<rparr>)))"

text \<open>\<open>sweepUDP\<close>: \<open>keys\<close> is the order in which the listeners' maps are walked.\<close>

definition sweep_one :: "int \<Rightarrow> nat \<times> nat \<Rightarrow> world \<Rightarrow> world" where
  "sweep_one now lk w =
     (case peers w (fst lk) (snd lk) of
        None \<Rightarrow> w
      | Some c \<Rightarrow>
          (if now - lastActive w c \<ge> idleTimeout w then closeConnection c (Some ErrUDPIdleTimeout) True w
           else w))"

definition sweepUDP :: "int \<Rightarrow> (nat \<times> nat) list \<Rightarrow> world \<Rightarrow> world" where
  "sweepUDP now keys w = (if idleTimeout w \<le> 0 then w else fold (sweep_one now) keys w)"

section \<open>Commands\<close>

text \<open>
  The outside of a batch: what \<open>epoll_ctl\<close> answers, the environment and the new connection of each
  dial, the time and the order of a sweep.
\<close>

record outside =
  o_ctl :: "nat \<Rightarrow> bool \<Rightarrow> goerr option"
  o_dial :: "nat \<Rightarrow> dial_env"
  o_conn :: "nat \<Rightarrow> nat"
  o_now :: int
  o_keys :: "(nat \<times> nat) list"

definition run_command :: "outside \<Rightarrow> command \<Rightarrow> world \<Rightarrow> world" where
  "run_command out cmd w =
     (case cmd of
        CommandClose i err \<Rightarrow> closeConnection i err True w
      | CommandDial d \<Rightarrow> startDial d (o_dial out d) (o_conn out d) w
      | CommandDialTimeout i d \<Rightarrow> expireDial i d w
      | CommandUDPSweep \<Rightarrow> sweepUDP (o_now out) (o_keys out) w
      | CommandRefresh i \<Rightarrow> refreshConnection (o_ctl out) i w)"

text \<open>The start of \<open>drainCommands\<close>: acknowledge the wake-up, re-arm it, and take the batch.\<close>

definition take_batch :: "world \<Rightarrow> world" where
  "take_batch w =
     (let e = (eng w)\<lparr>wakeFD := 0, wakePending := False\<rparr>
      in w\<lparr>eng := e\<lparr>commands := None\<rparr>, batch := (case commands e of None \<Rightarrow> [] | Some xs \<Rightarrow> xs)\<rparr>)"

definition run_batch :: "outside \<Rightarrow> world \<Rightarrow> world" where
  "run_batch out w = fold (run_command out) (batch w) (w\<lparr>batch := []\<rparr>)"

definition drainCommands :: "outside \<Rightarrow> world \<Rightarrow> world" where
  "drainCommands out w = run_batch out (take_batch w)"

definition closeCommands :: "outside \<Rightarrow> world \<Rightarrow> world" where
  "closeCommands out w = drainCommands out (w\<lparr>eng := (eng w)\<lparr>commandsClosed := True\<rparr>\<rparr>)"

text \<open>\<open>requestDial\<close> fails the dial on the spot when the engine has closed its queue.\<close>

definition requestDial :: "nat \<Rightarrow> world \<Rightarrow> world" where
  "requestDial d w =
     (let (accepted, e) = request (CommandDial d) (eng w);
          w1 = w\<lparr>dials := d # dials w\<rparr>
      in if accepted then w1\<lparr>eng := e\<rparr> else call (DialDone d None (Some NetErrClosed)) w1)"

text \<open>\<open>Close\<close> of the engine: the last batch, then every connection and peer, without callbacks.\<close>

definition Engine_Close :: "outside \<Rightarrow> world \<Rightarrow> world" where
  "Engine_Close out w =
     (let w1 = closeCommands out (w\<lparr>eng := notify ((eng w)\<lparr>stopping := True\<rparr>)\<rparr>);
          w2 = fold (\<lambda>i. closeConnection i None False) (ids w1) w1
      in w2\<lparr>eng := (eng w2)\<lparr>budgetPausedQ := []\<rparr>\<rparr>)"

definition newWorld :: "config \<Rightarrow> world" where
  "newWorld cfg =
     \<lparr>eng = newEngine cfg, conns = (\<lambda>i. newConnection i False), ids = [], plat = new_platform,
      peer_of = (\<lambda>_. None), peers = (\<lambda>_ _. None), lastActive = (\<lambda>_. 0),
      idleTimeout = udpIdleTimeout (UDPIdleTimeout cfg),
      batch = [], dials = [], calls = []\<rparr>"

section \<open>Accounting\<close>

text \<open>A step of one connection that keeps its books: what \<open>pendingBytes\<close> gains, the total gains.\<close>

definition conn_good :: "conn \<Rightarrow> bool" where
  "conn_good c \<longleftrightarrow> conn_inv c \<and> (closed c \<or> dialing c \<noteq> None \<longrightarrow> queued c = [])"

definition books :: "st \<Rightarrow> st \<Rightarrow> bool" where
  "books s s' \<longleftrightarrow>
     conn_good (snd s') \<and>
     pendingTotal (fst s') - pendingBytes (snd s') = pendingTotal (fst s) - pendingBytes (snd s)"

definition acct :: "world \<Rightarrow> bool" where
  "acct w \<longleftrightarrow>
     distinct (ids w) \<and> (\<forall>i. conn_good (conns w i)) \<and>
     (\<forall>i. i \<notin> set (ids w) \<longrightarrow> pendingBytes (conns w i) = 0) \<and>
     pendingTotal (eng w) = (\<Sum>i \<in> set (ids w). pendingBytes (conns w i))"

lemma put_simps [simp]:
  "eng (put i s w) = fst s" "conns (put i s w) = (conns w)(i := snd s)" "ids (put i s w) = ids w"
  "plat (put i s w) = plat w" "peer_of (put i s w) = peer_of w" "peers (put i s w) = peers w"
  "batch (put i s w) = batch w" "dials (put i s w) = dials w" "calls (put i s w) = calls w" "idleTimeout (put i s w) = idleTimeout w"
  "lastActive (put i s w) = lastActive w"
  by (simp_all add: put_def)

lemma call_simps [simp]:
  "eng (call cb w) = eng w" "conns (call cb w) = conns w" "ids (call cb w) = ids w"
  "plat (call cb w) = plat w" "peer_of (call cb w) = peer_of w" "peers (call cb w) = peers w"
  "batch (call cb w) = batch w" "dials (call cb w) = dials w" "calls (call cb w) = calls w @ [cb]" "idleTimeout (call cb w) = idleTimeout w"
  by (simp_all add: call_def)

lemma st_of_simps [simp]: "fst (st_of i w) = eng w" "snd (st_of i w) = conns w i"
  by (simp_all add: st_of_def)

lemma detach_conn_simps [simp]:
  "eng (detach_conn i w) = eng w" "conns (detach_conn i w) = conns w" "ids (detach_conn i w) = ids w"
  "batch (detach_conn i w) = batch w" "dials (detach_conn i w) = dials w" "calls (detach_conn i w) = calls w"
  "idleTimeout (detach_conn i w) = idleTimeout w" "peer_of (detach_conn i w) = peer_of w"
  by (simp_all add: detach_conn_def split: option.splits prod.splits)

lemma acct_eq:
  assumes "ids w' = ids w" "conns w' = conns w" "pendingTotal (eng w') = pendingTotal (eng w)"
  shows "acct w' = acct w"
  using assms by (simp add: acct_def)

lemma acct_fields [simp]:
  "acct (w\<lparr>lastActive := f\<rparr>) = acct w" "acct (w\<lparr>batch := b\<rparr>) = acct w" "acct (w\<lparr>plat := p\<rparr>) = acct w"
  by (simp_all add: acct_def)

lemma sum_update:
  fixes f :: "'b \<Rightarrow> int"
  assumes "finite A" "i \<in> A"
  shows "(\<Sum>j \<in> A. f ((g(i := x)) j)) = (\<Sum>j \<in> A. f (g j)) - f (g i) + f x"
proof -
  have "(\<Sum>j \<in> A - {i}. f ((g(i := x)) j)) = (\<Sum>j \<in> A - {i}. f (g j))"
    by (rule sum.cong) auto
  then show ?thesis using assms by (simp add: sum.remove [of A i])
qed

lemma acct_put:
  assumes w: "acct w" and b: "books (st_of i w) s" and i: "i \<in> set (ids w) \<or> pendingBytes (snd s) = 0"
  shows "acct (put i s w)"
proof -
  let ?cs = "(conns w)(i := snd s)"
  have "(\<Sum>j \<in> set (ids w). pendingBytes (?cs j)) = (\<Sum>j \<in> set (ids w). pendingBytes (conns w j))"
    if "i \<notin> set (ids w)" using that by (intro sum.cong) auto
  then have "pendingTotal (fst s) = (\<Sum>j \<in> set (ids w). pendingBytes (?cs j))"
    using w b i by (cases "i \<in> set (ids w)") (auto simp: acct_def books_def sum_update simp del: fun_upd_apply)
  moreover have "\<forall>j. conn_good (?cs j)" "\<forall>j. j \<notin> set (ids w) \<longrightarrow> pendingBytes (?cs j) = 0"
    using w b i by (auto simp: acct_def books_def)
  ultimately show ?thesis using w by (simp add: acct_def del: fun_upd_apply)
qed

lemma acct_put_same:
  assumes "acct w" "books (st_of i w) s" "pendingBytes (snd s) = pendingBytes (conns w i) \<or> pendingBytes (snd s) = 0"
  shows "acct (put i s w)"
proof (rule acct_put [OF assms(1,2)])
  show "i \<in> set (ids w) \<or> pendingBytes (snd s) = 0" using assms(1,3) by (auto simp: acct_def)
qed

lemma books_frame:
  assumes "conn_good (snd s)"
    and "sends (snd s') = sends (snd s)" "sendHead (snd s') = sendHead (snd s)"
    and "pendingBytes (snd s') = pendingBytes (snd s)" "pendingTotal (fst s') = pendingTotal (fst s)"
    and "closed (snd s') = closed (snd s)" "dialing (snd s') = dialing (snd s)"
  shows "books s s'"
  using assms by (simp add: books_def conn_good_def conn_inv_def queue_ok_def queued_def)

lemma conn_good_frame:
  "conn_good c \<Longrightarrow> sends c' = sends c \<Longrightarrow> sendHead c' = sendHead c \<Longrightarrow> pendingBytes c' = pendingBytes c \<Longrightarrow>
   closed c' = closed c \<Longrightarrow> dialing c' = dialing c \<Longrightarrow> conn_good c'"
  by (simp add: conn_good_def conn_inv_def queue_ok_def queued_def)

text \<open>A closed connection accepts nothing.\<close>

lemma conn_step_closed: "conn_step xs s s' \<Longrightarrow> closed (snd s) \<Longrightarrow> xs = []"
  by (induction rule: conn_step.induct)
     (auto simp: send_def SendParts_def sendClosed_def Let_def split: if_splits)

lemma conn_step_books:
  assumes "conn_step xs s s'" "conn_good (snd s)" "dialing (snd s) = None"
  shows "books s s'"
proof -
  have st: "stream_step xs s s'" using conn_step_stream [OF assms(1)] assms(2) by (simp add: conn_good_def)
  have "queued (snd s') = []" if "closed (snd s')"
  proof -
    from st that have "closed (snd s)" by (simp add: stream_step_def)
    with assms conn_step_closed have "xs = []" "queued (snd s) = []" by (auto simp: conn_good_def)
    with st show ?thesis by (auto simp: stream_step_def)
  qed
  moreover have "dialing (snd s') = None" using conn_step_sched [OF assms(1)] assms(3) by (simp add: sched_same_def)
  ultimately show ?thesis using st by (auto simp: stream_step_def books_def conn_good_def)
qed

lemma release_queue_frame:
  "(\<forall>k \<in> set ks. k < length (sends (snd s))) \<Longrightarrow>
   \<exists>p xs. fold releaseItemLocked ks s = ((fst s)\<lparr>sendBufferPool := p\<rparr>, (snd s)\<lparr>sends := xs\<rparr>) \<and>
     length xs = length (sends (snd s))"
proof (induction ks arbitrary: s)
  case Nil
  show ?case by (intro exI [of _ "sendBufferPool (fst s)"] exI [of _ "sends (snd s)"]) simp
next
  case (Cons k ks)
  have "\<exists>p. releaseItemLocked k s = ((fst s)\<lparr>sendBufferPool := p\<rparr>, (snd s)\<lparr>sends := (sends (snd s))[k := empty_item]\<rparr>)"
    by (rule exI [of _ "sendBufferPool (fst (releaseItemLocked k s))"], cases s)
       (auto simp: releaseItemLocked_def releaseSendBuffer_def split: option.splits)
  then obtain p where p: "releaseItemLocked k s = ((fst s)\<lparr>sendBufferPool := p\<rparr>, (snd s)\<lparr>sends := (sends (snd s))[k := empty_item]\<rparr>)" ..
  from Cons.IH [of "releaseItemLocked k s"] Cons.prems p show ?case by auto
qed

lemma abandon_spec:
  assumes "conn_good (snd s)"
  shows "books s (abandon s)"
    and "\<exists>p. abandon s = ((fst s)\<lparr>sendBufferPool := p, pendingTotal := pendingTotal (fst s) - pendingBytes (snd s)\<rparr>,
       (snd s)\<lparr>closed := True, closing := True, sends := [], sendHead := 0, budgetPaused := False, pendingBytes := 0\<rparr>)"
proof -
  let ?s = "(fst s, (snd s)\<lparr>closed := True, closing := True\<rparr>)"
  obtain p xs where r: "release_queue ?s = ((fst s)\<lparr>sendBufferPool := p\<rparr>, (snd ?s)\<lparr>sends := xs\<rparr>)"
    using release_queue_frame [of "[sendHead (snd ?s)..<length (sends (snd ?s))]" ?s]
    by (auto simp: release_queue_def)
  have nn: "0 \<le> pendingBytes (snd s)" using assms by (simp add: conn_good_def conn_inv_def)
  have a: "abandon s = ((fst s)\<lparr>sendBufferPool := p, pendingTotal := pendingTotal (fst s) - pendingBytes (snd s)\<rparr>,
       (snd s)\<lparr>closed := True, closing := True, sends := [], sendHead := 0, budgetPaused := False, pendingBytes := 0\<rparr>)"
    unfolding abandon_def r using nn by auto
  then show "\<exists>p. abandon s = ((fst s)\<lparr>sendBufferPool := p, pendingTotal := pendingTotal (fst s) - pendingBytes (snd s)\<rparr>,
       (snd s)\<lparr>closed := True, closing := True, sends := [], sendHead := 0, budgetPaused := False, pendingBytes := 0\<rparr>)" ..
  show "books s (abandon s)"
    unfolding a by (simp add: books_def conn_good_def conn_inv_def queue_ok_def queued_def)
qed

lemma acct_good: "acct w \<Longrightarrow> conn_good (conns w i)"
  by (simp add: acct_def)

lemma acct_failDial:
  assumes "acct w"
  shows "acct (failDial i e w)"
proof (cases "dialing (conns w i)")
  case (Some d)
  let ?c = "(conns w i)\<lparr>dialing := None, closing := True, closed := True\<rparr>"
  have "books (st_of i w) (eng w, ?c)"
    using acct_good [OF assms, of i] Some
    by (simp add: books_def conn_good_def conn_inv_def queue_ok_def queued_def)
  then have "acct (put i (eng w, ?c) w)" by (rule acct_put_same [OF assms]) simp
  moreover have "acct (failDial i e w) = acct (put i (eng w, ?c) w)"
    by (rule acct_eq) (simp_all add: failDial_def Some)
  ultimately show ?thesis by simp
qed (use assms in \<open>simp add: failDial_def\<close>)

lemma acct_closeConnection:
  assumes "acct w"
  shows "acct (closeConnection i err cb w)"
proof (cases "dialing (conns w i) \<noteq> None \<or> closed (conns w i)")
  case True
  with acct_failDial [OF assms] assms show ?thesis by (auto simp: closeConnection_def)
next
  case False
  note g = acct_good [OF assms, of i]
  have "pendingBytes (snd (abandon (st_of i w))) = 0" using abandon_spec(2) [of "st_of i w"] g by auto
  then have "acct (put i (abandon (st_of i w)) w)"
    by (intro acct_put_same [OF assms abandon_spec(1)]) (simp_all add: g)
  moreover have "acct (closeConnection i err cb w) = acct (put i (abandon (st_of i w)) w)"
    by (rule acct_eq) (use False in \<open>simp_all add: closeConnection_def Let_def\<close>)
  ultimately show ?thesis by simp
qed

lemma noteEvent_frame:
  "sends (snd (noteEvent ev c)) = sends c" "sendHead (snd (noteEvent ev c)) = sendHead c"
  "pendingBytes (snd (noteEvent ev c)) = pendingBytes c" "closed (snd (noteEvent ev c)) = closed c"
  "dialing (snd (noteEvent ev c)) = dialing c" "readPaused (snd (noteEvent ev c)) = readPaused c"
  "closing (snd (noteEvent ev c)) = closing c" "budgetPaused (snd (noteEvent ev c)) = budgetPaused c"
  by (simp_all add: noteEvent_def Let_def)

lemma refreshConnection_cases:
  fixes ctl i w
  defines "w1 \<equiv> put i (refresh_st i (st_of i w)) w"
  shows "refreshConnection ctl i w = w1 \<or>
    (\<exists>p. refreshConnection ctl i w = call (SetReadPaused i p) w1) \<or>
    (\<exists>p err. refreshConnection ctl i w =
      put i (closeWithError err (refresh_st i (st_of i w))) (call (SetReadPaused i p) w1))"
proof -
  have st: "st_of i (call (SetReadPaused i p) (put i s w)) = s" for p s
    by (simp add: st_of_def)
  show ?thesis
  proof (cases "ctl i (refresh_pause (st_of i w))")
    case None
    then show ?thesis unfolding w1_def refreshConnection_def by (auto simp: Let_def)
  next
    case (Some err)
    then show ?thesis unfolding w1_def refreshConnection_def by (auto simp: Let_def st)
  qed
qed

lemma refresh_st_conn: "\<exists>ev sch. snd (refresh_st i s) = (refresh_locked s)\<lparr>pendingEvents := ev, scheduled := sch\<rparr>"
proof -
  let ?c = "refresh_locked s"
  have "snd (refresh_st i s) = (if refresh_redeliver s then snd (noteEvent evIn ?c) else ?c)"
    by (simp add: refresh_st_def Let_def case_prod_unfold)
  moreover have "\<exists>ev sch. snd (noteEvent evIn c) = c\<lparr>pendingEvents := ev, scheduled := sch\<rparr>" for c
    by (rule exI [of _ "pendingEvents (snd (noteEvent evIn c))"], rule exI [of _ "scheduled (snd (noteEvent evIn c))"])
       (simp add: noteEvent_def Let_def)
  moreover have "c = c\<lparr>pendingEvents := pendingEvents c, scheduled := scheduled c\<rparr>" for c :: conn by simp
  ultimately show ?thesis by metis
qed

lemma refresh_st_fields:
  "sends (snd (refresh_st i s)) = sends (snd s)" "sendHead (snd (refresh_st i s)) = sendHead (snd s)"
  "pendingBytes (snd (refresh_st i s)) = pendingBytes (snd s)" "closed (snd (refresh_st i s)) = closed (snd s)"
  "dialing (snd (refresh_st i s)) = dialing (snd s)" "closing (snd (refresh_st i s)) = closing (snd s)"
  "readPaused (snd (refresh_st i s)) = refresh_pause s"
  "budgetPaused (snd (refresh_st i s)) = (refresh_pause s \<and> (refresh_track s \<or> budgetPaused (snd s)))"
  using refresh_st_conn [of i s] by (auto simp: refresh_locked_def)

lemma refresh_st_engine:
  "pendingTotal (fst (refresh_st i s)) = pendingTotal (fst s)"
  "budgetPausedQ (fst (refresh_st i s)) = budgetPausedQ (fst s) @ (if refresh_track s then [i] else [])"
  "commands (fst (refresh_st i s)) = commands (fst s)"
  "maxPendingBytes (fst (refresh_st i s)) = maxPendingBytes (fst s)"
  "budgetResumeBytes (fst (refresh_st i s)) = budgetResumeBytes (fst s)"
  "writeLowWatermark (fst (refresh_st i s)) = writeLowWatermark (fst s)"
  "writeHighWatermark (fst (refresh_st i s)) = writeHighWatermark (fst s)"
  by (simp_all add: refresh_st_def Let_def case_prod_unfold count_change_def)

lemmas refresh_st_spec = refresh_st_fields refresh_st_engine

lemma acct_refresh:
  assumes "acct w"
  shows "acct (refreshConnection ctl i w)"
proof -
  let ?s = "refresh_st i (st_of i w)"
  have b: "books (st_of i w) ?s"
    using acct_good [OF assms, of i] by (intro books_frame) (simp_all add: refresh_st_spec)
  then have a: "acct (put i ?s w)" by (rule acct_put_same [OF assms]) (simp add: refresh_st_spec)
  have c: "acct (call (SetReadPaused i p) (put i ?s w))" for p using a by (subst acct_eq) auto
  have "acct (put i (closeWithError err ?s) (call (SetReadPaused i p) (put i ?s w)))" for p err
  proof (rule acct_put_same [OF c])
    show "books (st_of i (call (SetReadPaused i p) (put i ?s w))) (closeWithError err ?s)"
      using b by (intro books_frame) (simp_all add: books_def)
  qed simp
  then show ?thesis using refreshConnection_cases [of ctl i w] a c by auto
qed

lemma acct_fold: "(\<And>x w. acct w \<Longrightarrow> acct (f x w)) \<Longrightarrow> acct w \<Longrightarrow> acct (fold f xs w)"
  by (induction xs arbitrary: w) simp_all

lemma acct_resume:
  assumes "acct w" shows "acct (resumeBudgetPaused ctl w)"
proof -
  have one: "acct (resume_one ctl i w)" if "acct w" for i w
    unfolding resume_one_def
    by (rule acct_refresh, rule acct_put_same [OF that], rule books_frame)
       (use acct_good [OF that, of i] in simp_all)
  have "acct (w\<lparr>eng := (eng w)\<lparr>budgetPausedQ := []\<rparr>\<rparr>)" using assms by (subst acct_eq) auto
  with acct_fold [of "resume_one ctl", OF one] assms show ?thesis by (simp add: resumeBudgetPaused_def)
qed

lemma acct_new:
  assumes "acct w" "i \<notin> set (ids w)" "ids w' = ids w @ [i]"
    and "conns w' = (conns w)(i := (newConnection i u)\<lparr>dialing := d\<rparr>)"
    and "pendingTotal (eng w') = pendingTotal (eng w)"
  shows "acct w'"
proof -
  let ?c = "(newConnection i u)\<lparr>dialing := d\<rparr>"
  have c: "conn_good ?c" "pendingBytes ?c = 0"
    by (simp_all add: conn_good_def conn_inv_def queue_ok_def queued_def newConnection_def)
  have "(\<Sum>j \<in> insert i (set (ids w)). pendingBytes (conns w' j)) = (\<Sum>j \<in> set (ids w). pendingBytes (conns w j))"
    using assms(2,4) c(2) by (simp, intro sum.cong) auto
  with assms c show ?thesis by (auto simp: acct_def)
qed

lemma acct_accept: "acct w \<Longrightarrow> i \<notin> set (ids w) \<Longrightarrow> acct (acceptConnection fd i r w)"
  using acct_new [where w = w and i = i and w' = "call (OnOpen i) (new_conn i False None fd True w)"
      and u = False and d = None]
  by (auto simp: acceptConnection_def new_conn_def acct_eq [of "w\<lparr>plat := _\<rparr>" w] newConnection_def)

lemma acct_completeDial:
  assumes "acct w" shows "acct (completeDial i w)"
proof (cases "dialing (conns w i)")
  case (Some d)
  have "acct (put i (eng w, (conns w i)\<lparr>dialing := None\<rparr>) w)"
    using acct_good [OF assms, of i]
    by (intro acct_put_same [OF assms]) (simp_all add: books_def conn_good_def conn_inv_def queue_ok_def queued_def)
  moreover have "acct (completeDial i w) = acct (put i (eng w, (conns w i)\<lparr>dialing := None\<rparr>) w)"
    by (rule acct_eq) (simp_all add: completeDial_def Some)
  ultimately show ?thesis by simp
qed (use assms in \<open>simp add: completeDial_def\<close>)

lemma acct_call: "acct w \<Longrightarrow> acct (call cb w)"
  by (subst acct_eq) simp_all

lemma acct_startDial:
  assumes "acct w" "i \<notin> set (ids w)"
  shows "acct (startDial d env i w)"
proof -
  have n: "acct (new_conn i u dd fd True w)" for u dd fd
    by (rule acct_new [OF assms, where u = u and d = dd]) (simp_all add: new_conn_def)
  have p: "acct (w\<lparr>plat := q\<rparr>)" for q using assms(1) by (subst acct_eq) simp_all
  have "acct (snd (connectSocket d env i w))"
    using assms(1) n p by (auto simp: connectSocket_def split: sum.splits option.splits)
  then show ?thesis
    using assms(1)
    by (auto simp: startDial_def split: option.splits prod.splits sum.splits intro!: acct_call acct_completeDial)
qed

lemma acct_finishDial: "acct w \<Longrightarrow> acct (snd (finishDial i ev rep sock peer w))"
proof -
  assume w: "acct w"
  let ?w1 = "completeDial i w"
  have w1: "acct ?w1" by (rule acct_completeDial [OF w])
  have "acct (put i (eng ?w1, snd (noteEvent ev (conns ?w1 i))) ?w1)"
    using acct_good [OF w1, of i]
    by (intro acct_put_same [OF w1] books_frame) (simp_all add: noteEvent_frame)
  then show ?thesis
    using w acct_failDial [OF w] by (auto simp: finishDial_def Let_def case_prod_unfold split: option.splits)
qed

lemma acct_sweep: "acct w \<Longrightarrow> acct (sweepUDP now keys w)"
  by (auto simp: sweepUDP_def sweep_one_def split: option.splits intro!: acct_fold acct_closeConnection)

lemma deliver_frame:
  "sends (snd (deliverDatagram d c)) = sends c" "sendHead (snd (deliverDatagram d c)) = sendHead c"
  "pendingBytes (snd (deliverDatagram d c)) = pendingBytes c" "closed (snd (deliverDatagram d c)) = closed c"
  "dialing (snd (deliverDatagram d c)) = dialing c" "readPaused (snd (deliverDatagram d c)) = readPaused c"
  "budgetPaused (snd (deliverDatagram d c)) = budgetPaused c"
  by (simp_all add: deliverDatagram_def noteEvent_frame Let_def)

lemma acct_udp:
  assumes "acct w" "i \<notin> set (ids w)"
  shows "acct (snd (readUDPListener_one now l key i d w))"
proof -
  have p: "acct (snd (udpPeer now l key i w))"
  proof (cases "peers w l key = None \<and> \<not> stopping (eng w)")
    case True
    then show ?thesis
      by (intro acct_new [OF assms, where u = True and d = None]) (simp_all add: udpPeer_def newConnection_def)
  next
    case False
    with assms(1) show ?thesis by (auto simp: udpPeer_def split: option.splits)
  qed
  have "acct (put c (eng w1, snd (deliverDatagram d (conns w1 c))) w1)" if "acct w1" for w1 c
    using acct_good [OF that, of c]
    by (intro acct_put_same [OF that] books_frame) (simp_all add: deliver_frame)
  with p show ?thesis
    by (auto simp: readUDPListener_one_def Let_def case_prod_unfold split: option.splits)
qed

text \<open>A command refers to connections that exist; a dial gets a new one.\<close>

definition fresh_for :: "outside \<Rightarrow> command \<Rightarrow> world \<Rightarrow> bool" where
  "fresh_for out cmd w =
     (case cmd of
        CommandDial d \<Rightarrow> o_conn out d \<notin> set (ids w)
      | CommandRefresh i \<Rightarrow> i \<in> set (ids w)
      | CommandClose i _ \<Rightarrow> i \<in> set (ids w)
      | CommandDialTimeout i _ \<Rightarrow> i \<in> set (ids w)
      | CommandUDPSweep \<Rightarrow> True)"

lemma acct_command: "acct w \<Longrightarrow> fresh_for out cmd w \<Longrightarrow> acct (run_command out cmd w)"
  by (auto simp: run_command_def fresh_for_def expireDial_def split: command.splits
      intro: acct_closeConnection acct_startDial acct_failDial acct_sweep acct_refresh)

section \<open>Reachable states of an engine\<close>

text \<open>
  What the event loop, the workers and the application's goroutines do, one critical section at a
  time and in any order. Sends need the connection to have been handed out, which a dialing one has
  not been. Names of new connections are new.
\<close>

inductive engine_step :: "world \<Rightarrow> world \<Rightarrow> bool" where
  es_output: "i \<in> set (ids w) \<Longrightarrow> dialing (conns w i) = None \<Longrightarrow> conn_step xs (st_of i w) s \<Longrightarrow>
     engine_step w (put i s w)"
| es_note: "i \<in> set (ids w) \<Longrightarrow> noteEvent ev (conns w i) = (b, c) \<Longrightarrow> engine_step w (put i (eng w, c) w)"
| es_round: "i \<in> set (ids w) \<Longrightarrow> round_begin d (conns w i) = (r, c) \<Longrightarrow> engine_step w (put i (eng w, c) w)"
| es_take_datagram: "i \<in> set (ids w) \<Longrightarrow> take_datagram (conns w i) = Some (d, c) \<Longrightarrow>
     engine_step w (put i (eng w, c) w)"
| es_drain: "i \<in> set (ids w) \<Longrightarrow>
     engine_step w (put i (eng w, (conns w i)\<lparr>corked := True, readStalled := False\<rparr>) w)"
| es_stall: "i \<in> set (ids w) \<Longrightarrow> engine_step w (put i (stall_read (st_of i w)) w)"
| es_panic: "i \<in> set (ids w) \<Longrightarrow> engine_step w (put i (process_panic (st_of i w)) w)"
| es_ready: "runReady ctl accepted ready w = (tasks, w') \<Longrightarrow> engine_step w w'"
| es_accept: "i \<notin> set (ids w) \<Longrightarrow> engine_step w (acceptConnection fd i r w)"
| es_request: "(\<forall>d. cmd \<noteq> CommandDial d) \<Longrightarrow> engine_step w (w\<lparr>eng := snd (request cmd (eng w))\<rparr>)"
| es_dial: "d \<notin> set (dials w) \<Longrightarrow> engine_step w (requestDial d w)"
| es_take: "batch w = [] \<Longrightarrow> engine_step w (take_batch w)"
| es_command: "batch w = cmd # rest \<Longrightarrow> fresh_for out cmd w \<Longrightarrow>
     engine_step w (run_command out cmd (w\<lparr>batch := rest\<rparr>))"
| es_finish: "i \<in> set (ids w) \<Longrightarrow> dialing (conns w i) \<noteq> None \<Longrightarrow> finishDial i ev rep sock peer w = (b, w') \<Longrightarrow> engine_step w w'"
| es_udp: "i \<notin> set (ids w) \<Longrightarrow> readUDPListener_one now l key i d w = (r, w') \<Longrightarrow> engine_step w w'"
| es_close: "i \<in> set (ids w) \<Longrightarrow> engine_step w (closeConnection i None False w)"
| es_stop: "engine_step w (w\<lparr>eng := notify ((eng w)\<lparr>stopping := True\<rparr>)\<rparr>)"

lemma acct_reject: "acct w \<Longrightarrow> acct (put i (reject_task (st_of i w)) w)"
  using acct_good [of w i]
  by (intro acct_put_same books_frame) (simp_all add: reject_task_def Close_def)

lemma acct_runReady: "acct w \<Longrightarrow> acct (snd (runReady ctl accepted ready w))"
proof -
  assume "acct w"
  then have w1: "acct (resumeBudgetPaused ctl w)" by (rule acct_resume)
  let ?w2 = "(resumeBudgetPaused ctl w)\<lparr>eng := (eng (resumeBudgetPaused ctl w))\<lparr>redeliver := []\<rparr>\<rparr>"
  have "acct ?w2" using w1 by (subst acct_eq) auto
  then show ?thesis
    by (auto simp: runReady_def submitReady_def Let_def intro!: acct_fold acct_reject)
qed

lemma engine_step_acct: "engine_step w w' \<Longrightarrow> acct w \<Longrightarrow> acct w'"
proof (induction rule: engine_step.induct)
  case (es_output i w xs s)
  then show ?case using acct_put conn_step_books acct_good by (metis st_of_simps(2))
next
  case (es_note i w ev b c)
  then show ?case using noteEvent_frame [of ev "conns w i"] acct_good [of w i]
    by (intro acct_put_same books_frame) simp_all
next
  case (es_round i w d r c)
  then show ?case using acct_good [of w i]
    by (intro acct_put_same books_frame) (auto simp: round_begin_def Let_def split: if_splits)
next
  case (es_take_datagram i w d c)
  then show ?case using acct_good [of w i]
    by (intro acct_put_same books_frame) (auto simp: take_datagram_def split: if_splits)
next
  case (es_drain i w)
  then show ?case using acct_good [of w i] by (intro acct_put_same books_frame) simp_all
next
  case (es_stall i w)
  then show ?case using acct_good [of w i] by (intro acct_put_same books_frame) (simp_all add: stall_read_def)
next
  case (es_panic i w)
  then show ?case using acct_good [of w i] by (intro acct_put_same books_frame) (simp_all add: process_panic_def)
next
  case (es_ready ctl accepted ready w tasks w')
  then show ?case using acct_runReady by (metis snd_conv)
next
  case (es_request cmd w)
  then show ?case by (subst acct_eq) simp_all
next
  case (es_dial d w)
  then show ?case by (subst acct_eq [of _ w]) (auto simp: requestDial_def Let_def case_prod_unfold)
next
  case (es_take w)
  then show ?case by (subst acct_eq [of _ w]) (simp_all add: take_batch_def Let_def)
next
  case (es_command w cmd rest out)
  then show ?case by (intro acct_command) (simp_all add: fresh_for_def split: command.splits)
next
  case (es_finish i w ev rep sock peer b w')
  then show ?case using acct_finishDial by (metis snd_conv)
next
  case (es_udp i w now l key d r w')
  then show ?case using acct_udp by (metis snd_conv)
next
  case (es_stop w)
  then show ?case by (subst acct_eq [of _ w]) (simp_all add: notify_def)
qed (auto intro: acct_accept acct_closeConnection)

section \<open>Counting connections\<close>

definition tally :: "(conn \<Rightarrow> int) \<Rightarrow> world \<Rightarrow> int" where
  "tally f w = (\<Sum>i \<in> set (ids w). f (conns w i))"

lemma tally_put: "i \<in> set (ids w) \<Longrightarrow> tally f (put i s w) = tally f w - f (conns w i) + f (snd s)"
  by (simp add: tally_def sum_update del: fun_upd_apply)

lemma tally_put_same: "f (snd s) = f (conns w i) \<Longrightarrow> tally f (put i s w) = tally f w"
  unfolding tally_def by (rule sum.cong) auto

lemma tally_eq: "ids w' = ids w \<Longrightarrow> conns w' = conns w \<Longrightarrow> tally f w' = tally f w"
  by (simp add: tally_def)

lemma tally_new:
  assumes "i \<notin> set (ids w)" "ids w' = ids w @ [i]" "conns w' = (conns w)(i := c)"
  shows "tally f w' = tally f w + f c"
proof -
  have "(\<Sum>j \<in> set (ids w). f (((conns w)(i := c)) j)) = (\<Sum>j \<in> set (ids w). f (conns w j))"
    using assms(1) by (intro sum.cong) auto
  with assms show ?thesis by (simp add: tally_def)
qed

text \<open>The steps that change neither the pauses nor the dials of a connection.\<close>

definition same_core :: "st \<Rightarrow> st \<Rightarrow> bool" where
  "same_core s s' \<longleftrightarrow>
     readPaused (snd s') = readPaused (snd s) \<and> budgetPaused (snd s') = budgetPaused (snd s) \<and>
     dialing (snd s') = dialing (snd s) \<and> eng_core (fst s') = eng_core (fst s)"

lemma same_core_sched: "sched_same s s' \<Longrightarrow> same_core s s'"
  by (simp add: sched_same_def same_core_def)

lemma same_core_steps:
  "noteEvent ev c = (b, c') \<Longrightarrow> same_core (e, c) (e, c')"
  "round_begin d c = (r, c') \<Longrightarrow> same_core (e, c) (e, c')"
  "take_datagram c = Some (bs, c') \<Longrightarrow> same_core (e, c) (e, c')"
  "same_core s (stall_read s)" "same_core s (process_panic s)" "same_core s (reject_task s)"
  "same_core (e, c) (e, c\<lparr>corked := x, readStalled := y\<rparr>)"
  "same_core s (closeWithError err s)"
  "same_core (e, c) (e, snd (deliverDatagram bs c))"
  using noteEvent_frame [of ev c] deliver_frame [of bs c]
  by (auto simp: same_core_def round_begin_def take_datagram_def stall_read_def process_panic_def
      reject_task_def Close_def Let_def split: if_splits)

section \<open>Statistics\<close>

definition paused_bit :: "conn \<Rightarrow> int" where
  "paused_bit c = (if readPaused c then 1 else 0)"

definition stats_of :: "engine \<Rightarrow> u64" where
  "stats_of e = readsPausedByWatermark e + readsPausedByBudget e - readsResumed e"

definition pause_inv :: "world \<Rightarrow> bool" where
  "pause_inv w \<longleftrightarrow>
     (\<forall>i. i \<notin> set (ids w) \<longrightarrow> \<not> readPaused (conns w i) \<and> \<not> budgetPaused (conns w i)) \<and>
     stats_of (eng w) = of_int (tally paused_bit w) \<and> set (budgetPausedQ (eng w)) \<subseteq> set (ids w)"

lemma stats_core: "eng_core e' = eng_core e \<Longrightarrow> stats_of e' = stats_of e \<and> budgetPausedQ e' = budgetPausedQ e"
  by (simp add: eng_core_def stats_of_def)

lemma pause_put_same:
  assumes w: "pause_inv w" and s: "same_core (st_of i w) s"
  shows "pause_inv (put i s w)"
proof -
  have "tally paused_bit (put i s w) = tally paused_bit w"
    using s by (intro tally_put_same) (simp add: same_core_def paused_bit_def)
  with w s stats_core [of "fst s" "eng w"] show ?thesis
    by (auto simp: pause_inv_def same_core_def)
qed

lemma pause_eq:
  "ids w' = ids w \<Longrightarrow> conns w' = conns w \<Longrightarrow> eng_core (eng w') = eng_core (eng w) \<Longrightarrow> pause_inv w' = pause_inv w"
  using stats_core [of "eng w'" "eng w"] by (simp add: pause_inv_def tally_eq [of w' w])

lemma pause_fields [simp]:
  "pause_inv (w\<lparr>lastActive := f\<rparr>) = pause_inv w" "pause_inv (w\<lparr>batch := b\<rparr>) = pause_inv w"
  "pause_inv (w\<lparr>plat := p\<rparr>) = pause_inv w" "pause_inv (call cb w) = pause_inv w"
  "pause_inv (w\<lparr>dials := ds\<rparr>) = pause_inv w" "pause_inv (detach_conn i w) = pause_inv w"
  by (rule pause_eq; simp)+

lemma pause_put_conn:
  assumes "pause_inv w" "readPaused c = readPaused (conns w i)" "budgetPaused c \<longrightarrow> budgetPaused (conns w i)"
    and "eng_core e = eng_core (eng w)"
  shows "pause_inv (put i (e, c) w)"
proof -
  have "tally paused_bit (put i (e, c) w) = tally paused_bit w"
    using assms(2) by (intro tally_put_same) (simp add: paused_bit_def)
  with assms stats_core [of e "eng w"] show ?thesis by (auto simp: pause_inv_def)
qed

lemma refresh_stats:
  "stats_of (fst (refresh_st i s)) =
   stats_of (fst s) + of_int (paused_bit (snd (refresh_st i s)) - paused_bit (snd s))"
proof -
  have "stats_of (fst (refresh_st i s)) =
    (if refresh_changed s then (if refresh_pause s then stats_of (fst s) + 1 else stats_of (fst s) - 1) else stats_of (fst s))"
    by (simp add: refresh_st_def Let_def case_prod_unfold count_change_def stats_of_def)
  then show ?thesis by (simp add: paused_bit_def refresh_st_fields refresh_changed_def)
qed

lemma pause_refresh:
  assumes w: "pause_inv w" and i: "i \<in> set (ids w)"
  shows "pause_inv (refreshConnection ctl i w)"
proof -
  let ?s = "refresh_st i (st_of i w)"
  have "tally paused_bit (put i ?s w) = tally paused_bit w - paused_bit (conns w i) + paused_bit (snd ?s)"
    by (rule tally_put [OF i])
  then have p: "pause_inv (put i ?s w)"
    using w i refresh_stats [of i "st_of i w"]
    by (auto simp: pause_inv_def refresh_st_engine split: if_splits)
  have "pause_inv (put i (closeWithError err ?s) (call cb (put i ?s w)))" for err cb
    by (rule pause_put_same) (use p in \<open>simp_all add: same_core_steps st_of_def\<close>)
  with p show ?thesis using refreshConnection_cases [of ctl i w] by auto
qed

lemma ids_refresh [simp]: "ids (refreshConnection ctl i w) = ids w"
  using refreshConnection_cases [of ctl i w] by auto

lemma pause_resume:
  assumes "pause_inv w" shows "pause_inv (resumeBudgetPaused ctl w)"
proof -
  have one: "pause_inv (resume_one ctl i w) \<and> ids (resume_one ctl i w) = ids w"
    if "pause_inv w" "i \<in> set (ids w)" for i w
    using that by (simp add: resume_one_def pause_refresh pause_put_conn)
  have fold: "pause_inv w \<Longrightarrow> set xs \<subseteq> set (ids w) \<Longrightarrow> pause_inv (fold (resume_one ctl) xs w)" for xs w
    by (induction xs arbitrary: w) (auto simp: one)
  have "pause_inv (w\<lparr>eng := (eng w)\<lparr>budgetPausedQ := []\<rparr>\<rparr>)"
    using assms by (simp add: pause_inv_def stats_of_def tally_def)
  from fold [OF this] assms show ?thesis by (auto simp: resumeBudgetPaused_def pause_inv_def)
qed

lemma pause_close:
  assumes "pause_inv w" shows "pause_inv (closeConnection i err cb w)"
proof -
  have f: "pause_inv (failDial i e w)" for e
    using assms by (auto simp: failDial_def Let_def intro: pause_put_conn split: option.splits)
  have "eng_core (fst (abandon s)) = eng_core (fst s) \<and> readPaused (snd (abandon s)) = readPaused (snd s) \<and>
      \<not> budgetPaused (snd (abandon s))" for s
  proof -
    let ?s = "(fst s, (snd s)\<lparr>closed := True, closing := True\<rparr>)"
    obtain p xs where "release_queue ?s = ((fst s)\<lparr>sendBufferPool := p\<rparr>, (snd ?s)\<lparr>sends := xs\<rparr>)"
      using release_queue_frame [of "[sendHead (snd ?s)..<length (sends (snd ?s))]" ?s]
      by (auto simp: release_queue_def)
    then show ?thesis by (simp add: abandon_def)
  qed
  then have "pause_inv (put i (abandon (st_of i w)) w)"
    using pause_put_conn [OF assms, of "snd (abandon (st_of i w))" i "fst (abandon (st_of i w))"] by simp
  with f assms show ?thesis by (auto simp: closeConnection_def Let_def)
qed

lemma ids_close [simp]: "ids (closeConnection i err cb w) = ids w"
  by (simp add: closeConnection_def failDial_def Let_def split: option.splits)

lemma pause_new:
  assumes "pause_inv w" "i \<notin> set (ids w)" "ids w' = ids w @ [i]" "conns w' = (conns w)(i := c)"
    and "eng w' = eng w" "\<not> readPaused c" "\<not> budgetPaused c"
  shows "pause_inv w'"
  using assms tally_new [OF assms(2-4), of paused_bit] by (auto simp: pause_inv_def paused_bit_def)

lemma pause_complete: "pause_inv w \<Longrightarrow> pause_inv (completeDial i w)"
  by (auto simp: completeDial_def intro: pause_put_conn split: option.splits)

lemma newConnection_flags [simp]:
  "\<not> readPaused (newConnection i u)" "\<not> budgetPaused (newConnection i u)" "dialing (newConnection i u) = None"
  by (simp_all add: newConnection_def)

lemma pause_startDial:
  assumes "pause_inv w" "i \<notin> set (ids w)"
  shows "pause_inv (startDial d env i w)"
proof -
  have n: "pause_inv (new_conn i u dd fd True w)" for u dd fd
    by (rule pause_new [OF assms, where c = "(newConnection i u)\<lparr>dialing := dd\<rparr>"]) (simp_all add: new_conn_def)
  have "pause_inv (snd (connectSocket d env i w))"
    using assms(1) n by (auto simp: connectSocket_def split: sum.splits option.splits)
  then show ?thesis
    using assms(1) by (auto simp: startDial_def split: option.splits prod.splits sum.splits intro!: pause_complete)
qed

lemma pause_udp:
  assumes "pause_inv w" "i \<notin> set (ids w)"
  shows "pause_inv (snd (readUDPListener_one now l key i d w))"
proof -
  have p: "pause_inv (snd (udpPeer now l key i w))"
  proof (cases "peers w l key = None \<and> \<not> stopping (eng w)")
    case True
    then show ?thesis
      by (intro pause_new [OF assms, where c = "newConnection i True"]) (simp_all add: udpPeer_def)
  next
    case False
    with assms(1) show ?thesis by (auto simp: udpPeer_def split: option.splits)
  qed
  have "pause_inv (put c (eng w1, snd (deliverDatagram d (conns w1 c))) w1)" if "pause_inv w1" for w1 c
    by (rule pause_put_same [OF that]) (simp add: st_of_def same_core_steps)
  with p show ?thesis
    by (auto simp: readUDPListener_one_def Let_def case_prod_unfold split: option.splits)
qed

lemma pause_sweep: "pause_inv w \<Longrightarrow> pause_inv (sweepUDP now keys w)"
proof -
  have "pause_inv w \<Longrightarrow> pause_inv (fold (sweep_one now) keys w)" for w
    by (induction keys arbitrary: w) (auto simp: sweep_one_def pause_close split: option.splits)
  then show "pause_inv w \<Longrightarrow> pause_inv (sweepUDP now keys w)" by (simp add: sweepUDP_def)
qed

lemma pause_command: "pause_inv w \<Longrightarrow> fresh_for out cmd w \<Longrightarrow> pause_inv (run_command out cmd w)"
proof -
  have f: "pause_inv w \<Longrightarrow> pause_inv (failDial i e w)" for i e
    by (auto simp: failDial_def Let_def intro: pause_put_conn split: option.splits)
  show "pause_inv w \<Longrightarrow> fresh_for out cmd w \<Longrightarrow> pause_inv (run_command out cmd w)"
    by (auto simp: run_command_def fresh_for_def expireDial_def split: command.splits
        intro: pause_close pause_startDial f pause_sweep pause_refresh)
qed

lemma pause_finish: "pause_inv w \<Longrightarrow> pause_inv (snd (finishDial i ev rep sock peer w))"
proof -
  assume w: "pause_inv w"
  let ?w1 = "completeDial i w"
  have "pause_inv (put i (eng ?w1, snd (noteEvent ev (conns ?w1 i))) ?w1)"
    using noteEvent_frame [of ev "conns ?w1 i"] by (intro pause_put_conn pause_complete [OF w]) simp_all
  moreover have "pause_inv (failDial i e w)" for e
    using w by (auto simp: failDial_def Let_def intro: pause_put_conn split: option.splits)
  ultimately show ?thesis
    using w by (auto simp: finishDial_def Let_def case_prod_unfold split: option.splits)
qed

lemma pause_runReady: "pause_inv w \<Longrightarrow> pause_inv (snd (runReady ctl accepted ready w))"
proof -
  assume "pause_inv w"
  then have w1: "pause_inv (resumeBudgetPaused ctl w)" by (rule pause_resume)
  let ?w2 = "(resumeBudgetPaused ctl w)\<lparr>eng := (eng (resumeBudgetPaused ctl w))\<lparr>redeliver := []\<rparr>\<rparr>"
  have w2: "pause_inv ?w2" using w1 by (simp add: pause_inv_def stats_of_def tally_def)
  have "pause_inv w \<Longrightarrow> pause_inv (fold (\<lambda>i v. put i (reject_task (st_of i v)) v) xs w)" for xs w
    by (induction xs arbitrary: w) (simp_all add: pause_put_same same_core_steps)
  with w2 show ?thesis by (simp add: runReady_def submitReady_def Let_def)
qed

lemma engine_step_pause: "engine_step w w' \<Longrightarrow> pause_inv w \<Longrightarrow> pause_inv w'"
proof (induction rule: engine_step.induct)
  case (es_output i w xs s)
  then show ?case by (intro pause_put_same same_core_sched conn_step_sched)
next
  case (es_ready ctl accepted ready w tasks w')
  then show ?case using pause_runReady by (metis snd_conv)
next
  case (es_accept i w fd r)
  then show ?case
    using pause_new [of w i "call (OnOpen i) (new_conn i False None fd True w)"
        "(newConnection i False)\<lparr>dialing := None\<rparr>"]
    by (auto simp: acceptConnection_def new_conn_def)
next
  case (es_request cmd w)
  then show ?case using eng_core_request [of cmd "eng w"] by (subst pause_eq [of _ w]) simp_all
next
  case (es_dial d w)
  then show ?case
    by (auto simp: requestDial_def Let_def case_prod_unfold)
       (simp add: pause_inv_def stats_of_def tally_def request_def notify_def Let_def)
next
  case (es_take w)
  then show ?case by (simp add: take_batch_def pause_inv_def stats_of_def tally_def Let_def)
next
  case (es_command w cmd rest out)
  then show ?case by (intro pause_command) (simp_all add: fresh_for_def split: command.splits)
next
  case (es_finish i w ev rep sock peer b w')
  then show ?case using pause_finish by (metis snd_conv)
next
  case (es_udp i w now l key d r w')
  then show ?case using pause_udp by (metis snd_conv)
next
  case (es_close i w)
  then show ?case by (simp add: pause_close)
next
  case (es_stop w)
  then show ?case by (simp add: pause_inv_def stats_of_def tally_def notify_def)
qed (auto intro!: pause_put_same simp: st_of_def same_core_steps)

section \<open>Dials\<close>

definition dialing_bit :: "nat \<Rightarrow> conn \<Rightarrow> int" where
  "dialing_bit d c = (if dialing c = Some d then 1 else 0)"

definition done_of :: "nat \<Rightarrow> callback \<Rightarrow> bool" where
  "done_of d cb = (case cb of DialDone d' _ _ \<Rightarrow> d' = d | _ \<Rightarrow> False)"

definition dial_done :: "nat \<Rightarrow> world \<Rightarrow> int" where
  "dial_done d w = int (length (filter (done_of d) (calls w)))"

text \<open>A dial waits in the queue or in the batch, or a connection is dialing for it, or it is done.\<close>

definition dial_weight :: "nat \<Rightarrow> world \<Rightarrow> int" where
  "dial_weight d w =
     int (count_list (dial_queue (eng w)) (CommandDial d)) + int (count_list (batch w) (CommandDial d)) +
     tally (dialing_bit d) w + dial_done d w"

definition dial_inv :: "world \<Rightarrow> bool" where
  "dial_inv w \<longleftrightarrow>
     (\<forall>i. i \<notin> set (ids w) \<longrightarrow> dialing (conns w i) = None) \<and>
     (\<forall>d. dial_weight d w = (if d \<in> set (dials w) then 1 else 0))"

lemma core_dials: "eng_core e' = eng_core e \<Longrightarrow> dial_queue e' = dial_queue e"
  by (simp add: eng_core_def)

lemma done_simps [simp]:
  "dial_done d (call (DialDone d' c e) w) = dial_done d w + (if d' = d then 1 else 0)"
  "dial_done d (call (OnOpen i) w) = dial_done d w" "dial_done d (call (OnClose i err) w) = dial_done d w"
  "dial_done d (call (SetReadPaused i b) w) = dial_done d w"
  "dial_done d (put i s w) = dial_done d w" "dial_done d (detach_conn i w) = dial_done d w"
  by (simp_all add: dial_done_def done_of_def)

lemma tally_frame [simp]:
  "tally f (call cb w) = tally f w" "tally f (detach_conn i w) = tally f w"
  by (simp_all add: tally_def)

lemma weight_put_same:
  "dialing (snd s) = dialing (conns w i) \<Longrightarrow> dial_queue (fst s) = dial_queue (eng w) \<Longrightarrow>
   dial_weight d (put i s w) = dial_weight d w"
  by (simp add: dial_weight_def tally_put_same dialing_bit_def)

lemma weight_call [simp]:
  "dial_weight d (call (DialDone d' c e) w) = dial_weight d w + (if d' = d then 1 else 0)"
  "dial_weight d (call (OnOpen i) w) = dial_weight d w" "dial_weight d (call (OnClose i err) w) = dial_weight d w"
  "dial_weight d (call (SetReadPaused i b) w) = dial_weight d w"
  "dial_weight d (detach_conn i w) = dial_weight d w"
  by (simp_all add: dial_weight_def)

lemma dial_call [simp]:
  "dial_inv (call (OnOpen i) w) = dial_inv w" "dial_inv (call (OnClose i err) w) = dial_inv w"
  "dial_inv (call (SetReadPaused i b) w) = dial_inv w" "dial_inv (detach_conn i w) = dial_inv w"
  by (simp_all add: dial_inv_def)

lemma dial_put_same:
  assumes "dial_inv w" "dialing (snd s) = dialing (conns w i)" "dial_queue (fst s) = dial_queue (eng w)"
  shows "dial_inv (put i s w)"
  using assms by (auto simp: dial_inv_def weight_put_same)

lemma dial_same_core: "dial_inv w \<Longrightarrow> same_core (st_of i w) s \<Longrightarrow> dial_inv (put i s w)"
  using core_dials [of "fst s" "eng w"] by (intro dial_put_same) (simp_all add: same_core_def)

lemma dial_eq:
  assumes "ids w' = ids w" "conns w' = conns w" "batch w' = batch w" "calls w' = calls w" "dials w' = dials w"
    and "dial_queue (eng w') = dial_queue (eng w)"
  shows "dial_inv w' = dial_inv w"
  using assms by (simp add: dial_inv_def dial_weight_def dial_done_def tally_def)

text \<open>A connection that stops dialing for \<open>d\<close> and the report of \<open>d\<close> balance.\<close>

lemma weight_settle:
  assumes "i \<in> set (ids w)" "dialing (conns w i) = Some d" "dialing c = None"
  shows "dial_weight d' (put i (eng w, c) w) = dial_weight d' w - (if d' = d then 1 else 0)"
  using assms by (simp add: dial_weight_def tally_put dialing_bit_def)

lemma dial_failDial:
  assumes "dial_inv w" shows "dial_inv (failDial i e w)"
proof (cases "dialing (conns w i)")
  case (Some d)
  with assms have "i \<in> set (ids w)" by (metis dial_inv_def option.distinct(1))
  with Some assms show ?thesis
    by (auto simp: failDial_def dial_inv_def weight_settle)
qed (use assms in \<open>simp add: failDial_def\<close>)

lemma dial_completeDial:
  assumes "dial_inv w" shows "dial_inv (completeDial i w)"
proof (cases "dialing (conns w i)")
  case (Some d)
  with assms have "i \<in> set (ids w)" by (metis dial_inv_def option.distinct(1))
  with Some assms show ?thesis
    by (auto simp: completeDial_def dial_inv_def weight_settle)
qed (use assms in \<open>simp add: completeDial_def\<close>)

lemma abandon_core: "eng_core (fst (abandon s)) = eng_core (fst s)" "dialing (snd (abandon s)) = dialing (snd s)"
proof -
  let ?s = "(fst s, (snd s)\<lparr>closed := True, closing := True\<rparr>)"
  obtain p xs where "release_queue ?s = ((fst s)\<lparr>sendBufferPool := p\<rparr>, (snd ?s)\<lparr>sends := xs\<rparr>)"
    using release_queue_frame [of "[sendHead (snd ?s)..<length (sends (snd ?s))]" ?s]
    by (auto simp: release_queue_def)
  then show "eng_core (fst (abandon s)) = eng_core (fst s)" "dialing (snd (abandon s)) = dialing (snd s)"
    by (simp_all add: abandon_def)
qed

lemma dial_close: "dial_inv w \<Longrightarrow> dial_inv (closeConnection i err cb w)"
  using dial_put_same [of w "abandon (st_of i w)" i] abandon_core [of "st_of i w"] dial_failDial [of w i]
    core_dials [of "fst (abandon (st_of i w))" "eng w"]
  by (auto simp: closeConnection_def Let_def)

lemma dial_refresh:
  assumes "dial_inv w" shows "dial_inv (refreshConnection ctl i w)"
proof -
  let ?s = "refresh_st i (st_of i w)"
  have q: "dial_queue (fst ?s) = dial_queue (eng w)"
    using refresh_st_engine(3) [of i "st_of i w"] by (simp add: dial_queue_def)
  have p: "dial_inv (put i ?s w)"
    by (rule dial_put_same [OF assms]) (simp_all add: refresh_st_fields q)
  have "dial_inv (put i (closeWithError err ?s) (call (SetReadPaused i b) (put i ?s w)))" for err b
    by (rule dial_same_core) (use p in \<open>simp_all add: st_of_def same_core_steps\<close>)
  with p show ?thesis using refreshConnection_cases [of ctl i w] by auto
qed

lemma dial_resume: "dial_inv w \<Longrightarrow> dial_inv (resumeBudgetPaused ctl w)"
proof -
  have one: "dial_inv (resume_one ctl i w)" if "dial_inv w" for i w
    using that by (simp add: resume_one_def dial_refresh dial_put_same)
  have f: "dial_inv w \<Longrightarrow> dial_inv (fold (resume_one ctl) xs w)" for xs w
    by (induction xs arbitrary: w) (simp_all add: one)
  have "dial_inv w \<Longrightarrow> dial_inv (w\<lparr>eng := (eng w)\<lparr>budgetPausedQ := []\<rparr>\<rparr>)"
    by (subst dial_eq [of _ w]) (simp_all add: dial_queue_def)
  with f show "dial_inv w \<Longrightarrow> dial_inv (resumeBudgetPaused ctl w)" by (simp add: resumeBudgetPaused_def)
qed

lemma weight_new:
  assumes "i \<notin> set (ids w)" "ids w' = ids w @ [i]" "conns w' = (conns w)(i := c)"
    and "dial_queue (eng w') = dial_queue (eng w)" "batch w' = batch w" "calls w' = calls w"
  shows "dial_weight d w' = dial_weight d w + dialing_bit d c"
  using assms tally_new [OF assms(1-3)] by (simp add: dial_weight_def dial_done_def)

lemma dial_startDial:
  assumes w: "dial_inv (w\<lparr>batch := CommandDial d # rest\<rparr>)" and b: "batch w = rest" and i: "i \<notin> set (ids w)"
  shows "dial_inv (startDial d env i w)"
proof -
  have wt: "dial_weight d' w = (if d' \<in> set (dials w) then 1 else 0) - (if d' = d then 1 else 0)" for d'
  proof -
    have "dial_weight d' (w\<lparr>batch := CommandDial d # rest\<rparr>) = dial_weight d' w + (if d' = d then 1 else 0)"
      using b by (simp add: dial_weight_def dial_done_def tally_def)
    with w show ?thesis by (simp add: dial_inv_def split: if_splits)
  qed
  have no: "\<forall>j. j \<notin> set (ids w) \<longrightarrow> dialing (conns w j) = None" using w by (simp add: dial_inv_def)
  have fail: "dial_inv (call (DialDone d None (Some err)) (w\<lparr>plat := p\<rparr>))" for err p
    using no wt by (simp add: dial_inv_def) (simp add: dial_weight_def dial_done_def tally_def)
  have fail0: "dial_inv (call (DialDone d None (Some err)) w)" for err
    using no wt by (simp add: dial_inv_def)
  have new: "dial_inv (new_conn i u (Some d) fd True w)" for u fd
  proof -
    let ?w = "new_conn i u (Some d) fd True w"
    have "dial_weight d' ?w = dial_weight d' w + dialing_bit d' ((newConnection i u)\<lparr>dialing := Some d\<rparr>)" for d'
      by (rule weight_new [OF i]) (simp_all add: new_conn_def)
    with wt no show ?thesis by (auto simp: dial_inv_def dialing_bit_def new_conn_def)
  qed
  show ?thesis
    using fail fail0 new
    by (auto simp: startDial_def connectSocket_def intro: dial_completeDial split: option.splits sum.splits)
qed

lemma dial_sweep: "dial_inv w \<Longrightarrow> dial_inv (sweepUDP now keys w)"
proof -
  have "dial_inv w \<Longrightarrow> dial_inv (fold (sweep_one now) keys w)" for w
    by (induction keys arbitrary: w) (auto simp: sweep_one_def dial_close split: option.splits)
  then show "dial_inv w \<Longrightarrow> dial_inv (sweepUDP now keys w)" by (simp add: sweepUDP_def)
qed

lemma dial_command:
  assumes "dial_inv w" "batch w = cmd # rest" "fresh_for out cmd w"
  shows "dial_inv (run_command out cmd (w\<lparr>batch := rest\<rparr>))"
proof (cases "\<exists>d. cmd = CommandDial d")
  case True
  then obtain d where d: "cmd = CommandDial d" by blast
  have "w\<lparr>batch := CommandDial d # rest\<rparr> = w" using assms(2) d by simp
  with assms(1,3) d show ?thesis
    by (simp add: run_command_def fresh_for_def) (rule dial_startDial; simp)
next
  case False
  then have "dial_inv (w\<lparr>batch := rest\<rparr>)"
    using assms(1,2) by (auto simp: dial_inv_def dial_weight_def dial_done_def tally_def)
  with False show ?thesis
    by (auto simp: run_command_def expireDial_def split: command.splits
        intro: dial_close dial_failDial dial_sweep dial_refresh)
qed

lemma dial_finish: "dial_inv w \<Longrightarrow> dial_inv (snd (finishDial i ev rep sock peer w))"
proof -
  assume w: "dial_inv w"
  let ?w1 = "completeDial i w"
  have "dial_inv (put i (eng ?w1, snd (noteEvent ev (conns ?w1 i))) ?w1)"
    using noteEvent_frame [of ev "conns ?w1 i"] by (intro dial_put_same dial_completeDial [OF w]) simp_all
  with dial_failDial [OF w, of i] show ?thesis
    using w by (auto simp: finishDial_def Let_def case_prod_unfold split: option.splits)
qed

lemma dial_udp:
  assumes "dial_inv w" "i \<notin> set (ids w)"
  shows "dial_inv (snd (readUDPListener_one now l key i d w))"
proof -
  have p: "dial_inv (snd (udpPeer now l key i w))"
  proof (cases "peers w l key = None \<and> \<not> stopping (eng w)")
    case True
    let ?w = "w\<lparr>ids := ids w @ [i], conns := (conns w)(i := newConnection i True),
                      peer_of := (peer_of w)(i := Some (l, key)), lastActive := (lastActive w)(i := now),
                      peers := (peers w)(l := (peers w l)(key := Some i))\<rparr>"
    have "dial_weight d' ?w = dial_weight d' w + dialing_bit d' (newConnection i True)" for d'
      by (rule weight_new [OF assms(2)]) simp_all
    with assms(1) have "dial_inv ?w" by (auto simp: dial_inv_def dialing_bit_def)
    with True show ?thesis by (simp add: udpPeer_def)
  next
    case False
    with assms(1) show ?thesis by (auto simp: udpPeer_def split: option.splits)
  qed
  have "dial_inv (put c (eng w1, snd (deliverDatagram d (conns w1 c))) w1)" if "dial_inv w1" for w1 c
    by (rule dial_same_core [OF that]) (simp add: st_of_def same_core_steps)
  moreover have "dial_inv (w1\<lparr>lastActive := f\<rparr>) = dial_inv w1" for w1 f by (rule dial_eq) simp_all
  ultimately show ?thesis using p
    by (auto simp: readUDPListener_one_def Let_def case_prod_unfold split: option.splits)
qed

lemma dial_runReady: "dial_inv w \<Longrightarrow> dial_inv (snd (runReady ctl accepted ready w))"
proof -
  assume "dial_inv w"
  then have w1: "dial_inv (resumeBudgetPaused ctl w)" by (rule dial_resume)
  let ?w2 = "(resumeBudgetPaused ctl w)\<lparr>eng := (eng (resumeBudgetPaused ctl w))\<lparr>redeliver := []\<rparr>\<rparr>"
  have w2: "dial_inv ?w2" using w1 by (subst dial_eq) (auto simp: dial_queue_def)
  have "dial_inv w \<Longrightarrow> dial_inv (fold (\<lambda>i v. put i (reject_task (st_of i v)) v) xs w)" for xs w
    by (induction xs arbitrary: w) (simp_all add: dial_same_core same_core_steps)
  with w2 show ?thesis by (simp add: runReady_def submitReady_def Let_def)
qed

lemma dial_request:
  assumes "dial_inv w" "d \<notin> set (dials w)"
  shows "dial_inv (requestDial d w)"
proof (cases "commandsClosed (eng w)")
  case True
  then have "requestDial d w = call (DialDone d None (Some NetErrClosed)) (w\<lparr>dials := d # dials w\<rparr>)"
    by (simp add: requestDial_def request_def)
  moreover have "dial_weight d' (w\<lparr>dials := ds\<rparr>) = dial_weight d' w" for d' ds
    by (simp add: dial_weight_def dial_done_def tally_def)
  ultimately show ?thesis using assms by (auto simp: dial_inv_def)
next
  case False
  then have "requestDial d w = w\<lparr>dials := d # dials w, eng := snd (request (CommandDial d) (eng w))\<rparr>"
    by (simp add: requestDial_def request_def Let_def)
  moreover have "dial_queue (snd (request (CommandDial d) (eng w))) = dial_queue (eng w) @ [CommandDial d]"
    using False by (simp add: request_def notify_def dial_queue_def Let_def split: option.splits)
  ultimately have "dial_weight d' (requestDial d w) = dial_weight d' w + (if d' = d then 1 else 0)" for d'
    by (simp add: dial_weight_def dial_done_def tally_def)
  moreover have "dials (requestDial d w) = d # dials w" "ids (requestDial d w) = ids w"
    "conns (requestDial d w) = conns w"
    using False by (simp_all add: requestDial_def request_def Let_def)
  ultimately show ?thesis using assms by (auto simp: dial_inv_def)
qed

lemma dial_take:
  assumes "dial_inv w" "batch w = []" shows "dial_inv (take_batch w)"
proof -
  let ?cs = "case commands (eng w) of None \<Rightarrow> [] | Some xs \<Rightarrow> xs"
  have "count_list (filter (\<lambda>cmd. \<exists>d. cmd = CommandDial d) xs) (CommandDial d) = count_list xs (CommandDial d)" for xs d
    by (induction xs) auto
  then have "dial_weight d (take_batch w) = dial_weight d w" for d
    using assms(2) by (simp add: dial_weight_def take_batch_def dial_queue_def dial_done_def tally_def Let_def)
  with assms(1) show ?thesis by (simp add: dial_inv_def) (simp add: take_batch_def Let_def)
qed

lemma engine_step_dial: "engine_step w w' \<Longrightarrow> dial_inv w \<Longrightarrow> dial_inv w'"
proof (induction rule: engine_step.induct)
  case (es_output i w xs s)
  then show ?case by (intro dial_same_core same_core_sched conn_step_sched)
next
  case (es_ready ctl accepted ready w tasks w')
  then show ?case using dial_runReady by (metis snd_conv)
next
  case (es_accept i w fd r)
  let ?w = "new_conn i False None fd True w"
  have "dial_weight d ?w = dial_weight d w + dialing_bit d ((newConnection i False)\<lparr>dialing := None\<rparr>)" for d
    by (rule weight_new [OF es_accept(1)]) (simp_all add: new_conn_def)
  with es_accept(2) have "dial_inv ?w" by (auto simp: dial_inv_def dialing_bit_def new_conn_def)
  moreover have "dial_inv (w\<lparr>plat := p\<rparr>) = dial_inv w" for p by (rule dial_eq) simp_all
  ultimately show ?case using es_accept(2) by (simp add: acceptConnection_def)
next
  case (es_request cmd w)
  then show ?case using eng_core_request [of cmd "eng w"] core_dials [of "snd (request cmd (eng w))" "eng w"]
    by (subst dial_eq [of _ w]) simp_all
next
  case (es_finish i w ev rep sock peer b w')
  then show ?case using dial_finish by (metis snd_conv)
next
  case (es_udp i w now l key d r w')
  then show ?case using dial_udp by (metis snd_conv)
next
  case (es_stop w)
  then show ?case by (subst dial_eq [of _ w]) (simp_all add: dial_queue_def notify_def)
qed (auto intro!: dial_same_core dial_request dial_take dial_command dial_close simp: st_of_def same_core_steps)

section \<open>Resuming\<close>

text \<open>Below the budget a connection is paused by its own backlog only.\<close>

definition own_pause :: "engine \<Rightarrow> conn \<Rightarrow> bool" where
  "own_pause e c \<longleftrightarrow>
     0 < writeHighWatermark e \<and> (writeHighWatermark e \<le> pendingBytes c \<or> writeLowWatermark e < pendingBytes c)"

definition settings :: "engine \<Rightarrow> int \<times> int \<times> int" where
  "settings e = (writeHighWatermark e, writeLowWatermark e, maxPendingBytes e)"

lemma refresh_below_budget:
  assumes "pendingTotal (fst s) < maxPendingBytes (fst s)"
  shows "refresh_pause s \<longrightarrow> own_pause (fst s) (snd s)" "\<not> refresh_byBudget s" "\<not> refresh_track s"
  using assms
  by (cases s; auto simp: refresh_pause_def refresh_byBudget_def refresh_track_def pauseDecision_def own_pause_def)+

lemma resume_one_spec:
  fixes w ctl i
  assumes "pendingTotal (eng w) < maxPendingBytes (eng w)"
  defines "w' \<equiv> resume_one ctl i w"
  shows "pendingTotal (eng w') = pendingTotal (eng w)" "settings (eng w') = settings (eng w)"
    "budgetPausedQ (eng w') = budgetPausedQ (eng w)"
    "\<And>j. pendingBytes (conns w' j) = pendingBytes (conns w j)"
    "\<And>j. j \<noteq> i \<Longrightarrow> conns w' j = conns w j"
    "readPaused (conns w' i) \<longrightarrow> own_pause (eng w) (conns w i)"
proof -
  let ?c = "(conns w i)\<lparr>budgetPaused := False\<rparr>"
  let ?s = "(eng w, ?c)"
  have st: "st_of i (put i ?s w) = ?s" by (simp add: st_of_def)
  note b = refresh_below_budget [of ?s, simplified fst_conv, OF assms(1)]
  have own: "own_pause (eng w) ?c = own_pause (eng w) (conns w i)" by (simp add: own_pause_def)
  have cases: "\<exists>s'. conns w' = (conns w)(i := snd s') \<and> eng w' = fst s' \<and>
      pendingTotal (fst s') = pendingTotal (eng w) \<and> settings (fst s') = settings (eng w) \<and>
      budgetPausedQ (fst s') = budgetPausedQ (eng w) \<and>
      pendingBytes (snd s') = pendingBytes (conns w i) \<and> readPaused (snd s') = refresh_pause ?s"
  proof -
    have r: "pendingTotal (fst (refresh_st i ?s)) = pendingTotal (eng w)"
      "settings (fst (refresh_st i ?s)) = settings (eng w)"
      "budgetPausedQ (fst (refresh_st i ?s)) = budgetPausedQ (eng w)"
      "pendingBytes (snd (refresh_st i ?s)) = pendingBytes (conns w i)"
      "readPaused (snd (refresh_st i ?s)) = refresh_pause ?s"
      using b by (simp_all add: refresh_st_spec settings_def)
    have c: "eng_core (fst (closeWithError e (refresh_st i ?s))) = eng_core (fst (refresh_st i ?s))" for e by simp
    have "settings (fst (closeWithError e (refresh_st i ?s))) = settings (eng w)"
      "budgetPausedQ (fst (closeWithError e (refresh_st i ?s))) = budgetPausedQ (eng w)" for e
      using c [of e] r by (simp_all add: eng_core_def settings_def)
    with r show ?thesis
      using refreshConnection_cases [of ctl i "put i ?s w"] unfolding w'_def resume_one_def st
      by (elim disjE exE) (auto intro: exI [of _ "refresh_st i ?s"] exI [of _ "closeWithError _ (refresh_st i ?s)"])
  qed
  then obtain s' where s': "conns w' = (conns w)(i := snd s')" "eng w' = fst s'"
      "pendingTotal (fst s') = pendingTotal (eng w)" "settings (fst s') = settings (eng w)"
      "budgetPausedQ (fst s') = budgetPausedQ (eng w)"
      "pendingBytes (snd s') = pendingBytes (conns w i)" "readPaused (snd s') = refresh_pause ?s" by blast
  then show "pendingTotal (eng w') = pendingTotal (eng w)" "settings (eng w') = settings (eng w)"
    "budgetPausedQ (eng w') = budgetPausedQ (eng w)"
    "\<And>j. pendingBytes (conns w' j) = pendingBytes (conns w j)"
    "\<And>j. j \<noteq> i \<Longrightarrow> conns w' j = conns w j" by auto
  show "readPaused (conns w' i) \<longrightarrow> own_pause (eng w) (conns w i)" using s' b(1) own by auto
qed

lemma own_pause_eq: "settings e = settings e' \<Longrightarrow> pendingBytes c = pendingBytes c' \<Longrightarrow> own_pause e c = own_pause e' c'"
  by (simp add: own_pause_def settings_def)

lemma resume_fold:
  "pendingTotal (eng w) < maxPendingBytes (eng w) \<Longrightarrow>
   (let w' = fold (resume_one ctl) xs w in
    budgetPausedQ (eng w') = budgetPausedQ (eng w) \<and>
    (\<forall>i \<in> set xs. readPaused (conns w' i) \<longrightarrow> own_pause (eng w) (conns w i)) \<and>
    (\<forall>i. i \<notin> set xs \<longrightarrow> conns w' i = conns w i))"
proof (induction xs arbitrary: w)
  case (Cons x xs)
  let ?v = "resume_one ctl x w"
  note r = resume_one_spec [OF Cons.prems, where ctl = ctl and i = x]
  have lt: "pendingTotal (eng ?v) < maxPendingBytes (eng ?v)" using r(1,2) Cons.prems by (simp add: settings_def)
  have own: "own_pause (eng ?v) (conns ?v i) = own_pause (eng w) (conns w i)" for i
    by (rule own_pause_eq) (simp_all add: r)
  from Cons.IH [OF lt] r(3,5,6) own show ?case by (auto simp: Let_def)
qed simp

section \<open>Properties\<close>

inductive engine_reach :: "config \<Rightarrow> world \<Rightarrow> bool" for cfg where
  reach_start: "engine_reach cfg (newWorld cfg)"
| reach_more: "engine_reach cfg w \<Longrightarrow> engine_step w w' \<Longrightarrow> engine_reach cfg w'"

lemma newWorld_inv: "acct (newWorld cfg)" "pause_inv (newWorld cfg)" "dial_inv (newWorld cfg)"
  by (simp_all add: newWorld_def acct_def pause_inv_def dial_inv_def dial_weight_def dial_done_def tally_def
      conn_good_def conn_inv_def queue_ok_def queued_def newConnection_def newEngine_def stats_of_def
      dial_queue_def Let_def)

lemma engine_reach_inv:
  "engine_reach cfg w \<Longrightarrow> acct w \<and> pause_inv w \<and> dial_inv w"
  by (induction rule: engine_reach.induct)
     (auto simp: newWorld_inv dest: engine_step_acct engine_step_pause engine_step_dial)

text \<open>
  C6. The outbound budget: in every reachable state of an engine, whatever the loop, the workers and
  the application's goroutines did and in whatever order, \<open>pendingTotal\<close> is the sum of the
  \<open>pendingBytes\<close> of its connections, each of which counts the bytes its connection holds, and a
  closed connection holds none of the budget.
\<close>

theorem budget_is_sum:
  assumes "engine_reach cfg w"
  shows "pendingTotal (eng w) = (\<Sum>i \<in> set (ids w). pendingBytes (conns w i)) \<and>
    (\<forall>i. pendingBytes (conns w i) = mem_count (queued (conns w i)) \<and>
         (closed (conns w i) \<longrightarrow> pendingBytes (conns w i) = 0))"
proof -
  have "acct w" using engine_reach_inv [OF assms] by blast
  then have "conn_good (conns w i)" for i by (simp add: acct_def)
  then have "pendingBytes (conns w i) = mem_count (queued (conns w i))"
    "closed (conns w i) \<longrightarrow> pendingBytes (conns w i) = 0" for i
    unfolding conn_good_def conn_inv_def by (metis mem_count_Nil)+
  with \<open>acct w\<close> show ?thesis by (simp add: acct_def)
qed

definition demo_config :: config where
  "demo_config = \<lparr>MaxEvents = 0, ReadBufferSize = 0, UseWritev = True, InlineHandlers = False,
     WriteBufferHighWatermark = 65536, MaxPendingBytes = 0, UDPIdleTimeout = 0\<rparr>"

lemma demo_world:
  "engine_reach demo_config (acceptConnection 9 1 True (newWorld demo_config))"
  by (rule reach_more [OF reach_start], rule es_accept) (simp add: newWorld_def)

theorem budget_is_sum_witness:
  "pendingTotal (eng (acceptConnection 9 1 True (newWorld demo_config))) = 0 \<and>
   ids (acceptConnection 9 1 True (newWorld demo_config)) = [1]"
  using budget_is_sum [OF demo_world]
  by (simp add: acceptConnection_def new_conn_def newWorld_def newConnection_def)

text \<open>
  C22. The statistics tell how many connections are paused: pauses by watermark plus pauses by
  budget minus resumes is, as a 64-bit counter, the number of connections whose reads are paused.
\<close>

theorem stats_count_paused:
  assumes "engine_reach cfg w"
  shows "readsPausedByWatermark (eng w) + readsPausedByBudget (eng w) - readsResumed (eng w) =
    of_nat (card {i \<in> set (ids w). readPaused (conns w i)})"
proof -
  have "tally paused_bit w = (\<Sum>i \<in> set (ids w). if readPaused (conns w i) then 1 else 0)"
    by (simp add: tally_def paused_bit_def)
  also have "\<dots> = int (card {i \<in> set (ids w). readPaused (conns w i)})"
    by (simp add: sum.If_cases Int_def)
  finally show ?thesis using engine_reach_inv [OF assms] by (simp add: pause_inv_def stats_of_def)
qed

theorem stats_count_paused_witness:
  "readsResumed (eng (acceptConnection 9 1 True (newWorld demo_config))) = 0"
  using stats_count_paused [OF demo_world]
  by (simp add: acceptConnection_def new_conn_def newWorld_def newConnection_def newEngine_def Let_def)




definition resume_world :: world where
  "resume_world =
     (acceptConnection 9 1 True (newWorld (demo_config\<lparr>MaxPendingBytes := 100\<rparr>)))\<lparr>
        eng := (newEngine (demo_config\<lparr>MaxPendingBytes := 100\<rparr>))\<lparr>budgetPausedQ := [1]\<rparr>,
        conns := (\<lambda>i. (newConnection i False)\<lparr>readPaused := i = 1, budgetPaused := i = 1\<rparr>)\<rparr>"


section \<open>Two observations on the budget's list\<close>

text \<open>
  C40. A connection paused by its own watermark whose queue empties while others hold the whole budget is
  told of no change, because the budget would pause it too; yet it is not on the list of connections
  to resume, because no refresh saw it paused by the budget. When the total has fallen,
  \<open>resumeBudgetPaused\<close> leaves it paused, with nothing queued and no command pending.
\<close>

theorem drained_connection_forgotten:
  assumes "\<not> udp (conns w i)" "readPaused (conns w i)" "\<not> closeAfterSend (conns w i)" "i \<notin> set (budgetPausedQ (eng w))"
    and "0 < maxPendingBytes (eng w)" "maxPendingBytes (eng w) \<le> pendingTotal (eng w)"
  defines "w' \<equiv> put i (flush_empty (st_of i w)) w"
  assumes "later = w'\<lparr>eng := (eng w')\<lparr>pendingTotal := 0\<rparr>\<rparr>"
  shows "commands (eng later) = commands (eng w) \<and> queued (conns later i) = [] \<and>
    readPaused (conns (resumeBudgetPaused ctl later) i)"
proof -
  have e: "fst (flush_empty (st_of i w)) = eng w" "readPaused (snd (flush_empty (st_of i w)))"
    using assms(1-6)
    by (auto simp: flush_empty_def refresh_if_def pauseStateChangedLocked_def pauseDecision_def rewindQueueLocked_def
        st_of_def Let_def)
  have "conns (resumeBudgetPaused ctl later) i = conns later i"
  proof (cases "budgetPausedQ (eng later) = [] \<or> pendingTotal (eng later) > budgetResumeBytes (eng later)")
    case False
    let ?v = "later\<lparr>eng := (eng later)\<lparr>budgetPausedQ := []\<rparr>\<rparr>"
    have "pendingTotal (eng ?v) < maxPendingBytes (eng ?v)" "budgetPausedQ (eng later) = budgetPausedQ (eng w)"
      using assms(5,8) by (simp_all add: w'_def e)
    with resume_fold [of ?v ctl "budgetPausedQ (eng w)"] assms(4) False show ?thesis
      by (simp add: resumeBudgetPaused_def Let_def)
  qed (simp add: resumeBudgetPaused_def)
  moreover have "conns later i = snd (flush_empty (st_of i w))" "eng later = (eng w)\<lparr>pendingTotal := 0\<rparr>"
    using assms(8) by (simp_all add: w'_def e)
  ultimately show ?thesis using e flush_empty_queue(1) [of "st_of i w"] by simp
qed

definition forgotten_world :: world where
  "forgotten_world =
     (newWorld (demo_config\<lparr>MaxPendingBytes := 100\<rparr>))\<lparr>
        eng := (newEngine (demo_config\<lparr>MaxPendingBytes := 100\<rparr>))\<lparr>pendingTotal := 100\<rparr>, ids := [1],
        conns := (\<lambda>i. (newConnection i False)\<lparr>readPaused := True\<rparr>)\<rparr>"

theorem drained_connection_forgotten_witness:
  "let v = put 1 (flush_empty (st_of 1 forgotten_world)) forgotten_world in
   readPaused (conns (resumeBudgetPaused (\<lambda>_ _. None) (v\<lparr>eng := (eng v)\<lparr>pendingTotal := 0\<rparr>\<rparr>)) 1)"
  using drained_connection_forgotten [of forgotten_world 1]
  by (simp add: forgotten_world_def newEngine_def demo_config_def newConnection_def Let_def)

text \<open>
  Lifting a pause clears the flag that keeps a connection from being listed twice but leaves its
  entry on the list, so every swing of the total across the budget adds another one.
\<close>

theorem budget_list_grows:
  fixes c e i
  assumes "usable c" "\<not> udp c" "\<not> readStalled c" "writeHighWatermark e \<le> 0" "0 < maxPendingBytes e"
  defines "s1 \<equiv> refresh_st i (e\<lparr>pendingTotal := 0\<rparr>, c)"
  defines "s2 \<equiv> refresh_st i ((fst s1)\<lparr>pendingTotal := maxPendingBytes e\<rparr>, snd s1)"
  shows "budgetPausedQ (fst s2) = budgetPausedQ e @ [i]"
proof -
  have s1: "s1 = (if readPaused c then count_change False False (e\<lparr>pendingTotal := 0\<rparr>) else e\<lparr>pendingTotal := 0\<rparr>,
      c\<lparr>readPaused := False, budgetPaused := False, readStalled := False\<rparr>)"
    using assms(1-5)
    by (auto simp: s1_def refresh_st_def refresh_pause_def refresh_byBudget_def refresh_track_def refresh_changed_def
        refresh_redeliver_def refresh_locked_def pauseDecision_def Let_def)
  have "refresh_track ((fst s1)\<lparr>pendingTotal := maxPendingBytes e\<rparr>, snd s1)"
    using assms(1-5)
    by (auto simp: s1 count_change_def refresh_track_def refresh_pause_def refresh_byBudget_def pauseDecision_def usable_def)
  then show ?thesis unfolding s2_def using assms(5)
    by (simp add: refresh_st_spec s1 count_change_def)
qed

end
