(* ===== verification/Stream_Buffers.thy ===== *)
theory Stream_Buffers
  imports Prelude
begin

text \<open>
  The buffers of a QUIC stream, \<open>src/go/http3/internal/quic/buffer.go\<close>: the sorted span lists that
  record lost and acknowledged ranges, the send buffer, the reassembly buffer and the set of packet
  numbers received. Offsets and packet numbers are \<open>uint64\<close>; the protocol keeps them below \<open>2^62\<close>,
  which is what the statements assume where an addition could wrap.
\<close>

section \<open>Spans\<close>

record span =
  sp_off :: u64
  sp_end :: u64

text \<open>The loop of \<open>addSpan\<close>: absorb the spans from \<open>j\<close> on that \<open>s\<close> reaches.\<close>

function merge_loop :: "span list \<Rightarrow> nat \<Rightarrow> span \<Rightarrow> span \<times> nat" where
  "merge_loop spans j s =
     (if j < length spans \<and> sp_off (spans ! j) \<le> sp_end s
      then merge_loop spans (j + 1)
             \<lparr>sp_off = min (sp_off s) (sp_off (spans ! j)), sp_end = max (sp_end s) (sp_end (spans ! j))\<rparr>
      else (s, j))"
  by pat_completeness auto
termination
  by (relation "measure (\<lambda>(spans, j, s). length spans - j)") auto

declare merge_loop.simps [simp del]

definition addSpan :: "span list \<Rightarrow> span \<Rightarrow> span list" where
  "addSpan spans s =
     (if sp_end s \<le> sp_off s then spans
      else
        (let i = sort_search (length spans) (\<lambda>k. sp_off s \<le> sp_end (spans ! k));
             (s', j) = merge_loop spans i s
         in if i = j then insert_at i s' spans else take i spans @ [s'] @ drop j spans))"

section \<open>The send buffer\<close>

record qsendBuffer =
  base :: u64
  buf :: bytes
  nextoff :: u64
  lost :: "span list"
  acked :: "span list"

definition sb_end :: "qsendBuffer \<Rightarrow> u64" where
  "sb_end b = base b + of_nat (length (buf b))"

definition sb_write :: "bytes \<Rightarrow> qsendBuffer \<Rightarrow> qsendBuffer" where
  "sb_write p b = b\<lparr>buf := buf b @ p\<rparr>"

definition hasLost :: "qsendBuffer \<Rightarrow> bool \<times> qsendBuffer" where
  "hasLost b =
     (let l = dropWhile (\<lambda>s. sp_end s \<le> base b) (lost b) in (l \<noteq> [], b\<lparr>lost := l\<rparr>))"

text \<open>\<open>b.buf[a-b.base : e-b.base]\<close>.\<close>

definition sb_slice :: "u64 \<Rightarrow> u64 \<Rightarrow> qsendBuffer \<Rightarrow> bytes" where
  "sb_slice a e b = subslice (unat (a - base b)) (unat (e - base b)) (buf b)"

definition popLost :: "u64 \<Rightarrow> qsendBuffer \<Rightarrow> (u64 \<times> bytes) \<times> qsendBuffer" where
  "popLost n b =
     (let (has, b1) = hasLost b in
      if \<not> has \<or> n = 0 then ((0, []), b1)
      else
        (let s = hd (lost b1);
             off = max (sp_off s) (base b1);
             e = min (sp_end s) (off + n);
             s' = s\<lparr>sp_off := e\<rparr>
         in ((off, sb_slice off e b1),
             b1\<lparr>lost := (if sp_end s' \<le> sp_off s' then tl (lost b1) else s' # tl (lost b1))\<rparr>)))"

definition popNew :: "u64 \<Rightarrow> qsendBuffer \<Rightarrow> (u64 \<times> bytes) \<times> qsendBuffer" where
  "popNew n b =
     (let off = nextoff b; e = min (sb_end b) (off + n) in ((off, sb_slice off e b), b\<lparr>nextoff := e\<rparr>))"

definition onAck :: "u64 \<Rightarrow> u64 \<Rightarrow> qsendBuffer \<Rightarrow> qsendBuffer" where
  "onAck off n b =
     (let a = addSpan (acked b) \<lparr>sp_off = off, sp_end = off + n\<rparr>; b1 = b\<lparr>acked := a\<rparr> in
      if a = [] \<or> sp_off (hd a) > base b then b1
      else
        (let newBase = sp_end (hd a); b2 = b1\<lparr>acked := tl a\<rparr> in
         if newBase \<le> base b then b2
         else b2\<lparr>buf := drop (unat (newBase - base b)) (buf b), base := newBase\<rparr>))"

definition onLost :: "u64 \<Rightarrow> u64 \<Rightarrow> qsendBuffer \<Rightarrow> qsendBuffer" where
  "onLost off n b =
     (let e = off + n; off1 = max off (base b) in
      if e \<le> off1 then b else b\<lparr>lost := addSpan (lost b) \<lparr>sp_off = off1, sp_end = e\<rparr>\<rparr>)"

definition allAcked :: "qsendBuffer \<Rightarrow> bool" where
  "allAcked b \<longleftrightarrow> buf b = []"

section \<open>The reassembly buffer\<close>

record segment =
  sg_off :: u64
  sg_data :: bytes

record recvBuffer =
  rb_offset :: u64
  segments :: "segment list"
  buffered :: int

definition rb_push :: "u64 \<Rightarrow> bytes \<Rightarrow> recvBuffer \<Rightarrow> recvBuffer" where
  "rb_push off data r =
     (let e = off + of_nat (length data) in
      if e \<le> rb_offset r \<or> data = [] then r
      else
        (let (data1, off1) = (if off < rb_offset r then (drop (unat (rb_offset r - off)) data, rb_offset r)
                              else (data, off));
             i = sort_search (length (segments r)) (\<lambda>k. sg_off (segments r ! k) > off1)
         in r\<lparr>segments := insert_at i \<lparr>sg_off = off1, sg_data = data1\<rparr> (segments r),
              buffered := buffered r + int (length data1)\<rparr>))"

fun pop_loop :: "segment list \<Rightarrow> u64 \<Rightarrow> int \<Rightarrow> bytes option \<times> segment list \<times> u64 \<times> int" where
  "pop_loop [] off n = (None, [], off, n)"
| "pop_loop (s # ss) off n =
     (if sg_off s > off then (None, s # ss, off, n)
      else
        (let e = sg_off s + of_nat (length (sg_data s)); n1 = n - int (length (sg_data s)) in
         if e \<le> off then pop_loop ss off n1
         else (Some (drop (unat (off - sg_off s)) (sg_data s)), ss, e, n1)))"

definition rb_pop :: "recvBuffer \<Rightarrow> bytes option \<times> recvBuffer" where
  "rb_pop r =
     (case pop_loop (segments r) (rb_offset r) (buffered r) of
        (d, ss, off, n) \<Rightarrow> (d, r\<lparr>segments := ss, rb_offset := off, buffered := n\<rparr>))"

section \<open>Packet numbers received\<close>

record pnRange =
  lo :: u64
  hi :: u64

definition maxAckRanges :: nat where
  "maxAckRanges = 32"

definition rangeSet_add :: "u64 \<Rightarrow> pnRange list \<Rightarrow> bool \<times> pnRange list" where
  "rangeSet_add pn r =
     (if r \<noteq> [] \<and> pn < lo (r ! 0) \<and> length r = maxAckRanges then (False, r)
      else
        (let i = sort_search (length r) (\<lambda>k. hi (r ! k) + 1 \<ge> pn) in
         if i < length r \<and> lo (r ! i) \<le> pn \<and> pn \<le> hi (r ! i) then (False, r)
         else
           (let r1 =
              (if i < length r \<and> hi (r ! i) + 1 = pn then
                 (if i + 1 < length r \<and> lo (r ! (i + 1)) = pn + 1
                  then take i r @ [(r ! i)\<lparr>hi := hi (r ! (i + 1))\<rparr>] @ drop (i + 2) r
                  else r[i := (r ! i)\<lparr>hi := pn\<rparr>])
               else if i < length r \<and> lo (r ! i) = pn + 1 then r[i := (r ! i)\<lparr>lo := pn\<rparr>]
               else insert_at i \<lparr>lo = pn, hi = pn\<rparr> r)
            in (True, if length r1 > maxAckRanges then tl r1 else r1))))"

definition rangeSet_largest :: "pnRange list \<Rightarrow> u64" where
  "rangeSet_largest r = hi (r ! (length r - 1))"

section \<open>Span lists as sets\<close>

definition points :: "span \<Rightarrow> u64 set" where
  "points s = {sp_off s ..< sp_end s}"

definition covered :: "span list \<Rightarrow> u64 set" where
  "covered xs = (\<Union>s \<in> set xs. points s)"

definition spans_ok :: "span list \<Rightarrow> bool" where
  "spans_ok xs \<longleftrightarrow>
     (\<forall>s \<in> set xs. sp_off s < sp_end s) \<and> sorted_wrt (\<lambda>a b. sp_end a < sp_off b) xs"

lemma covered_simps [simp]:
  "covered [] = {}" "covered (s # xs) = points s \<union> covered xs" "covered (xs @ ys) = covered xs \<union> covered ys"
  by (auto simp: covered_def)

lemma points_merge:
  assumes "sp_off s < sp_end s" "sp_off t < sp_end t" "sp_off t \<le> sp_end s" "sp_off s \<le> sp_end t"
  shows "points \<lparr>sp_off = min (sp_off s) (sp_off t), sp_end = max (sp_end s) (sp_end t)\<rparr> = points s \<union> points t"
  using assms by (auto simp: points_def min_def max_def split: if_splits)

lemma merge_loop_spec:
  assumes "\<forall>t \<in> set (drop j xs). sp_off s \<le> sp_end t" "sp_off s < sp_end s" "spans_ok (drop j xs)" "j \<le> length xs"
  shows "\<exists>s' k. merge_loop xs j s = (s', k) \<and> j \<le> k \<and> k \<le> length xs \<and> sp_off s' < sp_end s' \<and>
    points s' \<union> covered (drop k xs) = points s \<union> covered (drop j xs) \<and>
    (\<forall>t \<in> set (drop k xs). sp_end s' < sp_off t) \<and>
    (\<forall>t::span. sp_end t < sp_off s \<and> (\<forall>u \<in> set (drop j xs). sp_end t < sp_off u) \<longrightarrow> sp_end t < sp_off s')"
  using assms
proof (induction xs j s rule: merge_loop.induct)
  case (1 xs j s)
  show ?case
  proof (cases "j < length xs \<and> sp_off (xs ! j) \<le> sp_end s")
    case True
    let ?t = "xs ! j"
    let ?m = "\<lparr>sp_off = min (sp_off s) (sp_off ?t), sp_end = max (sp_end s) (sp_end ?t)\<rparr>"
    have d: "drop j xs = ?t # drop (j + 1) xs" using True by (simp add: Cons_nth_drop_Suc)
    have t: "sp_off ?t < sp_end ?t" "sp_off s \<le> sp_end ?t" using "1.prems"(1,3) by (auto simp: d spans_ok_def)
    have p: "points ?m = points s \<union> points ?t" using True t "1.prems"(2) by (intro points_merge) auto
    have ok: "spans_ok (drop (j + 1) xs)" using "1.prems"(3) by (auto simp: d spans_ok_def)
    have m: "\<forall>u \<in> set (drop (j + 1) xs). sp_off ?m \<le> sp_end u" using "1.prems"(1) by (auto simp: d min_le_iff_disj)
    have m': "sp_off ?m < sp_end ?m" using t "1.prems"(2) by (auto simp: min_def max_def)
    have "j + 1 \<le> length xs" using True by simp
    from "1.IH" [OF True m m' ok this] obtain s' k where sk: "merge_loop xs (j + 1) ?m = (s', k)" "j + 1 \<le> k" "k \<le> length xs"
      "sp_off s' < sp_end s'" "points s' \<union> covered (drop k xs) = points ?m \<union> covered (drop (j + 1) xs)"
      "\<forall>u \<in> set (drop k xs). sp_end s' < sp_off u"
      "\<forall>u::span. sp_end u < sp_off ?m \<and> (\<forall>v \<in> set (drop (j + 1) xs). sp_end u < sp_off v) \<longrightarrow> sp_end u < sp_off s'"
      by (elim exE conjE) (rule that, assumption+)
    have "merge_loop xs j s = (s', k)" using sk(1) True by (simp add: merge_loop.simps [of xs j s])
    moreover have "\<forall>u::span. sp_end u < sp_off s \<and> (\<forall>v \<in> set (drop j xs). sp_end u < sp_off v) \<longrightarrow> sp_end u < sp_off s'"
      using sk(7) by (simp add: d)
    ultimately show ?thesis using sk(2-6) p by (auto simp: d)
  next
    case False
    have "\<forall>t \<in> set (drop j xs). sp_end s < sp_off t"
    proof (cases "j < length xs")
      case True
      with False have "sp_end s < sp_off (xs ! j)" by auto
      moreover have d: "drop j xs = xs ! j # drop (j + 1) xs" using True by (simp add: Cons_nth_drop_Suc)
      ultimately show ?thesis using "1.prems"(3) by (fastforce simp: d spans_ok_def)
    qed simp
    moreover have "merge_loop xs j s = (s, j)" by (subst merge_loop.simps) (use False in auto)
    ultimately show ?thesis using "1.prems" by auto
  qed
qed

lemma addSpan_spec:
  assumes ok: "spans_ok xs"
  shows "spans_ok (addSpan xs s) \<and> covered (addSpan xs s) = covered xs \<union> points s"
proof (cases "sp_end s \<le> sp_off s")
  case True
  then show ?thesis using ok by (simp add: addSpan_def points_def)
next
  case False
  define i where "i = sort_search (length xs) (\<lambda>k. sp_off s \<le> sp_end (xs ! k))"
  have mono: "\<forall>a b. a \<le> b \<longrightarrow> b < length xs \<longrightarrow> sp_off s \<le> sp_end (xs ! a) \<longrightarrow> sp_off s \<le> sp_end (xs ! b)"
  proof (intro allI impI)
    fix a b assume ab: "a \<le> b" "b < length xs" "sp_off s \<le> sp_end (xs ! a)"
    have "sp_end (xs ! a) \<le> sp_end (xs ! b)"
    proof (cases "a = b")
      case False
      then have "sp_end (xs ! a) < sp_off (xs ! b)" "sp_off (xs ! b) < sp_end (xs ! b)"
        using ok ab by (auto simp: spans_ok_def sorted_wrt_iff_nth_less)
      then show ?thesis by simp
    qed simp
    with ab(3) show "sp_off s \<le> sp_end (xs ! b)" by (rule order_trans)
  qed
  note sp = sort_search_split [of xs "\<lambda>t. sp_off s \<le> sp_end t", OF mono, folded i_def]
  have "spans_ok (take i xs @ drop i xs)" using ok by simp
  then have okd: "spans_ok (drop i xs)" "spans_ok (take i xs)" "\<forall>a \<in> set (take i xs). \<forall>b \<in> set (drop i xs). sp_end a < sp_off b"
    unfolding spans_ok_def sorted_wrt_append set_append by blast+
  obtain s' k where sk: "merge_loop xs i s = (s', k)" "i \<le> k" "k \<le> length xs" "sp_off s' < sp_end s'"
    "points s' \<union> covered (drop k xs) = points s \<union> covered (drop i xs)" "\<forall>t \<in> set (drop k xs). sp_end s' < sp_off t"
    "\<forall>t::span. sp_end t < sp_off s \<and> (\<forall>u \<in> set (drop i xs). sp_end t < sp_off u) \<longrightarrow> sp_end t < sp_off s'"
    using merge_loop_spec [OF sp(3) _ okd(1) sp(1)] False by fastforce
  have r: "addSpan xs s = take i xs @ s' # drop k xs"
    using False sk(1) by (auto simp: addSpan_def i_def [symmetric] Let_def insert_at_def)
  have sub: "set (drop k xs) \<subseteq> set (drop i xs)" using sk(2) by (rule set_drop_subset_set_drop)
  have "spans_ok (drop k xs)" using ok by (auto simp: spans_ok_def sorted_wrt_drop dest: in_set_dropD)
  moreover have "\<forall>t \<in> set (take i xs). sp_end t < sp_off s'" using sk(7) sp(2) okd(3) by auto
  ultimately have "spans_ok (addSpan xs s)"
    using okd sk(4,6) sub unfolding r spans_ok_def by (auto simp: sorted_wrt_append)
  moreover have "covered (addSpan xs s) = covered (take i xs) \<union> covered (drop i xs) \<union> points s"
    using sk(5) unfolding r by auto
  moreover have "covered (take i xs) \<union> covered (drop i xs) = covered xs"
    using covered_simps(3) [of "take i xs" "drop i xs"] by simp
  ultimately show ?thesis by simp
qed

text \<open>
  C27. \<open>addSpan\<close> keeps the list sorted, disjoint and free of touching spans, and the offsets the
  list covers afterwards are those it covered before together with those of the new span.
\<close>

theorem addSpan_is_union:
  assumes "spans_ok xs"
  shows "spans_ok (addSpan xs s) \<and> covered (addSpan xs s) = covered xs \<union> {sp_off s ..< sp_end s}"
  using addSpan_spec [OF assms, of s] by (simp add: points_def)

theorem addSpan_is_union_witness:
  "covered (addSpan [\<lparr>sp_off = 0, sp_end = 4\<rparr>, \<lparr>sp_off = 8, sp_end = 9\<rparr>] \<lparr>sp_off = 3, sp_end = 8\<rparr>) =
     {0 ..< 4} \<union> {8 ..< 9} \<union> {3 ..< 8}"
  using addSpan_is_union [of "[\<lparr>sp_off = 0, sp_end = 4\<rparr>, \<lparr>sp_off = 8, sp_end = 9\<rparr>]" "\<lparr>sp_off = 3, sp_end = 8\<rparr>"]
  by (simp add: spans_ok_def points_def)

section \<open>Packet numbers as a set\<close>

definition pn_limit :: u64 where
  "pn_limit = 2 ^ 62"

definition rs_mem :: "pnRange list \<Rightarrow> u64 set" where
  "rs_mem r = (\<Union>a \<in> set r. {lo a .. hi a})"

definition rs_ok :: "pnRange list \<Rightarrow> bool" where
  "rs_ok r \<longleftrightarrow>
     (\<forall>a \<in> set r. lo a \<le> hi a \<and> hi a < pn_limit) \<and> sorted_wrt (\<lambda>a b. hi a + 1 < lo b) r"

lemma rs_mem_simps [simp]:
  "rs_mem [] = {}" "rs_mem (a # r) = {lo a .. hi a} \<union> rs_mem r" "rs_mem (r @ s) = rs_mem r \<union> rs_mem s"
  by (auto simp: rs_mem_def)

lemma pn_succ:
  assumes "x < pn_limit"
  shows "x < x + 1" "x + 1 \<le> y \<longleftrightarrow> x < y" "y < x + 1 \<longleftrightarrow> y \<le> x"
proof -
  have "unat (x + 1) = unat x + 1"
    using assms by (subst unat_word_ariths(1)) (simp add: word_less_nat_alt pn_limit_def)
  then show "x < x + 1" "x + 1 \<le> y \<longleftrightarrow> x < y" "y < x + 1 \<longleftrightarrow> y \<le> x"
    by (auto simp: word_less_nat_alt word_le_nat_alt)
qed

lemma rs_ok_append:
  "rs_ok (A @ B) \<longleftrightarrow> rs_ok A \<and> rs_ok B \<and> (\<forall>a \<in> set A. \<forall>b \<in> set B. hi a + 1 < lo b)"
  by (auto simp: rs_ok_def sorted_wrt_append)

lemma rs_ok_Cons:
  "rs_ok (a # r) \<longleftrightarrow> lo a \<le> hi a \<and> hi a < pn_limit \<and> (\<forall>b \<in> set r. hi a + 1 < lo b) \<and> rs_ok r"
  by (auto simp: rs_ok_def)

lemma rs_mem_above: "rs_ok r \<Longrightarrow> x < y \<Longrightarrow> \<forall>b \<in> set r. y \<le> lo b \<Longrightarrow> x \<notin> rs_mem r"
  by (auto simp: rs_mem_def)

lemma rs_mem_below: "\<forall>a \<in> set r. hi a < x \<Longrightarrow> x \<notin> rs_mem r"
  by (auto simp: rs_mem_def)

text \<open>The search cuts the list where the packet number belongs.\<close>

lemma rs_search:
  fixes r pn
  assumes ok: "rs_ok r"
  defines "i \<equiv> sort_search (length r) (\<lambda>k. hi (r ! k) + 1 \<ge> pn)"
  shows "i \<le> length r" "\<forall>a \<in> set (take i r). hi a + 1 < pn" "\<forall>a \<in> set (drop i r). pn \<le> hi a + 1"
proof -
  have "hi (r ! a) + 1 \<le> hi (r ! b) + 1" if "a \<le> b" "b < length r" for a b
  proof (cases "a = b")
    case False
    with that ok have "hi (r ! a) + 1 < lo (r ! b)" "lo (r ! b) \<le> hi (r ! b)" "hi (r ! b) < pn_limit"
      by (auto simp: rs_ok_def sorted_wrt_iff_nth_less)
    then show ?thesis using pn_succ(1) [of "hi (r ! b)"] by simp
  qed simp
  then have "\<forall>a b. a \<le> b \<longrightarrow> b < length r \<longrightarrow> pn \<le> hi (r ! a) + 1 \<longrightarrow> pn \<le> hi (r ! b) + 1"
    by (meson order_trans)
  from sort_search_split [of r "\<lambda>a. pn \<le> hi a + 1", OF this, folded i_def]
  show "i \<le> length r" "\<forall>a \<in> set (take i r). hi a + 1 < pn" "\<forall>a \<in> set (drop i r). pn \<le> hi a + 1"
    by (simp_all add: not_le)
qed

lemma interval_up:
  fixes l :: "'a::linorder"
  assumes "l \<le> h" "h < p" "\<forall>x. x \<le> h \<or> p \<le> x"
  shows "{l .. p} = insert p {l .. h}"
  using assms by (auto intro: order.antisym)

lemma interval_join:
  fixes l :: "'a::linorder"
  assumes "l \<le> h" "h < p" "p < l'" "l' \<le> h'" "\<forall>x. x \<le> h \<or> x = p \<or> l' \<le> x"
  shows "{l .. h'} = insert p ({l .. h} \<union> {l' .. h'})"
proof (rule set_eqI)
  fix x
  show "x \<in> {l .. h'} \<longleftrightarrow> x \<in> insert p ({l .. h} \<union> {l' .. h'})"
    using assms(5) [rule_format, of x] assms(1-4) by auto
qed

text \<open>What \<open>add\<close> does to the list before it trims it.\<close>

lemma rs_insert:
  assumes "rs_ok (A @ B)" "pn < pn_limit" "\<forall>a \<in> set A. hi a + 1 < pn" "\<forall>b \<in> set B. pn + 1 < lo b"
  shows "rs_ok (A @ \<lparr>lo = pn, hi = pn\<rparr> # B)"
  using assms by (auto simp: rs_ok_append rs_ok_Cons)

lemma rs_extend_down:
  assumes "rs_ok (A @ b # B)" "pn < pn_limit" "\<forall>a \<in> set A. hi a + 1 < pn" "lo b = pn + 1"
  shows "rs_ok (A @ b\<lparr>lo := pn\<rparr> # B)" "{pn .. hi b} = insert pn {lo b .. hi b}"
proof -
  show "rs_ok (A @ b\<lparr>lo := pn\<rparr> # B)"
    using assms pn_succ(1) [of pn] by (auto simp: rs_ok_append rs_ok_Cons)
  show "{pn .. hi b} = insert pn {lo b .. hi b}"
    using assms pn_succ(1,2) [of pn] by (auto simp: rs_ok_append rs_ok_Cons)
qed

lemma rs_extend_up:
  assumes "rs_ok (A @ b # B)" "pn < pn_limit" "hi b + 1 = pn" "\<forall>c \<in> set B. lo c \<noteq> pn + 1"
  shows "rs_ok (A @ b\<lparr>hi := pn\<rparr> # B)" "{lo b .. pn} = insert pn {lo b .. hi b}"
proof -
  have hb: "hi b < pn_limit" "lo b \<le> hi b" using assms(1) by (auto simp: rs_ok_append rs_ok_Cons)
  note s = pn_succ [OF hb(1)]
  have "pn + 1 < lo c" if "c \<in> set B" for c
    using assms that pn_succ(2) [OF assms(2), of "lo c"] by (auto simp: rs_ok_append rs_ok_Cons order_less_le)
  then show "rs_ok (A @ b\<lparr>hi := pn\<rparr> # B)"
    using assms(1,2) hb s(1) assms(3) by (auto simp: rs_ok_append rs_ok_Cons)
  show "{lo b .. pn} = insert pn {lo b .. hi b}"
  proof (rule interval_up)
    show "hi b < pn" using s(1) assms(3) by simp
    show "\<forall>x. x \<le> hi b \<or> pn \<le> x" by (metis s(2) assms(3) not_le)
  qed (rule hb(2))
qed

lemma rs_merge:
  assumes "rs_ok (A @ b # c # B)" "pn < pn_limit" "hi b + 1 = pn" "lo c = pn + 1"
  shows "rs_ok (A @ b\<lparr>hi := hi c\<rparr> # B)" "{lo b .. hi c} = insert pn ({lo b .. hi b} \<union> {lo c .. hi c})"
proof -
  have hb: "hi b < pn_limit" "lo b \<le> hi b" "lo c \<le> hi c" using assms(1) by (auto simp: rs_ok_append rs_ok_Cons)
  note s = pn_succ [OF hb(1)] and p = pn_succ [OF assms(2)]
  show "rs_ok (A @ b\<lparr>hi := hi c\<rparr> # B)"
    using assms hb s(1) p(1) by (auto simp: rs_ok_append rs_ok_Cons)
  show "{lo b .. hi c} = insert pn ({lo b .. hi b} \<union> {lo c .. hi c})"
  proof (rule interval_join)
    show "hi b < pn" "pn < lo c" using s(1) p(1) assms(3,4) by simp_all
    show "\<forall>x. x \<le> hi b \<or> x = pn \<or> lo c \<le> x" by (metis s(2) p(2) assms(3,4) order_le_less not_le)
  qed (rule hb(2,3))+
qed

lemma rs_hd_least: "rs_ok r \<Longrightarrow> x \<in> rs_mem r \<Longrightarrow> lo (hd r) \<le> x"
proof (cases r)
  case (Cons a R)
  assume "rs_ok r" "x \<in> rs_mem r"
  moreover have "lo a \<le> lo b" if "b \<in> set R" "rs_ok r" for b
  proof -
    have "lo a \<le> hi a" "hi a < pn_limit" "hi a + 1 < lo b" using that by (simp_all add: Cons rs_ok_Cons)
    then show ?thesis using pn_succ(1) [of "hi a"] by (meson less_imp_le order_trans)
  qed
  ultimately show ?thesis unfolding Cons by (auto simp: rs_mem_def Cons intro: order_trans)
qed simp

lemma rs_notin_drop:
  assumes ok: "rs_ok B" and up: "\<forall>b \<in> set B. pn \<le> hi b + 1"
    and hd: "B \<noteq> [] \<Longrightarrow> \<not> (lo (hd B) \<le> pn \<and> pn \<le> hi (hd B))"
  shows "pn \<notin> rs_mem B"
proof
  assume mem: "pn \<in> rs_mem B"
  then obtain b B' where B: "B = b # B'" by (cases B) auto
  have "lo b \<le> pn" using rs_hd_least [OF ok mem] B by simp
  with hd have "hi b < pn" by (auto simp: B)
  moreover have "pn \<le> hi b + 1" using up by (simp add: B)
  moreover obtain c where c: "c \<in> set B'" "lo c \<le> pn" using mem hd by (auto simp: B rs_mem_def)
  moreover have "hi b + 1 < lo c" using ok c(1) by (simp add: B rs_ok_Cons)
  ultimately show False by (meson leD order_less_le_trans)
qed

definition rs_grow :: "u64 \<Rightarrow> nat \<Rightarrow> pnRange list \<Rightarrow> pnRange list" where
  "rs_grow pn i r =
     (if i < length r \<and> hi (r ! i) + 1 = pn then
        (if i + 1 < length r \<and> lo (r ! (i + 1)) = pn + 1
         then take i r @ [(r ! i)\<lparr>hi := hi (r ! (i + 1))\<rparr>] @ drop (i + 2) r
         else r[i := (r ! i)\<lparr>hi := pn\<rparr>])
      else if i < length r \<and> lo (r ! i) = pn + 1 then r[i := (r ! i)\<lparr>lo := pn\<rparr>]
      else insert_at i \<lparr>lo = pn, hi = pn\<rparr> r)"

lemma rangeSet_add_grow:
  "rangeSet_add pn r =
     (if r \<noteq> [] \<and> pn < lo (r ! 0) \<and> length r = maxAckRanges then (False, r)
      else (let i = sort_search (length r) (\<lambda>k. hi (r ! k) + 1 \<ge> pn) in
         if i < length r \<and> lo (r ! i) \<le> pn \<and> pn \<le> hi (r ! i) then (False, r)
         else (let r1 = rs_grow pn i r in (True, if length r1 > maxAckRanges then tl r1 else r1))))"
  unfolding rangeSet_add_def rs_grow_def by (rule refl)

lemma rs_grow_shapes:
  shows "rs_grow pn (length A) (A @ []) = A @ [\<lparr>lo = pn, hi = pn\<rparr>]"
    and "hi b + 1 = pn \<Longrightarrow> lo c = pn + 1 \<Longrightarrow> rs_grow pn (length A) (A @ b # c # B) = A @ b\<lparr>hi := hi c\<rparr> # B"
    and "hi b + 1 = pn \<Longrightarrow> B = [] \<or> lo (hd B) \<noteq> pn + 1 \<Longrightarrow> rs_grow pn (length A) (A @ b # B) = A @ b\<lparr>hi := pn\<rparr> # B"
    and "hi b + 1 \<noteq> pn \<Longrightarrow> lo b = pn + 1 \<Longrightarrow> rs_grow pn (length A) (A @ b # B) = A @ b\<lparr>lo := pn\<rparr> # B"
    and "hi b + 1 \<noteq> pn \<Longrightarrow> lo b \<noteq> pn + 1 \<Longrightarrow> rs_grow pn (length A) (A @ b # B) = A @ \<lparr>lo = pn, hi = pn\<rparr> # b # B"
  by (cases B; simp add: rs_grow_def insert_at_def nth_append)+

lemma rs_grow_spec:
  assumes ok: "rs_ok (A @ B)" and pn: "pn < pn_limit" and A: "\<forall>a \<in> set A. hi a + 1 < pn"
    and B: "\<forall>b \<in> set B. pn \<le> hi b + 1" "B \<noteq> [] \<Longrightarrow> \<not> (lo (hd B) \<le> pn \<and> pn \<le> hi (hd B))"
  defines "r1 \<equiv> rs_grow pn (length A) (A @ B)"
  shows "rs_ok r1 \<and> rs_mem r1 = insert pn (rs_mem (A @ B)) \<and> length r1 \<le> Suc (length (A @ B))"
proof (cases B)
  case Nil
  then show ?thesis using rs_insert [of A "[]" pn] ok pn A unfolding r1_def Nil rs_grow_shapes by auto
next
  case (Cons b B')
  have hb: "hi b < pn_limit" "lo b \<le> hi b" using ok by (auto simp: Cons rs_ok_append rs_ok_Cons)
  have far: "\<forall>c \<in> set B'. hi b + 1 < lo c" using ok by (auto simp: Cons rs_ok_append rs_ok_Cons)
  show ?thesis
  proof (cases "hi b + 1 = pn")
    case True
    show ?thesis
    proof (cases "B' = [] \<or> lo (hd B') \<noteq> pn + 1")
      case no: True
      have "\<forall>c \<in> set B'. lo c \<noteq> pn + 1"
      proof (cases B')
        case B': (Cons c C)
        have "lo c \<noteq> pn + 1" "pn < lo c" "lo c \<le> hi c" "\<forall>d \<in> set C. hi c + 1 < lo d" "hi c < pn_limit"
          using no far True ok by (auto simp: B' Cons rs_ok_append rs_ok_Cons)
        note c = this
        have "pn + 1 \<le> lo c" using pn_succ(2) [OF pn, of "lo c"] c(2) by blast
        then have le: "pn + 1 < hi c + 1" using c(3) pn_succ(1) [OF c(5)] by (metis order_le_less_trans)
        have "lo d \<noteq> pn + 1" if "d \<in> set C" for d using order_less_trans [OF le bspec [OF c(4) that]] by (metis order_less_irrefl)
        then show ?thesis using c(1) by (auto simp: B')
      qed simp
      with rs_extend_up [OF ok [unfolded Cons] pn True] show ?thesis
        unfolding r1_def Cons rs_grow_shapes(3) [OF True no] by auto
    next
      case False
      then obtain c C where B': "B' = c # C" "lo c = pn + 1" by (cases B') auto
      from rs_merge [OF ok [unfolded Cons B'(1)] pn True B'(2)] show ?thesis
        unfolding r1_def Cons B'(1) rs_grow_shapes(2) [OF True B'(2)] by auto
    qed
  next
    case False
    then have "pn < hi b + 1" using B(1) by (simp add: Cons order_less_le)
    then have lt: "pn < lo b" using B(2) pn_succ(3) [OF hb(1), of pn] by (auto simp: Cons not_le)
    show ?thesis
    proof (cases "lo b = pn + 1")
      case True
      from rs_extend_down [OF ok [unfolded Cons] pn A True] show ?thesis
        unfolding r1_def Cons rs_grow_shapes(4) [OF False True] by auto
    next
      case no: False
      then have "pn + 1 < lo b" using lt pn_succ(2) [OF pn, of "lo b"] by (metis order_le_less)
      moreover have "lo b \<le> lo c" if "c \<in> set B'" for c
        using far that hb pn_succ(1) [OF hb(1)] by (meson less_imp_le order_trans)
      ultimately have "\<forall>c \<in> set B. pn + 1 < lo c" by (auto simp: Cons intro: order_less_le_trans)
      from rs_insert [OF ok pn A this] show ?thesis
        unfolding r1_def Cons rs_grow_shapes(5) [OF False no] by auto
    qed
  qed
qed

lemma rangeSet_add_cases:
  assumes ok: "rs_ok r" and pn: "pn < pn_limit"
  obtains (old) "r \<noteq> []" "pn < lo (hd r)" "length r = maxAckRanges" "rangeSet_add pn r = (False, r)"
  | (dup) "pn \<in> rs_mem r" "rangeSet_add pn r = (False, r)"
  | (new) r1 where "pn \<notin> rs_mem r" "\<not> (r \<noteq> [] \<and> pn < lo (hd r) \<and> length r = maxAckRanges)"
      "rs_ok r1" "rs_mem r1 = insert pn (rs_mem r)" "length r1 \<le> Suc (length r)"
      "rangeSet_add pn r = (True, if length r1 > maxAckRanges then tl r1 else r1)"
proof (cases "r \<noteq> [] \<and> pn < lo (r ! 0) \<and> length r = maxAckRanges")
  case True
  then show ?thesis by (intro old) (simp_all add: rangeSet_add_grow hd_conv_nth)
next
  case False
  define i where "i = sort_search (length r) (\<lambda>k. hi (r ! k) + 1 \<ge> pn)"
  note sp = rs_search [OF ok, of pn, folded i_def]
  show ?thesis
  proof (cases "i < length r \<and> lo (r ! i) \<le> pn \<and> pn \<le> hi (r ! i)")
    case True
    then have "pn \<in> rs_mem r" by (auto simp: rs_mem_def intro!: bexI [of _ "r ! i"])
    with True False show ?thesis by (intro dup) (simp_all add: rangeSet_add_grow i_def [symmetric] Let_def)
  next
    case no: False
    let ?A = "take i r" and ?B = "drop i r"
    have A: "length ?A = i" using sp(1) by simp
    have hd: "\<not> (lo (hd ?B) \<le> pn \<and> pn \<le> hi (hd ?B))" if "?B \<noteq> []"
      using no that by (auto simp: hd_drop_conv_nth)
    note g = rs_grow_spec [of ?A ?B pn, unfolded append_take_drop_id A, OF ok pn sp(2,3) hd]
    have "pn \<notin> rs_mem ?A" using sp(2) pn_succ(1) ok
      by (intro rs_mem_below) (meson in_set_takeD order_less_trans rs_ok_def)
    moreover have "pn \<notin> rs_mem ?B"
      using rs_notin_drop [of "?B" pn] hd sp(3) ok rs_ok_append [of ?A ?B] by (metis append_take_drop_id)
    ultimately have "pn \<notin> rs_mem r" using rs_mem_simps(3) [of ?A ?B] by simp
    then show ?thesis
      using g False no by (intro new) (auto simp: rangeSet_add_grow i_def [symmetric] Let_def hd_conv_nth)
  qed
qed

text \<open>
  C28. \<open>rangeSet.add\<close> implements the set of packet numbers received, down to the oldest range it
  keeps: it answers false, changing nothing, exactly for a number it has or one that is older than
  all of 32 ranges; otherwise the number is in the set afterwards with everything that is not
  older than the ranges kept. The ranges stay ascending, disjoint, non-adjacent and at most 32.
\<close>

theorem rangeSet_add_is_insert:
  assumes ok: "rs_ok r" and len: "length r \<le> maxAckRanges" and pn: "pn < pn_limit"
    and add: "rangeSet_add pn r = (fresh, r')"
  shows "rs_ok r' \<and> length r' \<le> maxAckRanges \<and>
    (fresh \<longleftrightarrow> pn \<notin> rs_mem r \<and> \<not> (length r = maxAckRanges \<and> pn < lo (hd r))) \<and>
    (if fresh then rs_mem r' = {x \<in> insert pn (rs_mem r). lo (hd r') \<le> x} else r' = r)"
  using ok pn
proof (cases rule: rangeSet_add_cases)
  case old
  then show ?thesis using assms by auto
next
  case dup
  then show ?thesis using assms by auto
next
  case (new r1)
  have ne: "r1 \<noteq> []" using new(4) by auto
  have lo: "lo (hd r') \<le> x" if "rs_ok r'" "x \<in> rs_mem r'" for x r' using rs_hd_least that by blast
  show ?thesis
  proof (cases "length r1 > maxAckRanges")
    case False
    then show ?thesis using new add len lo ne by (auto simp: maxAckRanges_def)
  next
    case True
    then obtain a R where r1: "r1 = a # R" "R \<noteq> []" by (cases r1; cases "tl r1") (auto simp: maxAckRanges_def)
    then have r': "r' = R" "fresh" using new(6) add True by auto
    have ok': "rs_ok R" "hi a + 1 < lo (hd R)" "hi a < pn_limit" using new(3) r1 by (auto simp: rs_ok_Cons)
    have "x < lo (hd R)" if "x \<le> hi a" for x
      using that ok'(2) pn_succ(1) [OF ok'(3)] by (meson order_le_less_trans order_less_trans)
    then have "rs_mem R = {x \<in> {lo a .. hi a} \<union> rs_mem R. lo (hd R) \<le> x}"
      using lo [OF ok'(1)] by (auto simp: not_le [symmetric])
    then have "rs_mem R = {x \<in> insert pn (rs_mem r). lo (hd R) \<le> x}"
      using new(4) unfolding r1(1) rs_mem_simps by simp
    moreover have "length r \<noteq> maxAckRanges \<or> \<not> pn < lo (hd r)" using new(2) True new(5) by (auto simp: maxAckRanges_def)
    ultimately show ?thesis using r' new r1 len ok'(1) by (auto simp: maxAckRanges_def)
  qed
qed

theorem rangeSet_add_is_insert_witness:
  "rs_mem (snd (rangeSet_add 3 [\<lparr>lo = 2, hi = 2\<rparr>, \<lparr>lo = 4, hi = 6\<rparr>])) = {x \<in> {2, 3, 4, 5, 6}. 2 \<le> x}"
proof -
  have e: "rangeSet_add 3 [\<lparr>lo = 2, hi = 2\<rparr>, \<lparr>lo = 4, hi = 6\<rparr>] = (True, [\<lparr>lo = 2, hi = 6\<rparr>])"
    by code_simp
  have "{4 .. 6 :: u64} = {4, 5, 6}" by code_simp
  then show ?thesis using rangeSet_add_is_insert [OF _ _ _ e]
    by (auto simp: rs_ok_def pn_limit_def maxAckRanges_def e)
qed

definition even_packets :: "u64 list" where
  "even_packets = map (\<lambda>k. 2 * of_nat k) [0 ..< 33]"


section \<open>The send buffer against the stream written\<close>

text \<open>
  A send buffer's history: \<open>w\<close> is everything written, \<open>A\<close> the offsets acknowledged and \<open>L\<close> those
  declared lost and not handed out again since. Only what was handed out is acknowledged or lost.
\<close>

definition max_stream :: nat where
  "max_stream = 2 ^ 62"

definition new_sendBuffer :: qsendBuffer where
  "new_sendBuffer = \<lparr>base = 0, buf = [], nextoff = 0, lost = [], acked = []\<rparr>"

inductive sb_run :: "bytes \<Rightarrow> qsendBuffer \<Rightarrow> u64 set \<Rightarrow> u64 set \<Rightarrow> bool" where
  run_start: "sb_run [] new_sendBuffer {} {}"
| run_write: "sb_run w b A L \<Longrightarrow> length w + length p \<le> max_stream \<Longrightarrow> sb_run (w @ p) (sb_write p b) A L"
| run_new: "sb_run w b A L \<Longrightarrow> unat n \<le> max_stream \<Longrightarrow> popNew n b = ((off, d), b') \<Longrightarrow> sb_run w b' A L"
| run_again: "sb_run w b A L \<Longrightarrow> unat n \<le> max_stream \<Longrightarrow> popLost n b = ((off, d), b') \<Longrightarrow>
     sb_run w b' A (L - {off ..< off + of_nat (length d)})"
| run_lost: "sb_run w b A L \<Longrightarrow> unat off + unat n \<le> unat (nextoff b) \<Longrightarrow>
     sb_run w (onLost off n b) A (L \<union> {off ..< off + n})"
| run_ack: "sb_run w b A L \<Longrightarrow> unat off + unat n \<le> unat (nextoff b) \<Longrightarrow>
     sb_run w (onAck off n b) (A \<union> {off ..< off + n}) L"

definition sb_inv :: "bytes \<Rightarrow> qsendBuffer \<Rightarrow> u64 set \<Rightarrow> u64 set \<Rightarrow> bool" where
  "sb_inv w b A L \<longleftrightarrow>
     length w \<le> max_stream \<and> base b \<le> nextoff b \<and> unat (nextoff b) \<le> length w \<and>
     buf b = drop (unat (base b)) w \<and>
     spans_ok (lost b) \<and> (\<forall>s \<in> set (lost b). sp_end s \<le> nextoff b) \<and>
     spans_ok (acked b) \<and> (\<forall>s \<in> set (acked b). base b < sp_off s \<and> sp_end s \<le> nextoff b) \<and>
     A = {..< base b} \<union> covered (acked b) \<and>
     {x \<in> L. base b \<le> x} = {x \<in> covered (lost b). base b \<le> x}"

lemma spans_ok_append:
  "spans_ok (xs @ ys) \<longleftrightarrow> spans_ok xs \<and> spans_ok ys \<and> (\<forall>s \<in> set xs. \<forall>t \<in> set ys. sp_end s < sp_off t)"
  by (auto simp: spans_ok_def sorted_wrt_append)

lemma spans_ok_Cons:
  "spans_ok (s # xs) \<longleftrightarrow> sp_off s < sp_end s \<and> (\<forall>t \<in> set xs. sp_end s < sp_off t) \<and> spans_ok xs"
  by (auto simp: spans_ok_def)

lemma unat_plus: "unat x + unat y < 2 ^ 64 \<Longrightarrow> unat (x + y) = unat x + unat y" for x y :: u64
  by (subst unat_word_ariths(1)) simp

lemma unat_of_nat64: "n < 2 ^ 64 \<Longrightarrow> unat (of_nat n :: u64) = n"
  by (simp add: unsigned_of_nat take_bit_nat_eq_self)

lemma unat_minus: "y \<le> x \<Longrightarrow> unat (x - y) = unat x - unat y" for x y :: u64
  by (rule unat_sub)

lemma sb_end_spec:
  assumes "sb_inv w b A L"
  shows "unat (sb_end b) = length w" "unat (base b) \<le> length w"
proof -
  have *: "unat (base b) \<le> length w" "length w \<le> 2 ^ 62"
    using assms by (auto simp: sb_inv_def max_stream_def word_le_nat_alt)
  have "length (buf b) = length w - unat (base b)" using assms by (simp add: sb_inv_def)
  then have "unat (of_nat (length (buf b)) :: u64) = length w - unat (base b)"
    using * unat_of_nat64 [of "length (buf b)"] by simp
  then show "unat (sb_end b) = length w" unfolding sb_end_def using * by (subst unat_plus) simp_all
  show "unat (base b) \<le> length w" by (rule *(1))
qed

lemma sb_slice_spec:
  assumes inv: "sb_inv w b A L" and r: "base b \<le> a" "a \<le> e" "unat e \<le> length w"
  shows "sb_slice a e b = subslice (unat a) (unat e) w" "length (sb_slice a e b) = unat e - unat a"
proof -
  have le: "unat (base b) \<le> unat a" "unat a \<le> unat e" "base b \<le> e" using r by (auto simp: word_le_nat_alt)
  have "sb_slice a e b = subslice (unat a - unat (base b)) (unat e - unat (base b)) (drop (unat (base b)) w)"
    using inv r(1) le(3) by (simp add: sb_slice_def sb_inv_def unat_minus)
  also have "\<dots> = subslice (unat a) (unat e) w" using le by (simp add: subslice_def)
  finally show *: "sb_slice a e b = subslice (unat a) (unat e) w" .
  show "length (sb_slice a e b) = unat e - unat a" using le r(3) unfolding * by simp
qed

text \<open>Taking new data and data to send again.\<close>

lemma popNew_spec:
  assumes inv: "sb_inv w b A L" and n: "unat n \<le> max_stream" and p: "popNew n b = ((off, d), b')"
  shows "sb_inv w b' A L" "off = nextoff b" "length d = min (unat n) (length w - unat off)"
    "d = subslice (unat off) (unat off + length d) w" "unat (nextoff b') = unat off + length d"
proof -
  note E = sb_end_spec [OF inv]
  let ?e = "min (sb_end b) (nextoff b + n)"
  have nx: "base b \<le> nextoff b" "unat (nextoff b) \<le> length w" "length w \<le> 2 ^ 62"
    using inv by (auto simp: sb_inv_def max_stream_def)
  have un: "unat (nextoff b + n) = unat (nextoff b) + unat n"
    using nx n by (intro unat_plus) (simp add: max_stream_def)
  have e: "unat ?e = min (length w) (unat (nextoff b) + unat n)"
    using E(1) un by (simp add: min_def word_le_nat_alt)
  have le: "nextoff b \<le> ?e" "unat ?e \<le> length w" using e nx(2) by (auto simp: word_le_nat_alt)
  have o: "off = nextoff b" and b': "b' = b\<lparr>nextoff := ?e\<rparr>" and d: "d = sb_slice (nextoff b) ?e b"
    using p by (auto simp: popNew_def Let_def)
  note s = sb_slice_spec [OF inv nx(1) le]
  show "off = nextoff b" by (rule o)
  show ld: "length d = min (unat n) (length w - unat off)" using s(2) e nx(2) unfolding d o by auto
  show nx': "unat (nextoff b') = unat off + length d" using ld e nx(2) unfolding b' o by auto
  then have "unat ?e = unat off + length d" by (simp add: b')
  with s(1) show "d = subslice (unat off) (unat off + length d) w" by (simp add: d o)
  show "sb_inv w b' A L" using inv le unfolding sb_inv_def b' by (auto intro: order_trans)
qed

lemma hasLost_spec:
  assumes inv: "sb_inv w b A L" and h: "hasLost b = (has, b1)"
  shows "sb_inv w b1 A L" "has \<longleftrightarrow> lost b1 \<noteq> []" "base b1 = base b" "nextoff b1 = nextoff b"
    "lost b1 \<noteq> [] \<Longrightarrow> base b < sp_end (hd (lost b1))"
proof -
  let ?l = "dropWhile (\<lambda>s. sp_end s \<le> base b) (lost b)" and ?d = "takeWhile (\<lambda>s. sp_end s \<le> base b) (lost b)"
  have b1: "b1 = b\<lparr>lost := ?l\<rparr>" "has \<longleftrightarrow> ?l \<noteq> []" using h by (auto simp: hasLost_def Let_def)
  have ok: "spans_ok (?d @ ?l)" using inv by (simp add: sb_inv_def)
  then have "spans_ok ?l" unfolding spans_ok_append by simp
  moreover have "\<forall>x \<in> covered ?d. x < base b"
    by (auto simp: covered_def points_def dest!: set_takeWhileD)
  then have "{x \<in> covered (?d @ ?l). base b \<le> x} = {x \<in> covered ?l. base b \<le> x}"
    unfolding covered_simps by auto
  moreover have "set ?l \<subseteq> set (lost b)" by (auto dest: set_dropWhileD)
  ultimately show "sb_inv w b1 A L" using inv unfolding sb_inv_def b1 by auto
  show "has \<longleftrightarrow> lost b1 \<noteq> []" "base b1 = base b" "nextoff b1 = nextoff b" using b1 by simp_all
  show "base b < sp_end (hd (lost b1))" if "lost b1 \<noteq> []"
    using that hd_dropWhile [of "\<lambda>s. sp_end s \<le> base b" "lost b"] by (simp add: b1 not_le del: dropWhile_eq_Nil_conv)
qed

lemma cut_head:
  assumes "spans_ok (s # l)" "off < e" "e \<le> sp_end s" "bs \<le> off" "off = max (sp_off s) bs"
  defines "l' \<equiv> if sp_end s \<le> e then l else s\<lparr>sp_off := e\<rparr> # l"
  shows "spans_ok l' \<and> {x \<in> covered l'. bs \<le> x} = {x \<in> points s \<union> covered l. bs \<le> x} - {off ..< e}"
proof -
  have far: "e < x" if "x \<in> covered l" for x
    using that assms(1,3) by (auto simp: spans_ok_Cons covered_def points_def)
  have "{x \<in> points s. bs \<le> x} - {off ..< e} = {x \<in> points (s\<lparr>sp_off := e\<rparr>). bs \<le> x}"
    using assms(2-5) by (auto simp: points_def max_def split: if_splits)
  moreover have "{x \<in> covered l. bs \<le> x} - {off ..< e} = {x \<in> covered l. bs \<le> x}" using far by force
  moreover have "points (s\<lparr>sp_off := e\<rparr>) = {}" if "sp_end s \<le> e" using that by (simp add: points_def)
  ultimately show ?thesis using assms(1) by (auto simp: l'_def spans_ok_Cons)
qed

lemma popLost_spec:
  assumes inv: "sb_inv w b A L" and n: "unat n \<le> max_stream" and p: "popLost n b = ((off, d), b')"
  shows "sb_inv w b' A (L - {off ..< off + of_nat (length d)})" "d = subslice (unat off) (unat off + length d) w"
    "n \<noteq> 0 \<Longrightarrow> \<exists>x \<in> L. base b \<le> x \<Longrightarrow> d \<noteq> []"
proof -
  obtain has b1 where h: "hasLost b = (has, b1)" by (cases "hasLost b")
  note H = hasLost_spec [OF inv h]
  have "sb_inv w b' A (L - {off ..< off + of_nat (length d)}) \<and> d = subslice (unat off) (unat off + length d) w \<and>
    (n \<noteq> 0 \<longrightarrow> (\<exists>x \<in> L. base b \<le> x) \<longrightarrow> d \<noteq> [])"
  proof (cases "has \<and> n \<noteq> 0")
    case False
    then have e: "off = 0" "d = []" "b' = b1" using p h by (auto simp: popLost_def)
    have "n \<noteq> 0 \<Longrightarrow> \<not> (\<exists>x \<in> L. base b \<le> x)" using False H(1,2,3) by (auto simp: sb_inv_def)
    with H(1) e show ?thesis by (auto simp: subslice_def)
  next
    case True
    then obtain s l where l: "lost b1 = s # l" using H(2) by (cases "lost b1") auto
    have s: "base b < sp_end s" using H(5) by (simp add: l)
    have i1: "spans_ok (s # l)" "sp_end s \<le> nextoff b" "unat (nextoff b) \<le> length w" "length w \<le> 2 ^ 62"
      using H(1,3,4) by (auto simp: sb_inv_def l max_stream_def)
    let ?o = "max (sp_off s) (base b)"
    let ?e = "min (sp_end s) (?o + n)"
    have o: "?o < sp_end s" "base b \<le> ?o" using i1(1) s by (auto simp: spans_ok_Cons)
    then have "unat (?o + n) = unat ?o + unat n"
      using i1 n by (intro unat_plus) (auto simp: max_stream_def word_less_nat_alt word_le_nat_alt)
    moreover have "unat n \<noteq> 0" using True by (metis unsigned_eq_0_iff)
    ultimately have "?o < ?o + n" by (simp add: word_less_nat_alt)
    then have oe: "?o < ?e" "?e \<le> sp_end s" using o by simp_all
    have r: "off = ?o" "d = sb_slice ?o ?e b1"
      "b' = b1\<lparr>lost := (if sp_end s \<le> ?e then l else s\<lparr>sp_off := ?e\<rparr> # l)\<rparr>"
      using p True unfolding popLost_def h by (auto simp: l H(3) Let_def)
    have "unat ?e \<le> length w" using oe(2) i1(2,3) by (simp add: word_le_nat_alt)
    note S = sb_slice_spec [OF H(1) _ less_imp_le [OF oe(1)] this, unfolded H(3), OF o(2)]
    have un: "unat ?o < unat ?e" using oe(1) by (simp add: word_less_nat_alt)
    then have ld: "unat off + length d = unat ?e" using S(2) unfolding r by simp
    have "off + of_nat (length d) = ?e"
      using arg_cong [OF ld, of "of_nat :: nat \<Rightarrow> u64"] by simp
    moreover have "sb_inv w b' A (L - {?o ..< ?e})"
      using H(1) cut_head [OF i1(1) oe(1,2) max.cobounded2 refl] i1(2) H(3,4) unfolding sb_inv_def r(3) l covered_simps
      by auto
    moreover have "d \<noteq> []" using ld un r(1) by auto
    ultimately show ?thesis using S(1) ld r by simp
  qed
  then show "sb_inv w b' A (L - {off ..< off + of_nat (length d)})" "d = subslice (unat off) (unat off + length d) w"
    "n \<noteq> 0 \<Longrightarrow> \<exists>x \<in> L. base b \<le> x \<Longrightarrow> d \<noteq> []" by blast+
qed

lemma range_end: "unat off + unat n \<le> unat m \<Longrightarrow> unat (off + n) = unat off + unat n" for off n m :: u64
proof -
  assume le: "unat off + unat n \<le> unat m"
  have "unat m < 2 ^ LENGTH(64)" by (rule unsigned_less)
  then have "unat m < 2 ^ 64" by simp
  with le show ?thesis by (intro unat_plus) (rule order_le_less_trans)
qed

lemma span_ends:
  "spans_ok xs \<Longrightarrow> covered xs \<subseteq> {..< m} \<Longrightarrow> s \<in> set xs \<Longrightarrow> sp_end s \<le> m"
proof (rule ccontr)
  assume a: "spans_ok xs" "covered xs \<subseteq> {..< m}" "s \<in> set xs" and n: "\<not> sp_end s \<le> m"
  have "max (sp_off s) m \<in> points s" using a(1,3) n by (auto simp: points_def spans_ok_def)
  then have "max (sp_off s) m < m" using a(2,3) by (auto simp: covered_def)
  then show False by simp
qed

lemma covered_ends: "\<forall>s \<in> set xs. sp_end s \<le> m \<Longrightarrow> covered xs \<subseteq> {..< m}"
  by (auto simp: covered_def points_def) (meson order_less_le_trans)

lemma onLost_spec:
  assumes inv: "sb_inv w b A L" and r: "unat off + unat n \<le> unat (nextoff b)"
  shows "sb_inv w (onLost off n b) A (L \<union> {off ..< off + n})"
proof -
  let ?o = "max off (base b)" and ?e = "off + n"
  have e: "off \<le> ?e" "?e \<le> nextoff b" using r range_end [OF r] by (auto simp: word_le_nat_alt)
  have i: "spans_ok (lost b)" "covered (lost b) \<subseteq> {..< nextoff b}"
    using inv covered_ends [of "lost b" "nextoff b"] by (simp_all add: sb_inv_def)
  show ?thesis
  proof (cases "?e \<le> ?o")
    case True
    then have "{x \<in> {off ..< ?e}. base b \<le> x} = {}" by (auto simp: max_def split: if_splits)
    then have "{x \<in> L \<union> {off ..< ?e}. base b \<le> x} = {x \<in> L. base b \<le> x}" by blast
    with inv True show ?thesis by (simp add: onLost_def sb_inv_def)
  next
    case False
    let ?l = "addSpan (lost b) \<lparr>sp_off = ?o, sp_end = ?e\<rparr>"
    note sp = addSpan_spec [OF i(1), of "\<lparr>sp_off = ?o, sp_end = ?e\<rparr>"]
    have "covered ?l \<subseteq> {..< nextoff b}" using sp i(2) e(2) by (auto simp: points_def)
    then have "\<forall>s \<in> set ?l. sp_end s \<le> nextoff b" using sp span_ends by blast
    moreover have "{x \<in> L \<union> {off ..< ?e}. base b \<le> x} = {x \<in> covered ?l. base b \<le> x}"
      using sp inv by (auto simp: points_def sb_inv_def)
    ultimately show ?thesis using inv sp False by (simp add: onLost_def sb_inv_def Let_def)
  qed
qed

lemma end_not_covered: "spans_ok (s # xs) \<Longrightarrow> sp_end s \<notin> covered (s # xs)"
  by (auto simp: spans_ok_Cons covered_def points_def)

lemma onAck_spec:
  assumes inv: "sb_inv w b A L" and r: "unat off + unat n \<le> unat (nextoff b)"
  shows "sb_inv w (onAck off n b) (A \<union> {off ..< off + n}) L"
proof -
  let ?s = "\<lparr>sp_off = off, sp_end = off + n\<rparr>"
  let ?a = "addSpan (acked b) ?s"
  have e: "off \<le> off + n" "off + n \<le> nextoff b" using r range_end [OF r] by (auto simp: word_le_nat_alt)
  have i: "spans_ok (acked b)" "covered (acked b) \<subseteq> {..< nextoff b}" "\<forall>x \<in> covered (acked b). base b < x"
    using inv covered_ends [of "acked b" "nextoff b"]
    by (auto simp: sb_inv_def covered_def points_def intro: order_less_le_trans)
  note sp = addSpan_spec [OF i(1), of ?s]
  have cov: "covered ?a = covered (acked b) \<union> {off ..< off + n}" using sp by (simp add: points_def)
  then have "covered ?a \<subseteq> {..< nextoff b}" using i(2) e(2) by auto
  then have ends: "\<forall>s \<in> set ?a. sp_end s \<le> nextoff b" using sp span_ends by blast
  have A: "A \<union> {off ..< off + n} = {..< base b} \<union> covered ?a" using inv by (auto simp: sb_inv_def cov)
  consider (gap) "?a = [] \<or> sp_off (hd ?a) > base b" | (head) h t where "?a = h # t" "sp_off h \<le> base b"
    by (cases ?a) (auto, metis not_le)
  then show ?thesis
  proof cases
    case gap
    have "\<forall>s \<in> set ?a. base b < sp_off s"
      using gap sp by (cases ?a) (auto simp: spans_ok_Cons intro: order_less_trans)
    with gap inv sp ends A show ?thesis by (auto simp: onAck_def sb_inv_def Let_def)
  next
    case head
    have ok: "spans_ok (h # t)" using sp head(1) by simp
    have h: "sp_off h < sp_end h" "\<forall>u \<in> set t. sp_end h < sp_off u" "spans_ok t" using ok by (simp_all add: spans_ok_Cons)
    show ?thesis
    proof (cases "sp_end h \<le> base b")
      case True
      have "base b < sp_off u" if "u \<in> set t" for u
      proof (rule ccontr)
        assume "\<not> base b < sp_off u"
        then have u: "sp_off u \<in> covered ?a" "sp_off h \<in> covered ?a" "sp_off u \<le> base b"
          using that h ok by (auto simp: head(1) points_def covered_def spans_ok_Cons spans_ok_def)
        then have "sp_off u < off + n" "off \<le> sp_off h" using i(3) head(2) by (auto simp: cov)
        then have "sp_end h \<in> covered ?a" using h that by (auto simp: cov)
        then show False using end_not_covered [OF ok] head(1) by simp
      qed
      moreover have "{..< base b} \<union> covered ?a = {..< base b} \<union> covered t"
        using True by (auto simp: head(1) points_def intro: order_less_le_trans)
      ultimately show ?thesis using inv True head h ends A by (auto simp: onAck_def sb_inv_def Let_def)
    next
      case False
      have "{..< base b} \<union> covered ?a = {..< sp_end h} \<union> covered t"
        using False head(2) by (auto simp: head(1) points_def intro: order_less_le_trans order_less_trans)
      moreover have "sp_end h \<le> nextoff b" using ends head(1) by simp
      moreover have "drop (unat (sp_end h - base b)) (buf b) = drop (unat (sp_end h)) w"
        using inv False by (simp add: sb_inv_def unat_minus word_le_nat_alt)
      moreover have "{x \<in> L. sp_end h \<le> x} = {x \<in> covered (lost b). sp_end h \<le> x}"
        using inv False unfolding sb_inv_def by (auto simp: set_eq_iff)
      ultimately show ?thesis using inv False head h ends A by (auto simp: onAck_def sb_inv_def Let_def)
    qed
  qed
qed

lemma sb_run_inv: "sb_run w b A L \<Longrightarrow> sb_inv w b A L"
proof (induction rule: sb_run.induct)
  case run_start
  show ?case by (auto simp: sb_inv_def new_sendBuffer_def max_stream_def spans_ok_def)
next
  case (run_write w b A L p)
  then show ?case
    using sb_end_spec(2) [OF run_write.IH] by (auto simp: sb_inv_def sb_write_def)
qed (auto intro: popNew_spec(1) popLost_spec(1) onLost_spec onAck_spec)


lemma sb_demo: "sb_run [1, 2, 3] (sb_write [1, 2, 3] new_sendBuffer) {} {}"
  using run_write [OF run_start, of "[1, 2, 3]"] by (simp add: max_stream_def)


text \<open>
  C26. A send buffer lets go of exactly what was acknowledged: its base is the first offset that was
  not acknowledged, so that \<open>allAcked\<close> holds just when every byte written was, and the lost ranges
  from the base on are those declared lost and not handed out again.
\<close>

theorem send_buffer_keeps_unacknowledged:
  assumes "sb_run w b A L"
  shows "{..< base b} \<subseteq> A \<and> base b \<notin> A \<and> buf b = drop (unat (base b)) w \<and>
    (allAcked b \<longleftrightarrow> (\<forall>k < length w. of_nat k \<in> A)) \<and>
    {x \<in> covered (lost b). base b \<le> x} = {x \<in> L. base b \<le> x}"
proof -
  note inv = sb_run_inv [OF assms]
  have A: "A = {..< base b} \<union> covered (acked b)" "base b \<notin> covered (acked b)" "buf b = drop (unat (base b)) w"
    "length w < 2 ^ 64" using inv by (auto simp: sb_inv_def covered_def points_def max_stream_def)
  have nat: "unat (of_nat k :: u64) = k" if "k < length w" for k using that A(4) by (intro unat_of_nat64) simp
  have "allAcked b \<longleftrightarrow> (\<forall>k < length w. of_nat k \<in> A)"
  proof
    assume "allAcked b"
    then have "length w \<le> unat (base b)" using A(3) by (simp add: allAcked_def)
    then show "\<forall>k < length w. of_nat k \<in> A" using nat A(1) by (auto simp: word_less_nat_alt)
  next
    assume all: "\<forall>k < length w. of_nat k \<in> A"
    have "\<not> unat (base b) < length w"
    proof
      assume "unat (base b) < length w"
      with all have "(of_nat (unat (base b)) :: u64) \<in> A" by blast
      with A(1,2) show False by simp
    qed
    then show "allAcked b" using A(3) by (simp add: allAcked_def)
  qed
  with A inv show ?thesis by (simp add: sb_inv_def)
qed

theorem send_buffer_keeps_unacknowledged_witness:
  "\<not> allAcked (sb_write [1, 2, 3] new_sendBuffer)"
  using send_buffer_keeps_unacknowledged [OF sb_demo] by auto

section \<open>The reassembly buffer against the stream received\<close>

text \<open>
  A reassembly buffer's history for the stream \<open>w\<close>: \<open>R\<close> is the set of positions that arrived in
  some frame, in whatever order and however often, \<open>out\<close> what \<open>pop\<close> handed out.
\<close>

definition new_recvBuffer :: recvBuffer where
  "new_recvBuffer = \<lparr>rb_offset = 0, segments = [], buffered = 0\<rparr>"

inductive rb_run :: "bytes \<Rightarrow> recvBuffer \<Rightarrow> nat set \<Rightarrow> bytes \<Rightarrow> bool" for w where
  recv_start: "rb_run w new_recvBuffer {} []"
| recv_push: "rb_run w r R out \<Longrightarrow> unat off + length d \<le> length w \<Longrightarrow>
     d = subslice (unat off) (unat off + length d) w \<Longrightarrow>
     rb_run w (rb_push off d r) (R \<union> {unat off ..< unat off + length d}) out"
| recv_pop: "rb_run w r R out \<Longrightarrow> rb_pop r = (Some d, r') \<Longrightarrow> rb_run w r' R (out @ d)"
| recv_gap: "rb_run w r R out \<Longrightarrow> rb_pop r = (None, r') \<Longrightarrow> rb_run w r' R out"

definition seg_end :: "segment \<Rightarrow> nat" where
  "seg_end s = unat (sg_off s) + length (sg_data s)"

definition seg_pos :: "segment list \<Rightarrow> nat set" where
  "seg_pos ss = (\<Union>s \<in> set ss. {unat (sg_off s) ..< seg_end s})"

definition segs_ok :: "bytes \<Rightarrow> segment list \<Rightarrow> bool" where
  "segs_ok w ss \<longleftrightarrow>
     (\<forall>s \<in> set ss. seg_end s \<le> length w \<and> sg_data s = subslice (unat (sg_off s)) (seg_end s) w) \<and>
     sorted_wrt (\<lambda>a b. sg_off a \<le> sg_off b) ss"

definition seg_total :: "segment list \<Rightarrow> int" where
  "seg_total ss = (\<Sum>s \<leftarrow> ss. int (length (sg_data s)))"

definition rb_inv :: "bytes \<Rightarrow> recvBuffer \<Rightarrow> nat set \<Rightarrow> bytes \<Rightarrow> bool" where
  "rb_inv w r R out \<longleftrightarrow>
     unat (rb_offset r) \<le> length w \<and> segs_ok w (segments r) \<and> buffered r = seg_total (segments r) \<and>
     {..< unat (rb_offset r)} \<union> R = {..< unat (rb_offset r)} \<union> seg_pos (segments r) \<and>
     out = take (unat (rb_offset r)) w"

lemma seg_pos_simps [simp]:
  "seg_pos [] = {}" "seg_pos (s # ss) = {unat (sg_off s) ..< seg_end s} \<union> seg_pos ss"
  by (auto simp: seg_pos_def)

lemma seg_pos_insert: "seg_pos (insert_at i s ss) = {unat (sg_off s) ..< seg_end s} \<union> seg_pos ss"
  by (auto simp: seg_pos_def)

lemma seg_total_insert: "seg_total (insert_at i s ss) = int (length (sg_data s)) + seg_total ss"
proof -
  have "seg_total ss = seg_total (take i ss) + seg_total (drop i ss)"
    unfolding seg_total_def by (simp flip: sum_list_append map_append)
  then show ?thesis by (simp add: seg_total_def insert_at_def)
qed

lemma seg_end_word:
  "length w \<le> max_stream \<Longrightarrow> seg_end s \<le> length w \<Longrightarrow> unat (sg_off s + of_nat (length (sg_data s))) = seg_end s"
proof -
  assume a: "length w \<le> max_stream" "seg_end s \<le> length w"
  then have "unat (of_nat (length (sg_data s)) :: u64) = length (sg_data s)"
    by (intro unat_of_nat64) (simp add: max_stream_def seg_end_def)
  then show ?thesis using a by (subst unat_plus) (simp_all add: seg_end_def max_stream_def)
qed

lemma insert_sorted:
  assumes "sorted_wrt (\<lambda>a b. sg_off a \<le> sg_off b) ss"
  shows "sorted_wrt (\<lambda>a b. sg_off a \<le> sg_off b)
    (insert_at (sort_search (length ss) (\<lambda>k. sg_off (ss ! k) > sg_off s)) s ss)"
proof -
  define i where "i = sort_search (length ss) (\<lambda>k. sg_off (ss ! k) > sg_off s)"
  have "\<forall>a b. a \<le> b \<longrightarrow> b < length ss \<longrightarrow> sg_off (ss ! a) > sg_off s \<longrightarrow> sg_off (ss ! b) > sg_off s"
    using assms unfolding sorted_wrt_iff_nth_less by (metis order_le_less order_less_le_trans)
  note sp = sort_search_split [of ss "\<lambda>t. sg_off t > sg_off s", OF this, folded i_def]
  have "sorted_wrt (\<lambda>a b. sg_off a \<le> sg_off b) (take i ss @ drop i ss)" using assms by simp
  with sp(2,3) show ?thesis
    unfolding i_def [symmetric] insert_at_def sorted_wrt_append by (auto simp: not_less)
qed

lemma rb_push_inv:
  assumes w: "length w \<le> max_stream" and inv: "rb_inv w r R out"
    and d: "unat off + length d \<le> length w" "d = subslice (unat off) (unat off + length d) w"
  shows "rb_inv w (rb_push off d r) (R \<union> {unat off ..< unat off + length d}) out"
proof -
  have e: "unat (off + of_nat (length d)) = unat off + length d"
    using seg_end_word [OF w, of "\<lparr>sg_off = off, sg_data = d\<rparr>"] d(1) by (simp add: seg_end_def)
  show ?thesis
  proof (cases "off + of_nat (length d) \<le> rb_offset r \<or> d = []")
    case True
    then have "{unat off ..< unat off + length d} \<subseteq> {..< unat (rb_offset r)}"
      using e by (auto simp: word_le_nat_alt)
    then show ?thesis using inv True unfolding rb_inv_def by (auto simp: rb_push_def)
  next
    case False
    define s where "s = (if off < rb_offset r then \<lparr>sg_off = rb_offset r, sg_data = drop (unat (rb_offset r - off)) d\<rparr>
      else \<lparr>sg_off = off, sg_data = d\<rparr>)"
    have en: "seg_end s = unat off + length d"
    proof (cases "off < rb_offset r")
      case True
      then have "unat (rb_offset r - off) = unat (rb_offset r) - unat off" "unat off < unat (rb_offset r)"
        using unat_minus [of off "rb_offset r"] by (simp_all add: word_less_nat_alt word_le_nat_alt)
      then show ?thesis using False True e by (simp add: s_def seg_end_def word_le_nat_alt)
    qed (simp add: s_def seg_end_def)
    have dat: "sg_data s = subslice (unat (sg_off s)) (seg_end s) w"
    proof (cases "off < rb_offset r")
      case True
      then have le: "off \<le> rb_offset r" "unat off \<le> unat (rb_offset r)" by (simp_all add: word_less_nat_alt word_le_nat_alt)
      have "drop (unat (rb_offset r) - unat off) d = subslice (unat (rb_offset r)) (unat off + length d) w"
        using le(2) by (subst d(2)) (simp add: subslice_def drop_take add.commute)
      then show ?thesis using True le(1) en by (simp add: s_def unat_minus)
    qed (use d(2) en in \<open>simp add: s_def\<close>)
    let ?i = "sort_search (length (segments r)) (\<lambda>k. sg_off (segments r ! k) > sg_off s)"
    have p: "rb_push off d r = r\<lparr>segments := insert_at ?i s (segments r), buffered := buffered r + int (length (sg_data s))\<rparr>"
      using False by (simp add: rb_push_def s_def Let_def)
    have "{..< unat (rb_offset r)} \<union> {unat (sg_off s) ..< seg_end s} = {..< unat (rb_offset r)} \<union> {unat off ..< unat off + length d}"
      unfolding en by (auto simp: s_def word_less_nat_alt)
    moreover have "segs_ok w (insert_at ?i s (segments r))"
      using inv insert_sorted [of "segments r" s] dat en d(1) by (auto simp: rb_inv_def segs_ok_def)
    ultimately show ?thesis
      using inv unfolding rb_inv_def p by (simp add: seg_pos_insert seg_total_insert) blast
  qed
qed

lemma pop_loop_spec:
  assumes w: "length w \<le> max_stream"
  shows "segs_ok w ss \<Longrightarrow> unat off \<le> length w \<Longrightarrow> n = seg_total ss \<Longrightarrow> pop_loop ss off n = (res, ss', off', n') \<Longrightarrow>
    segs_ok w ss' \<and> n' = seg_total ss' \<and> unat off \<le> unat off' \<and> unat off' \<le> length w \<and>
    {..< unat off'} \<union> seg_pos ss' = {..< unat off} \<union> seg_pos ss \<and>
    (case res of None \<Rightarrow> off' = off \<and> unat off \<notin> seg_pos ss'
     | Some d \<Rightarrow> d \<noteq> [] \<and> d = subslice (unat off) (unat off') w)"
proof (induction ss off n rule: pop_loop.induct)
  case (1 off n)
  then show ?case by auto
next
  case (2 s ss off n)
  have s: "seg_end s \<le> length w" "sg_data s = subslice (unat (sg_off s)) (seg_end s) w" "segs_ok w ss"
    "\<forall>t \<in> set ss. sg_off s \<le> sg_off t" using 2(2) by (auto simp: segs_ok_def)
  have e: "unat (sg_off s + of_nat (length (sg_data s))) = seg_end s" by (rule seg_end_word [OF w s(1)])
  have tot: "seg_total (s # ss) = int (length (sg_data s)) + seg_total ss" by (simp add: seg_total_def)
  consider (gap) "sg_off s > off" | (stale) "sg_off s \<le> off" "sg_off s + of_nat (length (sg_data s)) \<le> off"
    | (take) "sg_off s \<le> off" "off < sg_off s + of_nat (length (sg_data s))" by fastforce
  then show ?case
  proof cases
    case gap
    then have "\<forall>t \<in> set (s # ss). off < sg_off t" using s(4) by (auto intro: order_less_le_trans)
    then have "unat off \<notin> seg_pos (s # ss)" by (auto simp: seg_pos_def word_less_nat_alt)
    with gap 2(2-) show ?thesis by auto
  next
    case stale
    have sub: "{..< unat off} \<union> seg_pos (s # ss) = {..< unat off} \<union> seg_pos ss"
      using stale(2) e by (auto simp: word_le_nat_alt)
    have n1: "n - int (length (sg_data s)) = seg_total ss" using 2(4) tot by simp
    have "pop_loop ss off (n - int (length (sg_data s))) = (res, ss', off', n')"
      using leD [OF stale(1)] stale(2) 2(5) by (simp add: Let_def)
    from 2(1) [OF leD [OF stale(1)] refl refl stale(2) s(3) 2(3) n1 this] show ?thesis unfolding sub .
  next
    case take
    then have r: "res = Some (drop (unat (off - sg_off s)) (sg_data s))" "ss' = ss"
      "unat off' = seg_end s" "n' = seg_total ss" using 2(4,5) leD [OF take(1)] take(2) [folded not_le] e tot by (auto simp: Let_def)
    have le: "unat (sg_off s) \<le> unat off" "unat off < seg_end s" using take e by (auto simp: word_le_nat_alt word_less_nat_alt)
    have "drop (unat off - unat (sg_off s)) (sg_data s) = subslice (unat off) (seg_end s) w"
      using le(1) by (subst s(2)) (simp add: subslice_def drop_take add.commute)
    then have d: "drop (unat (off - sg_off s)) (sg_data s) = subslice (unat off) (seg_end s) w"
      using take(1) by (simp add: unat_minus)
    have "subslice (unat off) (seg_end s) w \<noteq> []"
      using length_subslice [of "unat off" "seg_end s" w] le(2) s(1) by fastforce
    with r d s le show ?thesis by auto
  qed
qed

lemma rb_pop_inv:
  assumes w: "length w \<le> max_stream" and inv: "rb_inv w r R out" and p: "rb_pop r = (res, r')"
  shows "rb_inv w r' R (case res of None \<Rightarrow> out | Some d \<Rightarrow> out @ d)"
    "res = None \<Longrightarrow> rb_offset r' = rb_offset r \<and> unat (rb_offset r) \<notin> R" "res \<noteq> Some []"
proof -
  obtain ss off n where l: "pop_loop (segments r) (rb_offset r) (buffered r) = (res, ss, off, n)"
    and r': "r' = r\<lparr>segments := ss, rb_offset := off, buffered := n\<rparr>"
    using p by (auto simp: rb_pop_def split: prod.splits)
  have i: "segs_ok w (segments r)" "unat (rb_offset r) \<le> length w" "buffered r = seg_total (segments r)"
    "{..< unat (rb_offset r)} \<union> R = {..< unat (rb_offset r)} \<union> seg_pos (segments r)" "out = take (unat (rb_offset r)) w"
    using inv by (simp_all add: rb_inv_def)
  note P = pop_loop_spec [OF w i(1-3) l]
  have R: "{..< unat off} \<union> R = {..< unat off} \<union> seg_pos ss"
  proof -
    have "{..< unat off} \<union> R = {..< unat off} \<union> ({..< unat (rb_offset r)} \<union> R)" using P by auto
    also have "\<dots> = {..< unat off} \<union> ({..< unat off} \<union> seg_pos ss)" using P i(4) by simp
    finally show ?thesis by auto
  qed
  have "take (unat (rb_offset r)) w @ subslice (unat (rb_offset r)) (unat off) w = take (unat off) w"
    using P subslice_append [of 0 "unat (rb_offset r)" "unat off" w] by (simp add: subslice_def)
  then show "rb_inv w r' R (case res of None \<Rightarrow> out | Some d \<Rightarrow> out @ d)"
    using P R i(5) by (auto simp: rb_inv_def r' split: option.splits)
  show "rb_offset r' = rb_offset r \<and> unat (rb_offset r) \<notin> R" if "res = None"
    using that P R by (auto simp: r')
  show "res \<noteq> Some []" using P by auto
qed

lemma rb_run_inv: "rb_run w r R out \<Longrightarrow> length w \<le> max_stream \<Longrightarrow> rb_inv w r R out"
proof (induction rule: rb_run.induct)
  case recv_start
  show ?case by (simp add: rb_inv_def new_recvBuffer_def segs_ok_def seg_total_def)
next
  case (recv_pop r R out d r')
  then show ?case using rb_pop_inv(1) [of w r R out "Some d" r'] by simp
next
  case (recv_gap r R out r')
  then show ?case using rb_pop_inv(1) [of w r R out None r'] by simp
qed (simp add: rb_push_inv)

text \<open>
  C8. Reassembly: however the frames of a stream arrive, reordered, overlapping or repeated, and
  whenever \<open>pop\<close> is called in between, what \<open>pop\<close> handed out is exactly the first \<open>offset\<close> bytes of
  the stream; \<open>pop\<close> never hands out nothing, and when it reports a gap the next byte has really not
  arrived. \<open>buffered\<close> is the number of bytes the segments hold.
\<close>

theorem reassembly:
  assumes "rb_run w r R out" and "length w \<le> max_stream" and "rb_pop r = (res, r')"
  shows "out = take (unat (rb_offset r)) w \<and> buffered r = (\<Sum>s \<leftarrow> segments r. int (length (sg_data s))) \<and>
    (case res of None \<Rightarrow> unat (rb_offset r) \<notin> R
     | Some d \<Rightarrow> d \<noteq> [] \<and> out @ d = take (unat (rb_offset r')) w)"
proof -
  note inv = rb_run_inv [OF assms(1,2)]
  note p = rb_pop_inv [OF assms(2) inv assms(3)]
  show ?thesis
  proof (cases res)
    case None
    with inv p(2) show ?thesis by (simp add: rb_inv_def seg_total_def)
  next
    case (Some d)
    with inv p(1,3) show ?thesis by (simp add: rb_inv_def seg_total_def)
  qed
qed

theorem reassembly_witness:
  "\<exists>r. rb_run [1, 2, 3] r {1, 2} [] \<and> fst (rb_pop r) = None \<and> 0 \<notin> {1, 2 :: nat}"
proof -
  let ?r = "rb_push 1 [2, 3] new_recvBuffer"
  have "rb_run [1, 2, 3] ?r ({} \<union> {unat (1 :: u64) ..< unat (1 :: u64) + length [2, 3 :: byte]}) []"
    by (rule recv_push [OF recv_start]) (simp_all add: subslice_def)
  moreover have "{} \<union> {unat (1 :: u64) ..< unat (1 :: u64) + length [2, 3 :: byte]} = {1, 2}" by auto
  ultimately have run: "rb_run [1, 2, 3] ?r {1, 2} []" by simp
  have "rb_pop ?r = (None, ?r)" by code_simp
  with reassembly [OF run _ this] run show ?thesis by (auto simp: max_stream_def)
qed

end
