(* ===== verification/Chacha.thy ===== *)
theory Chacha
  imports Prelude
begin

text \<open>
  The ChaCha20-Poly1305 AEAD of \<open>src/go/http3/internal/quic/chacha.go\<close>, at the widths of the code:
  the cipher on 32-bit words, the authenticator on three 64-bit limbs with explicit carries. What is
  shown: the limb arithmetic computes the authenticator of RFC 8439 modulo \<open>2^130 - 5\<close>, and opening
  what was sealed returns the plaintext.
\<close>

section \<open>Byte order and carries\<close>

text \<open>\<open>binary.LittleEndian\<close> and the carry operations of \<open>math/bits\<close>.\<close>

definition le_nat :: "bytes \<Rightarrow> nat" where
  "le_nat bs = foldr (\<lambda>b a. unat b + 256 * a) bs 0"

definition Uint32 :: "bytes \<Rightarrow> u32" where
  "Uint32 b = of_nat (le_nat (take 4 b))"

definition Uint64 :: "bytes \<Rightarrow> u64" where
  "Uint64 b = of_nat (le_nat (take 8 b))"

definition PutUint32 :: "u32 \<Rightarrow> bytes" where
  "PutUint32 v = map (\<lambda>i. ucast (drop_bit (8 * i) v)) [0 ..< 4]"

definition PutUint64 :: "u64 \<Rightarrow> bytes" where
  "PutUint64 v = map (\<lambda>i. ucast (drop_bit (8 * i) v)) [0 ..< 8]"

definition Add64 :: "u64 \<Rightarrow> u64 \<Rightarrow> u64 \<Rightarrow> u64 \<times> u64" where
  "Add64 x y c = (x + y + c, if unat x + unat y + unat c < 2 ^ 64 then 0 else 1)"

definition Sub64 :: "u64 \<Rightarrow> u64 \<Rightarrow> u64 \<Rightarrow> u64 \<times> u64" where
  "Sub64 x y b = (x - y - b, if unat x < unat y + unat b then 1 else 0)"

definition Mul64 :: "u64 \<Rightarrow> u64 \<Rightarrow> u64 \<times> u64" where
  "Mul64 x y = (of_nat (unat x * unat y div 2 ^ 64), x * y)"

section \<open>ChaCha20\<close>

definition chachaKeySize :: nat where "chachaKeySize = 32"
definition chachaNonceSize :: nat where "chachaNonceSize = 12"
definition poly1305TagSize :: nat where "poly1305TagSize = 16"

definition RotateLeft32 :: "u32 \<Rightarrow> nat \<Rightarrow> u32" where
  "RotateLeft32 x k = push_bit k x OR drop_bit (32 - k) x"

definition qr :: "nat \<Rightarrow> nat \<Rightarrow> nat \<Rightarrow> nat \<Rightarrow> u32 list \<Rightarrow> u32 list" where
  "qr a b c d x =
     (let x = x[a := x ! a + x ! b]; x = x[d := RotateLeft32 (x ! d XOR x ! a) 16];
          x = x[c := x ! c + x ! d]; x = x[b := RotateLeft32 (x ! b XOR x ! c) 12];
          x = x[a := x ! a + x ! b]; x = x[d := RotateLeft32 (x ! d XOR x ! a) 8];
          x = x[c := x ! c + x ! d]
      in x[b := RotateLeft32 (x ! b XOR x ! c) 7])"

definition double_round :: "u32 list \<Rightarrow> u32 list" where
  "double_round x =
     (let x = qr 0 4 8 12 x; x = qr 1 5 9 13 x; x = qr 2 6 10 14 x; x = qr 3 7 11 15 x;
          x = qr 0 5 10 15 x; x = qr 1 6 11 12 x; x = qr 2 7 8 13 x
      in qr 3 4 9 14 x)"

definition chachaBlock :: "u32 list \<Rightarrow> u32 \<Rightarrow> u32 list \<Rightarrow> bytes" where
  "chachaBlock key counter nonce =
     (let s = [0x61707865, 0x3320646e, 0x79622d32, 0x6b206574] @ key @ [counter] @ nonce;
          x = (double_round ^^ 10) s
      in concat (map (\<lambda>i. PutUint32 (x ! i + s ! i)) [0 ..< 16]))"

definition chachaKey :: "bytes \<Rightarrow> u32 list" where
  "chachaKey key = map (\<lambda>i. Uint32 (drop (4 * i) key)) [0 ..< 8]"

definition chachaNonce :: "bytes \<Rightarrow> u32 list" where
  "chachaNonce nonce = map (\<lambda>i. Uint32 (drop (4 * i) nonce)) [0 ..< 3]"

text \<open>\<open>subtle.XORBytes\<close> works on the shorter of its operands.\<close>

definition XORBytes :: "bytes \<Rightarrow> bytes \<Rightarrow> bytes" where
  "XORBytes a b = map (\<lambda>(x, y). x XOR y) (zip a b)"

function chachaXOR :: "bytes \<Rightarrow> u32 list \<Rightarrow> u32 \<Rightarrow> u32 list \<Rightarrow> bytes" where
  "chachaXOR src key counter nonce =
     (if src = [] then []
      else
        (let block = chachaBlock key counter nonce in
         XORBytes src block @ chachaXOR (drop 64 src) key (counter + 1) nonce))"
  by pat_completeness auto
termination
  by (relation "measure (\<lambda>(src, key, counter, nonce). length src)") auto

declare chachaXOR.simps [simp del]

section \<open>Poly1305\<close>

record poly1305 =
  r0 :: u64
  r1 :: u64
  s0 :: u64
  s1 :: u64
  h0 :: u64
  h1 :: u64
  h2 :: u64

definition newPoly1305 :: "bytes \<Rightarrow> poly1305" where
  "newPoly1305 key =
     \<lparr>r0 = Uint64 key AND 0x0ffffffc0fffffff, r1 = Uint64 (drop 8 key) AND 0x0ffffffc0ffffffc,
      s0 = Uint64 (drop 16 key), s1 = Uint64 (drop 24 key), h0 = 0, h1 = 0, h2 = 0\<rparr>"

text \<open>\<open>block\<close> in the three parts the code has: the addition, the product and the reduction.\<close>

definition poly_add :: "bytes \<Rightarrow> u64 \<Rightarrow> poly1305 \<Rightarrow> poly1305" where
  "poly_add m hibit p =
     (let (a0, c) = Add64 (h0 p) (Uint64 m) 0;
          (a1, c) = Add64 (h1 p) (Uint64 (drop 8 m)) c
      in p\<lparr>h0 := a0, h1 := a1, h2 := h2 p + (c + hibit)\<rparr>)"

definition poly_mul :: "poly1305 \<Rightarrow> u64 \<times> u64 \<times> u64 \<times> u64" where
  "poly_mul p =
     (let (h0r0hi, h0r0lo) = Mul64 (h0 p) (r0 p);
          (h1r0hi, h1r0lo) = Mul64 (h1 p) (r0 p);
          (h0r1hi, h0r1lo) = Mul64 (h0 p) (r1 p);
          (h1r1hi, h1r1lo) = Mul64 (h1 p) (r1 p);
          h2r0 = h2 p * r0 p;
          h2r1 = h2 p * r1 p;
          (m1lo, c) = Add64 h1r0lo h0r1lo 0;
          (m1hi, _) = Add64 h1r0hi h0r1hi c;
          (m2lo, c) = Add64 h2r0 h1r1lo 0;
          (m2hi, _) = Add64 0 h1r1hi c;
          m3 = h2r1;
          t0 = h0r0lo;
          (t1, c) = Add64 m1lo h0r0hi 0;
          (t2, c) = Add64 m2lo m1hi c;
          (t3, _) = Add64 m3 m2hi c
      in (t0, t1, t2, t3))"

definition poly_reduce :: "u64 \<times> u64 \<times> u64 \<times> u64 \<Rightarrow> poly1305 \<Rightarrow> poly1305" where
  "poly_reduce t p =
     (let (t0, t1, t2, t3) = t;
          a2 = t2 AND 3;
          cc0 = t2 AND NOT 3;
          cc1 = t3;
          (a0, c) = Add64 t0 cc0 0;
          (a1, c) = Add64 t1 cc1 c;
          a2 = a2 + c;
          cc0' = drop_bit 2 cc0 OR push_bit 62 cc1;
          cc1' = drop_bit 2 cc1;
          (a0, c) = Add64 a0 cc0' 0;
          (a1, c) = Add64 a1 cc1' c
      in p\<lparr>h0 := a0, h1 := a1, h2 := a2 + c\<rparr>)"

definition poly_block :: "bytes \<Rightarrow> u64 \<Rightarrow> poly1305 \<Rightarrow> poly1305" where
  "poly_block m hibit p = (let p1 = poly_add m hibit p in poly_reduce (poly_mul p1) p1)"

function writePadded :: "bytes \<Rightarrow> poly1305 \<Rightarrow> poly1305" where
  "writePadded data p =
     (if length data \<ge> 16 then writePadded (drop 16 data) (poly_block (take 16 data) 1 p)
      else if data \<noteq> [] then poly_block (data @ replicate (16 - length data) 0) 1 p
      else p)"
  by pat_completeness auto
termination
  by (relation "measure (\<lambda>(data, p). length data)") auto

declare writePadded.simps [simp del]

definition poly_sum :: "poly1305 \<Rightarrow> bytes" where
  "poly_sum p =
     (let (t0, b) = Sub64 (h0 p) 0xfffffffffffffffb 0;
          (t1, b) = Sub64 (h1 p) 0xffffffffffffffff b;
          (_, b) = Sub64 (h2 p) 3 b;
          mask = b - 1;
          a0 = (h0 p AND NOT mask) OR (t0 AND mask);
          a1 = (h1 p AND NOT mask) OR (t1 AND mask);
          (a0, c) = Add64 a0 (s0 p) 0;
          (a1, _) = Add64 a1 (s1 p) c
      in PutUint64 a0 @ PutUint64 a1)"

section \<open>The AEAD\<close>

definition newChaCha20Poly1305 :: "bytes \<Rightarrow> u32 list option" where
  "newChaCha20Poly1305 key = (if length key \<noteq> chachaKeySize then None else Some (chachaKey key))"

definition aead_tag :: "u32 list \<Rightarrow> u32 list \<Rightarrow> bytes \<Rightarrow> bytes \<Rightarrow> bytes" where
  "aead_tag key nonce ciphertext additionalData =
     (let p = newPoly1305 (take 32 (chachaBlock key 0 nonce));
          p = writePadded additionalData p;
          p = writePadded ciphertext p;
          lens = PutUint64 (of_nat (length additionalData)) @ PutUint64 (of_nat (length ciphertext))
      in poly_sum (poly_block lens 1 p))"

definition chacha_Seal :: "u32 list \<Rightarrow> bytes \<Rightarrow> bytes \<Rightarrow> bytes \<Rightarrow> bytes" where
  "chacha_Seal key nonce plaintext additionalData =
     (let n = chachaNonce nonce; out = chachaXOR plaintext key 1 n in out @ aead_tag key n out additionalData)"

definition chacha_Open :: "u32 list \<Rightarrow> bytes \<Rightarrow> bytes \<Rightarrow> bytes \<Rightarrow> bytes option" where
  "chacha_Open key nonce ciphertext additionalData =
     (if length ciphertext < poly1305TagSize then None
      else
        (let n = chachaNonce nonce; body = take (length ciphertext - poly1305TagSize) ciphertext in
         if aead_tag key n body additionalData \<noteq> drop (length body) ciphertext then None
         else Some (chachaXOR body key 1 n)))"

section \<open>The cipher\<close>

lemma length_qr [simp]: "length (qr a b c d x) = length x"
  unfolding qr_def Let_def length_list_update by (rule refl)

lemma length_double_round [simp]: "length (double_round x) = length x"
  by (simp add: double_round_def Let_def)

lemma length_PutUint [simp]: "length (PutUint32 u) = 4" "length (PutUint64 v) = 8"
  by (simp_all add: PutUint32_def PutUint64_def)

lemma length_chachaBlock [simp]: "length (chachaBlock key counter nonce) = 64"
  by (simp add: chachaBlock_def length_concat comp_def Let_def sum_list_triv)

lemma length_XORBytes [simp]: "length (XORBytes a b) = min (length a) (length b)"
  by (simp add: XORBytes_def)

lemma XORBytes_twice:
  "length a < length b \<longrightarrow> r = [] \<Longrightarrow> XORBytes (XORBytes a b @ r) b = take (length b) a"
  by (rule nth_equalityI) (auto simp: XORBytes_def nth_append xor.assoc)

lemma chachaXOR_Nil [simp]: "chachaXOR [] key counter nonce = []"
  by (simp add: chachaXOR.simps)

lemma length_chachaXOR [simp]: "length (chachaXOR src key counter nonce) = length src"
proof (induction src key counter nonce rule: chachaXOR.induct)
  case (1 src key counter nonce)
  then show ?case by (subst chachaXOR.simps) (auto simp: Let_def)
qed

text \<open>The key stream applied twice cancels.\<close>

lemma chachaXOR_twice:
  "chachaXOR (chachaXOR src key counter nonce) key counter nonce = src"
proof (induction src key counter nonce rule: chachaXOR.induct)
  case (1 src key counter nonce)
  show ?case
  proof (cases "src = []")
    case False
    let ?b = "chachaBlock key counter nonce" and ?r = "chachaXOR (drop 64 src) key (counter + 1) nonce"
    have x: "chachaXOR src key counter nonce = XORBytes src ?b @ ?r"
      using False by (subst chachaXOR.simps) (simp add: Let_def)
    define e where "e = XORBytes src ?b @ ?r"
    have "XORBytes e ?b = take 64 src" using XORBytes_twice [of src ?b ?r] by (simp add: e_def)
    moreover have "drop 64 e = ?r" by (cases "length src \<le> 64") (auto simp: e_def)
    moreover have "length e = length src" using length_chachaXOR [of src key counter nonce] by (simp add: x e_def)
    then have "chachaXOR e key counter nonce = XORBytes e ?b @ chachaXOR (drop 64 e) key (counter + 1) nonce"
      using False by (subst chachaXOR.simps) (auto simp: Let_def)
    ultimately show ?thesis unfolding x e_def [symmetric] using 1 False by simp
  qed simp
qed

text \<open>The quarter round on the test vector of RFC 8439, section 2.1.1.\<close>

lemma qr_rfc8439:
  "qr 0 1 2 3 [0x11111111, 0x01020304, 0x9b8d6f43, 0x01234567] = [0xea2a92f4, 0xcb1cf8ce, 0x4581472e, 0x5881c4bb]"
  by code_simp

section \<open>The authenticator\<close>

text \<open>Carries and products in terms of natural numbers.\<close>

lemma u64_less [simp]: "unat (x :: u64) < 18446744073709551616"
proof -
  have "unat x < 2 ^ LENGTH(64)" by (rule unsigned_less)
  then show ?thesis by simp
qed

lemma unat_add64: "unat (x + y + c :: u64) = (unat x + unat y + unat c) mod 18446744073709551616"
  by (simp add: unat_word_ariths mod_add_left_eq)

lemma Add64_spec:
  assumes "Add64 x y c = (s, d)" "unat c \<le> 1"
  shows "unat s + 18446744073709551616 * unat d = unat x + unat y + unat c" "unat d \<le> 1"
proof -
  have s: "unat s = (unat x + unat y + unat c) mod 18446744073709551616"
    and d: "unat d = (if unat x + unat y + unat c < 18446744073709551616 then 0 else 1)"
    using assms(1) by (auto simp: Add64_def unat_add64)
  have "unat x + unat y + unat c < 2 * 18446744073709551616"
    using u64_less [of x] u64_less [of y] assms(2) by linarith
  then show "unat s + 18446744073709551616 * unat d = unat x + unat y + unat c"
    unfolding s d by (auto simp: mod_if)
  show "unat d \<le> 1" unfolding d by simp
qed

lemma Mul64_spec:
  assumes "Mul64 x y = (hi, lo)"
  shows "unat lo + 18446744073709551616 * unat hi = unat x * unat y"
proof -
  have "unat x * unat y \<le> 18446744073709551615 * 18446744073709551615"
    using u64_less [of x] u64_less [of y] by (intro mult_mono) linarith+
  then have "unat x * unat y div 18446744073709551616 < 2 ^ 64" by simp
  then have "unat hi = unat x * unat y div 18446744073709551616"
    using assms by (auto simp: Mul64_def unsigned_of_nat take_bit_nat_eq_self)
  moreover have "unat lo = unat x * unat y mod 18446744073709551616"
    using assms by (auto simp: Mul64_def unat_word_ariths)
  ultimately show ?thesis by simp
qed

lemma Mul64_hi:
  assumes "Mul64 x y = (hi, lo)" "unat y < 1152921504606846976"
  shows "unat hi < 1152921504606846976"
proof -
  have "18446744073709551616 * unat hi \<le> unat x * unat y" using Mul64_spec [OF assms(1)] by simp
  also have "\<dots> \<le> 18446744073709551616 * unat y" using u64_less [of x] by (intro mult_right_mono) linarith+
  finally show ?thesis using assms(2) by simp
qed

lemma unat_mult_small: "unat x * unat y < 18446744073709551616 \<Longrightarrow> unat (x * y :: u64) = unat x * unat y"
  by (simp add: unat_word_ariths)

section \<open>Values\<close>

definition poly_p :: nat where
  "poly_p = 2 ^ 130 - 5"

definition acc_val :: "poly1305 \<Rightarrow> nat" where
  "acc_val p = unat (h0 p) + 2 ^ 64 * unat (h1 p) + 2 ^ 128 * unat (h2 p)"

definition r_val :: "poly1305 \<Rightarrow> nat" where
  "r_val p = unat (r0 p) + 2 ^ 64 * unat (r1 p)"

definition s_val :: "poly1305 \<Rightarrow> nat" where
  "s_val p = unat (s0 p) + 2 ^ 64 * unat (s1 p)"

definition poly_ok :: "poly1305 \<Rightarrow> bool" where
  "poly_ok p \<longleftrightarrow> unat (r0 p) < 2 ^ 60 \<and> unat (r1 p) < 2 ^ 60 \<and> unat (h2 p) \<le> 4"

definition val4 :: "u64 \<times> u64 \<times> u64 \<times> u64 \<Rightarrow> nat" where
  "val4 t = (case t of (t0, t1, t2, t3) \<Rightarrow>
     unat t0 + 2 ^ 64 * unat t1 + 2 ^ 128 * unat t2 + 2 ^ 192 * unat t3)"

lemma le_nat_bound: "le_nat bs < 256 ^ length bs"
proof (induction bs)
  case (Cons b bs)
  have "unat b < 2 ^ LENGTH(8)" by (rule unsigned_less)
  then have "unat b < 256" by simp
  with Cons show ?case by (simp add: le_nat_def)
qed (simp add: le_nat_def)

lemma le_nat_append: "le_nat (a @ b) = le_nat a + 256 ^ length a * le_nat b"
  by (induction a) (simp_all add: le_nat_def algebra_simps)

lemma Uint64_val: "length m = 8 \<Longrightarrow> unat (Uint64 m) = le_nat m"
  using le_nat_bound [of m] by (simp add: Uint64_def unsigned_of_nat take_bit_nat_eq_self)

lemma Uint64_take: "Uint64 (take 8 m) = Uint64 m"
  by (simp add: Uint64_def)

lemma Uint64_block:
  assumes "length m = 16"
  shows "unat (Uint64 m) + 2 ^ 64 * unat (Uint64 (drop 8 m)) = le_nat m"
proof -
  have "le_nat m = le_nat (take 8 m) + 256 ^ 8 * le_nat (drop 8 m)"
    using le_nat_append [of "take 8 m" "drop 8 m"] assms by simp
  then show ?thesis
    using assms Uint64_val [of "take 8 m"] Uint64_val [of "drop 8 m"] by (simp add: Uint64_take)
qed

lemma poly_add_spec:
  assumes ok: "poly_ok p" and m: "length m = 16"
  defines "q \<equiv> poly_add m 1 p"
  shows "acc_val q = acc_val p + le_nat m + 2 ^ 128" "unat (h2 q) \<le> 6"
    "r0 q = r0 p" "r1 q = r1 p" "s0 q = s0 p" "s1 q = s1 p"
proof -
  obtain a0 c where a0: "Add64 (h0 p) (Uint64 m) 0 = (a0, c)" by (cases "Add64 (h0 p) (Uint64 m) 0")
  obtain a1 d where a1: "Add64 (h1 p) (Uint64 (drop 8 m)) c = (a1, d)"
    by (cases "Add64 (h1 p) (Uint64 (drop 8 m)) c")
  have q: "q = p\<lparr>h0 := a0, h1 := a1, h2 := h2 p + (d + 1)\<rparr>" by (simp add: q_def poly_add_def a0 a1)
  note A = Add64_spec [OF a0] Add64_spec [OF a1]
  have c: "unat c \<le> 1" using A(2) by simp
  have d: "unat d \<le> 1" using A(4) c by simp
  have "unat (d + 1) = unat d + 1" using d by (simp add: unat_word_ariths)
  then have h2: "unat (h2 p + (d + 1)) = unat (h2 p) + unat d + 1"
    using ok d by (simp add: unat_word_ariths poly_ok_def)
  show "acc_val q = acc_val p + le_nat m + 2 ^ 128"
    unfolding q acc_val_def Uint64_block [OF m, symmetric] using A(1,3) c h2 by simp
  show "unat (h2 q) \<le> 6" using h2 d ok by (simp add: q poly_ok_def)
  show "r0 q = r0 p" "r1 q = r1 p" "s0 q = s0 p" "s1 q = s1 p" by (simp_all add: q)
qed

lemma poly_mul_spec:
  assumes r: "unat (r0 p) < 2 ^ 60" "unat (r1 p) < 2 ^ 60" and h: "unat (h2 p) \<le> 6"
  shows "val4 (poly_mul p) = acc_val p * r_val p"
proof -
  obtain a1 a0 where a: "Mul64 (h0 p) (r0 p) = (a1, a0)" by (cases "Mul64 (h0 p) (r0 p)")
  obtain b1 b0 where b: "Mul64 (h1 p) (r0 p) = (b1, b0)" by (cases "Mul64 (h1 p) (r0 p)")
  obtain c1 c0 where c: "Mul64 (h0 p) (r1 p) = (c1, c0)" by (cases "Mul64 (h0 p) (r1 p)")
  obtain d1 d0 where d: "Mul64 (h1 p) (r1 p) = (d1, d0)" by (cases "Mul64 (h1 p) (r1 p)")
  let ?e = "h2 p * r0 p" and ?f = "h2 p * r1 p"
  obtain m1lo k1 where m1lo: "Add64 b0 c0 0 = (m1lo, k1)" by (cases "Add64 b0 c0 0")
  obtain m1hi k2 where m1hi: "Add64 b1 c1 k1 = (m1hi, k2)" by (cases "Add64 b1 c1 k1")
  obtain m2lo k3 where m2lo: "Add64 ?e d0 0 = (m2lo, k3)" by (cases "Add64 ?e d0 0")
  obtain m2hi k4 where m2hi: "Add64 0 d1 k3 = (m2hi, k4)" by (cases "Add64 0 d1 k3")
  obtain t1 k5 where t1: "Add64 m1lo a1 0 = (t1, k5)" by (cases "Add64 m1lo a1 0")
  obtain t2 k6 where t2: "Add64 m2lo m1hi k5 = (t2, k6)" by (cases "Add64 m2lo m1hi k5")
  obtain t3 k7 where t3: "Add64 ?f m2hi k6 = (t3, k7)" by (cases "Add64 ?f m2hi k6")
  have res: "poly_mul p = (a0, t1, t2, t3)"
    by (simp add: poly_mul_def a b c d m1lo m1hi m2lo m2hi t1 t2 t3)
  have r': "unat (r0 p) < 1152921504606846976" "unat (r1 p) < 1152921504606846976" using r by simp_all
  have "unat (h2 p) * unat (r0 p) \<le> 6 * 1152921504606846976" "unat (h2 p) * unat (r1 p) \<le> 6 * 1152921504606846976"
    using h r' by (intro mult_mono; linarith)+
  then have e: "unat ?e = unat (h2 p) * unat (r0 p)" and f: "unat ?f = unat (h2 p) * unat (r1 p)"
    and f': "unat ?f \<le> 6917529027641081856"
    by (simp_all add: unat_mult_small)
  note H = Mul64_hi [OF b r'(1)] Mul64_hi [OF c r'(2)] Mul64_hi [OF d r'(2)]
  note A1 = Add64_spec [OF m1lo] note A3 = Add64_spec [OF m2lo] note A5 = Add64_spec [OF t1]
  have k: "unat k1 \<le> 1" "unat k3 \<le> 1" "unat k5 \<le> 1" using A1(2) A3(2) A5(2) by simp_all
  note A2 = Add64_spec(1) [OF m1hi k(1)] and A4 = Add64_spec(1) [OF m2hi k(2)] and A6 = Add64_spec [OF t2 k(3)]
  note A7 = Add64_spec(1) [OF t3 A6(2)]
  have z: "unat k2 = 0" "unat k4 = 0" using A2 A4 H k by simp_all
  then have z7: "unat k7 = 0" using A7 A4 f' H(3) k(2) A6(2) by simp
  have "val4 (poly_mul p) = unat a0 + 2 ^ 64 * unat t1 + 2 ^ 128 * unat t2 + 2 ^ 192 * unat t3"
    by (simp add: res val4_def)
  also have "\<dots> = unat (h0 p) * unat (r0 p) + 2 ^ 64 * (unat (h1 p) * unat (r0 p)) + 2 ^ 64 * (unat (h0 p) * unat (r1 p)) +
      2 ^ 128 * (unat (h2 p) * unat (r0 p)) + 2 ^ 128 * (unat (h1 p) * unat (r1 p)) + 2 ^ 192 * (unat (h2 p) * unat (r1 p))"
    using Mul64_spec [OF a] Mul64_spec [OF b] Mul64_spec [OF c] Mul64_spec [OF d] e f
      A1(1) A2 A3(1) A4 A5(1) A6(1) A7 z z7 by simp
  also have "\<dots> = acc_val p * r_val p" by (simp add: acc_val_def r_val_def algebra_simps)
  finally show ?thesis .
qed

text \<open>The reduction.\<close>

lemma and_3: "unat (t AND 3 :: u64) = unat t mod 4"
proof -
  have "t AND 3 = take_bit 2 t" by (simp add: take_bit_eq_mask mask_eq_exp_minus_1)
  then have "unat (t AND 3) = take_bit 2 (unat t)" by (simp only: unsigned_take_bit_eq)
  then show ?thesis by (simp add: take_bit_eq_mod)
qed

lemma and_not_3: "unat (t AND NOT 3 :: u64) = 4 * (unat t div 4)"
proof -
  have "t AND 3 OR t AND NOT 3 = t" by (simp flip: bit.conj_disj_distrib)
  moreover have "(t AND 3) AND (t AND NOT 3) = 0" by (simp add: bit.conj_cancel_right and.assoc and.left_commute)
  ultimately have "unat (t AND 3) OR unat (t AND NOT 3) = unat t" "unat (t AND 3) AND unat (t AND NOT 3) = 0"
    by (metis unsigned_or_eq, metis unsigned_and_eq unsigned_0)
  then have "unat t = unat (t AND 3) + unat (t AND NOT 3)" by (simp add: disjunctive_add_eq_or)
  then show ?thesis using and_3 [of t] by (simp add: mod_mult_div_eq) presburger
qed

lemma unat_drop_2: "unat (drop_bit 2 t :: u64) = unat t div 4"
proof -
  have "unat (drop_bit 2 t) = drop_bit 2 (unat t)"
    by (simp only: unsigned_drop_bit_eq take_bit_nat_eq_self [OF unsigned_less])
  then show ?thesis by (simp add: drop_bit_eq_div)
qed

lemma or_shift:
  assumes "unat a < 2 ^ 62"
  shows "unat (a OR push_bit 62 t :: u64) = unat a + 4611686018427387904 * (unat t mod 4)"
proof -
  have "unat (push_bit 62 t) = push_bit 62 (take_bit (LENGTH(64) - 62) (unat t))"
    by (simp only: unsigned_push_bit_eq take_bit_push_bit)
  then have p: "unat (push_bit 62 t) = push_bit 62 (unat t mod 4)" by (simp add: take_bit_eq_mod)
  have a: "take_bit 62 (unat a) = unat a" using assms by (rule take_bit_nat_eq_self)
  have "take_bit 62 (unat a) AND push_bit 62 (unat t mod 4) = 0"
    by (rule bit_eqI) (auto simp: bit_simps)
  then have "unat a OR push_bit 62 (unat t mod 4) = unat a + push_bit 62 (unat t mod 4)"
    unfolding a by (simp add: disjunctive_add_eq_or)
  then show ?thesis unfolding unsigned_or_eq p by (simp add: push_bit_eq_mult)
qed

lemma poly_reduce_spec:
  fixes t p
  assumes T: "val4 t < 7 * 2 ^ 252"
  defines "q \<equiv> poly_reduce t p"
  shows "acc_val q = val4 t mod 2 ^ 130 + 5 * (val4 t div 2 ^ 130)" "unat (h2 q) \<le> 4"
    "r0 q = r0 p" "r1 q = r1 p" "s0 q = s0 p" "s1 q = s1 p"
proof -
  obtain t0 t1 t2 t3 where t: "t = (t0, t1, t2, t3)" by (cases t) auto
  let ?c0 = "t2 AND NOT 3" and ?c0' = "drop_bit 2 (t2 AND NOT 3) OR push_bit 62 t3" and ?c1' = "drop_bit 2 t3"
  obtain a0 k1 where a0: "Add64 t0 ?c0 0 = (a0, k1)" by (cases "Add64 t0 ?c0 0")
  obtain a1 k2 where a1: "Add64 t1 t3 k1 = (a1, k2)" by (cases "Add64 t1 t3 k1")
  obtain b0 k3 where b0: "Add64 a0 ?c0' 0 = (b0, k3)" by (cases "Add64 a0 ?c0' 0")
  obtain b1 k4 where b1: "Add64 a1 ?c1' k3 = (b1, k4)" by (cases "Add64 a1 ?c1' k3")
  have q: "q = p\<lparr>h0 := b0, h1 := b1, h2 := (t2 AND 3) + k2 + k4\<rparr>"
    unfolding q_def poly_reduce_def t Let_def prod.case a0 a1 b0 b1 by (rule refl)
  define x where "x = unat t2 div 4 + 4611686018427387904 * unat t3"
  have c0: "unat ?c0 = 4 * (unat t2 div 4)" by (rule and_not_3)
  have "unat (drop_bit 2 ?c0) = unat t2 div 4" by (simp only: unat_drop_2 c0 nonzero_mult_div_cancel_left zero_neq_numeral not_False_eq_True)
  moreover have "unat t2 div 4 < 2 ^ 62" using u64_less [of t2] by (simp add: div_less_iff_less_mult del: u64_less)
  ultimately have c0': "unat ?c0' = unat t2 div 4 + 4611686018427387904 * (unat t3 mod 4)"
    by (subst or_shift) simp_all
  have c1': "unat ?c1' = unat t3 div 4" by (rule unat_drop_2)
  note A1 = Add64_spec [OF a0] note A3 = Add64_spec [OF b0]
  have k: "unat k1 \<le> 1" "unat k3 \<le> 1" using A1(2) A3(2) by simp_all
  note A2 = Add64_spec [OF a1 k(1)] and A4 = Add64_spec [OF b1 k(2)]
  have low: "unat (t2 AND 3) < 4" unfolding and_3 by simp
  have h2: "unat ((t2 AND 3) + k2 + k4) = unat t2 mod 4 + unat k2 + unat k4"
    using low A2(2) A4(2) by (simp add: unat_word_ariths and_3)
  have "4 * (unat t3 div 4) + unat t3 mod 4 = unat t3" "4 * (unat t2 div 4) + unat t2 mod 4 = unat t2" by simp_all
  then have q3: "4611686018427387904 * (unat t3 mod 4) + 18446744073709551616 * (unat t3 div 4) = 4611686018427387904 * unat t3"
    and q2: "340282366920938463463374607431768211456 * (unat t2 mod 4) +
      1361129467683753853853498429727072845824 * (unat t2 div 4) = 340282366920938463463374607431768211456 * unat t2"
    by linarith+
  have x5: "unat ?c0 + 2 ^ 64 * unat t3 = 4 * x" "unat ?c0' + 2 ^ 64 * unat ?c1' = x"
    unfolding c0 c0' c1' x_def using q3 by simp_all
  have V: "acc_val q = unat t0 + 2 ^ 64 * unat t1 + 2 ^ 128 * (unat t2 mod 4) + 5 * x"
    unfolding q acc_val_def using h2 A1(1) A2(1) A3(1) A4(1) x5 by simp
  define lowt where "lowt = unat t0 + 2 ^ 64 * unat t1 + 2 ^ 128 * (unat t2 mod 4)"
  have "unat t2 mod 4 < 4" by simp
  then have lt: "lowt < 2 ^ 130"
    unfolding lowt_def using u64_less [of t0] u64_less [of t1] by (simp del: u64_less mod_less_divisor)
  have T': "val4 t = lowt + 2 ^ 130 * x"
    unfolding t val4_def lowt_def x_def using q2 by simp
  have d: "val4 t div 2 ^ 130 = x" "val4 t mod 2 ^ 130 = lowt" unfolding T' using lt by simp_all
  show acc: "acc_val q = val4 t mod 2 ^ 130 + 5 * (val4 t div 2 ^ 130)" unfolding d V lowt_def by simp
  have "x < 7 * 2 ^ 122" using T d(1) by (simp add: div_less_iff_less_mult)
  then have "acc_val q < 5 * 2 ^ 128" unfolding acc d using lt by simp
  then show "unat (h2 q) \<le> 4" unfolding acc_val_def by simp
  show "r0 q = r0 p" "r1 q = r1 p" "s0 q = s0 p" "s1 q = s1 p" by (simp_all add: q)
qed

lemma poly_block_spec:
  assumes ok: "poly_ok p" and m: "length m = 16"
  defines "q \<equiv> poly_block m 1 p"
  shows "poly_ok q" "acc_val q mod poly_p = (acc_val p + le_nat m + 2 ^ 128) * r_val p mod poly_p"
    "r_val q = r_val p" "s_val q = s_val p"
proof -
  define a where "a = poly_add m 1 p"
  note A = poly_add_spec [OF ok m, folded a_def]
  have r: "unat (r0 a) < 2 ^ 60" "unat (r1 a) < 2 ^ 60" using ok A(3,4) by (simp_all add: poly_ok_def)
  note M = poly_mul_spec [OF r A(2)]
  have acc: "acc_val a < 7 * 2 ^ 128" using A(2) u64_less [of "h0 a"] u64_less [of "h1 a"] by (simp add: acc_val_def del: u64_less)
  have "r_val a \<le> 2 ^ 124" using r by (simp add: r_val_def)
  then have "acc_val a * r_val a \<le> acc_val a * 2 ^ 124" by (rule mult_le_mono2)
  also have "\<dots> < 7 * 2 ^ 128 * 2 ^ 124" using acc by (rule mult_strict_right_mono) simp
  finally have "val4 (poly_mul a) < 7 * 2 ^ 252" unfolding M by simp
  note R = poly_reduce_spec [OF this, of a]
  have q: "q = poly_reduce (poly_mul a) a" by (simp add: q_def poly_block_def a_def Let_def)
  show "poly_ok q" "r_val q = r_val p" "s_val q = s_val p"
    using R(2-) ok A(3-) by (simp_all add: q poly_ok_def r_val_def s_val_def)
  let ?T = "acc_val a * r_val a"
  have "?T = acc_val q + poly_p * (?T div 2 ^ 130)"
    using R(1) mod_mult_div_eq [of ?T "2 ^ 130"] unfolding q M poly_p_def by (simp add: algebra_simps)
  then have "acc_val q mod poly_p = ?T mod poly_p" by (metis mod_mult_self2)
  then show "acc_val q mod poly_p = (acc_val p + le_nat m + 2 ^ 128) * r_val p mod poly_p"
    unfolding A(1) using A(3,4) by (simp add: r_val_def)
qed

section \<open>The authenticator of RFC 8439\<close>

text \<open>
  The reference: the message, cut into blocks of 16 bytes, is absorbed in arithmetic modulo
  \<open>2^130 - 5\<close>; the AEAD pads each of its two parts with zeros and appends their lengths.
\<close>

definition blocks16 :: "bytes \<Rightarrow> bytes list" where
  "blocks16 msg = map (\<lambda>i. take 16 (drop (16 * i) msg)) [0 ..< length msg div 16]"

definition pad16 :: "bytes \<Rightarrow> bytes" where
  "pad16 xs = xs @ replicate ((16 - length xs mod 16) mod 16) 0"

definition rfc_absorb :: "nat \<Rightarrow> bytes \<Rightarrow> nat \<Rightarrow> nat" where
  "rfc_absorb r m a = (a + le_nat m + 2 ^ 128) * r mod poly_p"

definition rfc_poly1305 :: "bytes \<Rightarrow> bytes \<Rightarrow> nat" where
  "rfc_poly1305 key msg =
     (let r = le_nat (take 16 key) AND 0x0ffffffc0ffffffc0ffffffc0fffffff; s = le_nat (take 16 (drop 16 key))
      in (fold (rfc_absorb r) (blocks16 msg) 0 + s) mod 2 ^ 128)"

definition rfc_mac_data :: "bytes \<Rightarrow> bytes \<Rightarrow> bytes" where
  "rfc_mac_data aad ct =
     pad16 aad @ pad16 ct @ PutUint64 (of_nat (length aad)) @ PutUint64 (of_nat (length ct))"

lemma blocks16_append:
  assumes "length a mod 16 = 0"
  shows "blocks16 (a @ b) = blocks16 a @ blocks16 b"
proof -
  define k m where "k = length a div 16" and "m = length b div 16"
  have la: "length a = 16 * k" using assms by (auto simp: k_def)
  have n: "length (a @ b) div 16 = k + m" unfolding length_append la m_def by simp
  have up: "[0 ..< k + m] = [0 ..< k] @ map (\<lambda>i. i + k) [0 ..< m]"
    using upt_add_eq_append [of 0 k m] map_add_upt [of k m] by (simp add: add.commute)
  have "take 16 (drop (16 * i) (a @ b)) = take 16 (drop (16 * i) a)" if "i < k" for i using that la by simp
  moreover have "drop (16 * (i + k)) (a @ b) = drop (16 * i) b" for i using la by (simp add: distrib_left)
  ultimately show ?thesis
    unfolding blocks16_def n up m_def [symmetric] k_def [symmetric] by (simp del: drop_append take_append)
qed

lemma blocks16_one: "length m = 16 \<Longrightarrow> blocks16 m = [m]"
  by (simp add: blocks16_def)

lemma pad16_step: "16 \<le> length data \<Longrightarrow> pad16 data = take 16 data @ pad16 (drop 16 data)"
  using le_mod_geq [of 16 "length data"] by (simp add: pad16_def)

lemma length_pad16: "length (pad16 xs) mod 16 = 0"
proof -
  have "(n + (16 - n mod 16) mod 16) mod 16 = 0" for n :: nat
  proof -
    have "(n + (16 - n mod 16) mod 16) mod 16 = (n mod 16 + (16 - n mod 16)) mod 16" by (simp only: mod_simps)
    also have "n mod 16 + (16 - n mod 16) = 16" by simp
    finally show ?thesis by simp
  qed
  then show ?thesis by (simp add: pad16_def)
qed

definition absorbs :: "bytes list \<Rightarrow> poly1305 \<Rightarrow> poly1305 \<Rightarrow> bool" where
  "absorbs bl p q \<longleftrightarrow>
     poly_ok q \<and> r_val q = r_val p \<and> s_val q = s_val p \<and>
     acc_val q mod poly_p = fold (rfc_absorb (r_val p)) bl (acc_val p mod poly_p)"

lemma absorbs_block:
  assumes "poly_ok p" "length m = 16"
  shows "absorbs [m] p (poly_block m 1 p)"
proof -
  have "(a + b) * r mod n = (a mod n + b) * r mod n" for a b r n :: nat
    by (metis mod_add_left_eq mod_mult_left_eq)
  from this [of "acc_val p" "le_nat m + 2 ^ 128" "r_val p" poly_p]
  have "(acc_val p + le_nat m + 2 ^ 128) * r_val p mod poly_p =
      (acc_val p mod poly_p + le_nat m + 2 ^ 128) * r_val p mod poly_p"
    by (simp only: add.assoc)
  then show ?thesis
    using poly_block_spec [OF assms] by (simp add: absorbs_def rfc_absorb_def)
qed

lemma absorbs_trans: "absorbs bl p q \<Longrightarrow> absorbs bl' q s \<Longrightarrow> absorbs (bl @ bl') p s"
  by (simp add: absorbs_def)

lemma writePadded_absorbs: "poly_ok p \<Longrightarrow> absorbs (blocks16 (pad16 data)) p (writePadded data p)"
proof (induction data p rule: writePadded.induct)
  case (1 data p)
  consider (full) "16 \<le> length data" | (part) "length data < 16" "data \<noteq> []" | (none) "data = []" by fastforce
  then show ?case
  proof cases
    case full
    let ?q = "poly_block (take 16 data) 1 p"
    have b: "absorbs [take 16 data] p ?q" using 1(2) full by (intro absorbs_block) simp_all
    then have "poly_ok ?q" by (simp add: absorbs_def)
    from 1(1) [OF full this] b have "absorbs ([take 16 data] @ blocks16 (pad16 (drop 16 data))) p (writePadded (drop 16 data) ?q)"
      by (intro absorbs_trans)
    then show ?thesis
      using full by (subst writePadded.simps) (simp add: pad16_step blocks16_append blocks16_one)
  next
    case part
    let ?m = "data @ replicate (16 - length data) 0"
    have "pad16 data = ?m" using part by (simp add: pad16_def)
    moreover have "writePadded data p = poly_block ?m 1 p" using part by (subst writePadded.simps) simp
    ultimately show ?thesis using absorbs_block [OF 1(2), of ?m] part by (simp add: blocks16_one)
  next
    case none
    then show ?thesis using 1(2) by (subst writePadded.simps) (simp add: absorbs_def pad16_def blocks16_def)
  qed
qed

text \<open>The final subtraction and the tag.\<close>

lemma Sub64_spec:
  assumes "Sub64 x y b = (d, b')" "unat b \<le> 1"
  shows "unat d + unat y + unat b = unat x + 18446744073709551616 * unat b'" "unat b' \<le> 1"
proof -
  have d: "d = x - y - b" and b': "unat b' = (if unat x < unat y + unat b then 1 else 0)"
    using assms(1) by (auto simp: Sub64_def)
  have "x = d + y + b" unfolding d by simp
  then have "unat x = (unat d + unat y + unat b) mod 18446744073709551616" using unat_add64 by metis
  then obtain q where q: "unat d + unat y + unat b = unat x + 18446744073709551616 * q"
    by (metis mod_mult_div_eq)
  note lt = u64_less [of d] u64_less [of x] u64_less [of y] assms(2)
  have "q = unat b'"
  proof (cases "unat x < unat y + unat b")
    case True
    then have "q = 1" using q lt by linarith
    then show ?thesis using True by (simp add: b')
  next
    case False
    then have "q = 0" using q lt by linarith
    then show ?thesis using False by (simp add: b')
  qed
  with q show "unat d + unat y + unat b = unat x + 18446744073709551616 * unat b'" by simp
  show "unat b' \<le> 1" unfolding b' by simp
qed

lemma le_nat_PutUint64: "le_nat (PutUint64 v) = unat v"
proof -
  have byte: "unat (ucast (drop_bit (8 * i) v) :: byte) = unat v div 256 ^ i mod 256" for i
  proof -
    have "unat (ucast (drop_bit (8 * i) v) :: byte) = take_bit 8 (drop_bit (8 * i) (unat v))"
      by (simp add: unsigned_ucast_eq unsigned_drop_bit_eq take_bit_nat_eq_self)
    then show ?thesis by (simp add: take_bit_eq_mod drop_bit_eq_div power_mult)
  qed
  have "le_nat (map (\<lambda>i. ucast (drop_bit (8 * i) v)) [0 ..< k]) = unat v mod 256 ^ k" for k
  proof (induction k)
    case (Suc k)
    have "unat v mod 256 ^ Suc k = 256 ^ k * (unat v div 256 ^ k mod 256) + unat v mod 256 ^ k"
      by (simp only: power_Suc2 mod_mult2_eq)
    with Suc show ?case by (simp add: le_nat_append byte) (simp add: le_nat_def byte)
  qed (simp add: le_nat_def)
  from this [of 8] show ?thesis by (simp add: PutUint64_def)
qed

lemma poly_sum_spec:
  assumes ok: "poly_ok p"
  shows "le_nat (poly_sum p) = (acc_val p mod poly_p + s_val p) mod 2 ^ 128"
proof -
  obtain t0 b0 where t0: "Sub64 (h0 p) 0xfffffffffffffffb 0 = (t0, b0)" by fastforce
  obtain t1 b1 where t1: "Sub64 (h1 p) 0xffffffffffffffff b0 = (t1, b1)" by fastforce
  obtain t2 b2 where t2: "Sub64 (h2 p) 3 b1 = (t2, b2)" by fastforce
  define a0 where "a0 = (h0 p AND NOT (b2 - 1)) OR (t0 AND (b2 - 1))"
  define a1 where "a1 = (h1 p AND NOT (b2 - 1)) OR (t1 AND (b2 - 1))"
  obtain c0 k0 where c0: "Add64 a0 (s0 p) 0 = (c0, k0)" by fastforce
  obtain c1 k1 where c1: "Add64 a1 (s1 p) k0 = (c1, k1)" by fastforce
  have sum: "poly_sum p = PutUint64 c0 @ PutUint64 c1"
    unfolding poly_sum_def t0 t1 t2 Let_def prod.case a0_def [symmetric] a1_def [symmetric] c0 c1 by (rule refl)
  note S0 = Sub64_spec [OF t0] note S1 = Sub64_spec [OF t1] note S2 = Sub64_spec [OF t2]
  have b: "unat b0 \<le> 1" "unat b1 \<le> 1" "unat b2 \<le> 1" using S0(2) S1(2) S2(2) by simp_all
  define u where "u = unat t0 + 2 ^ 64 * unat t1 + 2 ^ 128 * unat t2"
  have tot: "u + poly_p = acc_val p + 2 ^ 192 * unat b2"
    using S0(1) S1(1) S2(1) b by (simp add: u_def acc_val_def poly_p_def)
  have H: "acc_val p < 2 * poly_p"
    using ok u64_less [of "h0 p"] u64_less [of "h1 p"] by (simp add: acc_val_def poly_p_def poly_ok_def del: u64_less)
  have u: "u < 2 ^ 192" using u64_less [of t0] u64_less [of t1] u64_less [of t2] by (simp add: u_def del: u64_less)
  have low: "(unat a0 + 2 ^ 64 * unat a1) mod 2 ^ 128 = (acc_val p mod poly_p) mod 2 ^ 128"
  proof (cases "unat b2 = 0")
    case True
    then have "b2 = 0" by (metis unsigned_eq_0_iff)
    then have a: "a0 = t0" "a1 = t1" by (simp_all add: a0_def a1_def)
    have "acc_val p = u + poly_p" using tot True by simp
    moreover from this H have "u < poly_p" by simp
    ultimately have "acc_val p mod poly_p = u" by simp
    moreover have "u mod 2 ^ 128 = (unat t0 + 2 ^ 64 * unat t1) mod 2 ^ 128" by (simp add: u_def)
    ultimately show ?thesis by (simp add: a)
  next
    case False
    then have "unat b2 = 1" using b(3) by simp
    then have "b2 = 1" by (metis unsigned_1 unsigned_word_eqI)
    then have a: "a0 = h0 p" "a1 = h1 p" by (simp_all add: a0_def a1_def)
    have "acc_val p < poly_p" using tot u \<open>unat b2 = 1\<close> by simp
    then have "acc_val p mod poly_p = acc_val p" by simp
    moreover have "acc_val p mod 2 ^ 128 = (unat (h0 p) + 2 ^ 64 * unat (h1 p)) mod 2 ^ 128" by (simp add: acc_val_def)
    ultimately show ?thesis by (simp add: a)
  qed
  have k0: "unat k0 \<le> 1" using Add64_spec(2) [OF c0] by simp
  have c: "unat c0 + 2 ^ 64 * unat c1 + 2 ^ 128 * unat k1 = unat a0 + 2 ^ 64 * unat a1 + s_val p"
    using Add64_spec(1) [OF c0] Add64_spec(1) [OF c1 k0] by (simp add: s_val_def)
  have "unat c0 + 2 ^ 64 * unat c1 < 2 ^ 128" using u64_less [of c0] u64_less [of c1] by (simp del: u64_less)
  then have "unat c0 + 2 ^ 64 * unat c1 = (unat a0 + 2 ^ 64 * unat a1 + s_val p) mod 2 ^ 128"
    unfolding c [symmetric] by simp
  also have "\<dots> = (acc_val p mod poly_p + s_val p) mod 2 ^ 128" using low by (metis mod_add_left_eq)
  finally show ?thesis by (simp add: sum le_nat_append le_nat_PutUint64)
qed

lemma and_limbs:
  fixes a b c d :: nat
  assumes "a < 2 ^ 64" "c < 2 ^ 64"
  shows "(a + 2 ^ 64 * b) AND (c + 2 ^ 64 * d) = (a AND c) + 2 ^ 64 * (b AND d)"
proof -
  let ?x = "a + 2 ^ 64 * b" and ?y = "c + 2 ^ 64 * d"
  have t: "take_bit 64 (a + 2 ^ 64 * b) = a" "drop_bit 64 (a + 2 ^ 64 * b) = b" if "a < 2 ^ 64" for a b :: nat
    using that by (simp_all add: take_bit_eq_mod drop_bit_eq_div)
  have "take_bit 64 (?x AND ?y) = a AND c" "drop_bit 64 (?x AND ?y) = b AND d"
    using t(1) [OF assms(1), of b] t(1) [OF assms(2), of d] t(2) [OF assms(1), of b] t(2) [OF assms(2), of d]
    by (simp_all only: take_bit_and drop_bit_and)
  then show ?thesis using bits_ident [of 64 "?x AND ?y"] by (simp add: push_bit_eq_mult mult.commute add.commute)
qed

lemma clamp_val:
  assumes "length key = 32"
  shows "r_val (newPoly1305 key) = le_nat (take 16 key) AND 0x0ffffffc0ffffffc0ffffffc0fffffff"
    and "s_val (newPoly1305 key) = le_nat (take 16 (drop 16 key))"
    and "poly_ok (newPoly1305 key)" "acc_val (newPoly1305 key) = 0"
proof -
  let ?a = "Uint64 key" and ?b = "Uint64 (drop 8 key)"
  have Ut: "Uint64 (take 16 k) = Uint64 k" "Uint64 (drop 8 (take 16 k)) = Uint64 (drop 8 k)" for k
    by (simp_all add: Uint64_def drop_take)
  have v: "unat (Uint64 k) + 2 ^ 64 * unat (Uint64 (drop 8 k)) = le_nat (take 16 k)" if "16 \<le> length k" for k
    using Uint64_block [of "take 16 k"] that by (simp add: Ut)
  have "(0x0ffffffc0ffffffc0ffffffc0fffffff :: nat) = 0x0ffffffc0fffffff + 2 ^ 64 * 0x0ffffffc0ffffffc" by simp
  moreover have "unat (?a AND 0x0ffffffc0fffffff) = unat ?a AND 0x0ffffffc0fffffff"
    "unat (?b AND 0x0ffffffc0ffffffc) = unat ?b AND 0x0ffffffc0ffffffc" by (simp_all add: unsigned_and_eq)
  ultimately show "r_val (newPoly1305 key) = le_nat (take 16 key) AND 0x0ffffffc0ffffffc0ffffffc0fffffff"
    using and_limbs [of "unat ?a" "0x0ffffffc0fffffff" "unat ?b" "0x0ffffffc0ffffffc"] v [of key] assms
    by (simp add: r_val_def newPoly1305_def)
  show "s_val (newPoly1305 key) = le_nat (take 16 (drop 16 key))"
    using v [of "drop 16 key"] assms by (simp add: s_val_def newPoly1305_def)
  have "unat (w AND m) \<le> unat m" for w m :: u64 using word_and_le1 [of w m] by (simp add: word_le_nat_alt)
  from this [of ?a "0x0ffffffc0fffffff"] this [of ?b "0x0ffffffc0ffffffc"]
  show "poly_ok (newPoly1305 key)" by (simp add: poly_ok_def newPoly1305_def)
  show "acc_val (newPoly1305 key) = 0" by (simp add: acc_val_def newPoly1305_def)
qed

lemma length_poly_sum [simp]: "length (poly_sum p) = 16"
  by (simp add: poly_sum_def Let_def split: prod.split)

lemma length_aead_tag [simp]: "length (aead_tag key n ct ad) = 16"
  by (simp add: aead_tag_def Let_def)

text \<open>
  C10. The authenticator on 64-bit limbs with explicit carries is the one of RFC 8439: the tag of the
  AEAD, read as a little-endian number, is Poly1305 under the one-time key, computed modulo
  \<open>2^130 - 5\<close>, of the additional data and the ciphertext, each padded to whole blocks, and their
  lengths.
\<close>

theorem tag_is_rfc8439:
  "le_nat (aead_tag key nonce ct ad) =
     rfc_poly1305 (take 32 (chachaBlock key 0 nonce)) (rfc_mac_data ad ct) \<and>
   length (aead_tag key nonce ct ad) = poly1305TagSize"
proof -
  let ?k = "take 32 (chachaBlock key 0 nonce)"
  let ?lens = "PutUint64 (of_nat (length ad)) @ PutUint64 (of_nat (length ct))"
  let ?p0 = "newPoly1305 ?k"
  let ?p1 = "writePadded ad ?p0"
  let ?p2 = "writePadded ct ?p1"
  let ?p3 = "poly_block ?lens 1 ?p2"
  have K: "length ?k = 32" by simp
  note C = clamp_val [OF K]
  have a1: "absorbs (blocks16 (pad16 ad)) ?p0 ?p1" by (rule writePadded_absorbs [OF C(3)])
  then have a2: "absorbs (blocks16 (pad16 ct)) ?p1 ?p2" by (intro writePadded_absorbs) (simp add: absorbs_def)
  then have a3: "absorbs [?lens] ?p2 ?p3" by (intro absorbs_block) (simp_all add: absorbs_def)
  have "blocks16 (rfc_mac_data ad ct) = blocks16 (pad16 ad) @ blocks16 (pad16 ct) @ [?lens]"
    by (simp add: rfc_mac_data_def blocks16_append length_pad16 blocks16_one)
  with absorbs_trans [OF a1 absorbs_trans [OF a2 a3]] have "absorbs (blocks16 (rfc_mac_data ad ct)) ?p0 ?p3" by simp
  then have "poly_ok ?p3" "s_val ?p3 = s_val ?p0"
    "acc_val ?p3 mod poly_p = fold (rfc_absorb (r_val ?p0)) (blocks16 (rfc_mac_data ad ct)) 0"
    using C(4) by (simp_all add: absorbs_def)
  then have "le_nat (poly_sum ?p3) = rfc_poly1305 ?k (rfc_mac_data ad ct)"
    unfolding rfc_poly1305_def Let_def C(1,2) [symmetric] by (simp add: poly_sum_spec)
  then show ?thesis by (simp add: aead_tag_def Let_def poly1305TagSize_def)
qed

section \<open>The AEAD contract\<close>

text \<open>What packet protection relies on: opening what was sealed, and the length of the tag.\<close>

locale aead =
  fixes seal :: "bytes \<Rightarrow> bytes \<Rightarrow> bytes \<Rightarrow> bytes"
    and unseal :: "bytes \<Rightarrow> bytes \<Rightarrow> bytes \<Rightarrow> bytes option"
  assumes unseal_seal: "unseal nonce (seal nonce plain ad) ad = Some plain"
    and seal_length: "length (seal nonce plain ad) = length plain + 16"

lemma chacha_open_seal:
  "chacha_Open key nonce (chacha_Seal key nonce plain ad) ad = Some plain"
  by (simp add: chacha_Open_def chacha_Seal_def poly1305TagSize_def chachaXOR_twice Let_def)

interpretation cc20: aead "chacha_Seal key" "chacha_Open key" for key
  by unfold_locales (simp_all add: chacha_open_seal, simp add: chacha_Seal_def Let_def)

text \<open>
  C29. ChaCha20-Poly1305 round trip: opening what was sealed under the same key, nonce and additional
  data returns the plaintext; the sealed text is 16 bytes longer, and a text whose last 16 bytes are
  not its tag does not open.
\<close>

theorem chacha_roundtrip:
  "chacha_Open key nonce (chacha_Seal key nonce plain ad) ad = Some plain \<and>
   length (chacha_Seal key nonce plain ad) = length plain + poly1305TagSize \<and>
   (chacha_Open key nonce (body @ tag) ad \<noteq> None \<and> length tag = 16 \<longrightarrow>
      tag = aead_tag key (chachaNonce nonce) body ad)"
  using cc20.unseal_seal [of key nonce plain ad] cc20.seal_length [of key nonce plain ad]
  by (auto simp: poly1305TagSize_def chacha_Open_def Let_def split: if_splits)

theorem chacha_roundtrip_witness:
  "\<exists>tag. chacha_Open [] [] (([] :: bytes) @ tag) [] \<noteq> None \<and> tag = aead_tag [] (chachaNonce []) [] []"
proof -
  have "length (aead_tag [] (chachaNonce []) [] []) = 16" by simp
  then have "chacha_Open [] [] ([] @ aead_tag [] (chachaNonce []) [] []) [] \<noteq> None"
    by (simp add: chacha_Open_def poly1305TagSize_def Let_def)
  with chacha_roundtrip [of "[]" "[]" "[]" "[]" "[]" "aead_tag [] (chachaNonce []) [] []"] show ?thesis by auto
qed

end
