(* ===== verification/Packets.thy ===== *)
theory Packets
  imports Varint Chacha
begin

text \<open>
  QUIC packets, \<open>src/go/http3/internal/quic/packet.go\<close>, with the key schedule of \<open>crypto.go\<close> and the
  assembly of a packet in \<open>sealPlan\<close> of \<open>send.go\<close>: parsing headers, packet numbers, header and packet
  protection, version negotiation and stateless resets. HKDF, HMAC, AES and randomness are not part
  of the program: they are arguments of the definitions that use them.
\<close>

section \<open>Headers\<close>

definition Version1 :: u32 where "Version1 = 1"

definition packetInitial :: nat where "packetInitial = 0"
definition packet0RTT :: nat where "packet0RTT = 1"
definition packetHandshake :: nat where "packetHandshake = 2"
definition packetRetry :: nat where "packetRetry = 3"
definition packet1RTT :: nat where "packet1RTT = 4"

definition cidLen :: nat where "cidLen = 8"
definition maxCIDLen :: nat where "maxCIDLen = 20"
definition minInitialDatagram :: nat where "minInitialDatagram = 1200"
definition aeadOverhead :: nat where "aeadOverhead = 16"
definition statelessResetTokenLen :: nat where "statelessResetTokenLen = 16"

datatype packet_error = errBadPacket | errUnknownVersion | errDecryptionFails

record pkt_header =
  htyp :: nat
  hversion :: u32
  dcid :: bytes
  scid :: bytes
  htoken :: bytes
  pnOffset :: nat
  hend :: nat

definition no_header :: pkt_header where
  "no_header = \<lparr>htyp = 0, hversion = 0, dcid = [], scid = [], htoken = [], pnOffset = 0, hend = 0\<rparr>"

text \<open>\<open>binary.BigEndian\<close> for 32-bit values.\<close>

definition BigEndian_Uint32 :: "bytes \<Rightarrow> u32" where
  "BigEndian_Uint32 b = foldl (\<lambda>v x. push_bit 8 v OR ucast x) 0 (take 4 b)"

definition AppendUint32 :: "bytes \<Rightarrow> u32 \<Rightarrow> bytes" where
  "AppendUint32 b v =
     b @ [ucast (drop_bit 24 v), ucast (drop_bit 16 v), ucast (drop_bit 8 v), ucast v]"

text \<open>The length field that ends a long header, from position \<open>p\<close> on.\<close>

definition parse_length :: "bytes \<Rightarrow> nat \<Rightarrow> pkt_header \<Rightarrow> pkt_header \<times> packet_error option" where
  "parse_length b p h =
     (let (len, l) = ReadVarint (drop p b) in
      if l = 0 then (h, Some errBadPacket)
      else
        (let p = p + l in
         if length b - p < unat len then (h, Some errBadPacket)
         else (h\<lparr>pnOffset := p, hend := p + unat len\<rparr>, None)))"

text \<open>A long header of version 1 from the packet type on.\<close>

definition parse_long :: "bytes \<Rightarrow> nat \<Rightarrow> pkt_header \<Rightarrow> pkt_header \<times> packet_error option" where
  "parse_long b p h =
     (if hd b AND 0x40 = 0 then (h, Some errBadPacket)
      else
        (let t = unat (drop_bit 4 (hd b) AND 3); h = h\<lparr>htyp := t\<rparr> in
         if t = packetRetry then (h\<lparr>htoken := drop p b, hend := length b\<rparr>, None)
         else if t = packetInitial then
           (let (n, l) = ReadVarint (drop p b) in
            if l = 0 \<or> length b - p - l < unat n then (h, Some errBadPacket)
            else parse_length b (p + l + unat n) (h\<lparr>htoken := subslice (p + l) (p + l + unat n) b\<rparr>))
         else parse_length b p h))"

definition parseHeader :: "bytes \<Rightarrow> nat \<Rightarrow> pkt_header \<times> packet_error option" where
  "parseHeader b shortDCIDLen =
     (let h = no_header in
      if b = [] then (h, Some errBadPacket)
      else if hd b AND 0x80 = 0 then
        (if length b < 1 + shortDCIDLen then (h, Some errBadPacket)
         else (h\<lparr>htyp := packet1RTT, dcid := subslice 1 (1 + shortDCIDLen) b,
                 pnOffset := 1 + shortDCIDLen, hend := length b\<rparr>, None))
      else if length b < 7 then (h, Some errBadPacket)
      else
        (let h = h\<lparr>hversion := BigEndian_Uint32 (drop 1 b)\<rparr>; dl = unat (b ! 5); p = 6 in
         if (dl > maxCIDLen \<and> hversion h = Version1) \<or> length b < p + dl + 1 then (h, Some errBadPacket)
         else
           (let h = h\<lparr>dcid := subslice p (p + dl) b\<rparr>; p = p + dl; sl = unat (b ! p); p = p + 1 in
            if (sl > maxCIDLen \<and> hversion h = Version1) \<or> length b < p + sl then (h, Some errBadPacket)
            else
              (let h = h\<lparr>scid := subslice p (p + sl) b\<rparr>; p = p + sl in
               if hversion h \<noteq> Version1 then (h, Some errUnknownVersion)
               else parse_long b p h))))"

section \<open>Packet numbers\<close>

definition pnLen :: "u64 \<Rightarrow> int \<Rightarrow> nat" where
  "pnLen pn largestAcked =
     (let unacked = (if largestAcked < 0 then pn + 1 else pn - word_of_int largestAcked) in
      if unacked < 2 ^ 7 then 1 else if unacked < 2 ^ 15 then 2 else if unacked < 2 ^ 23 then 3 else 4)"

definition decodePN :: "int \<Rightarrow> u64 \<Rightarrow> nat \<Rightarrow> u64" where
  "decodePN largest truncated n =
     (let expected = word_of_int (largest + 1);
          win = push_bit (8 * n) 1;
          hwin = win div 2;
          msk = win - 1;
          candidate = (expected AND NOT msk) OR truncated
      in if candidate + hwin \<le> expected \<and> candidate < 2 ^ 62 - win then candidate + win
         else if candidate > expected + hwin \<and> candidate \<ge> win then candidate - win
         else candidate)"

section \<open>Keys\<close>

text \<open>
  \<open>keys\<close> carries the cipher's operations: sealing and opening under a nonce and additional data, and
  the header protection mask of a sample. \<open>crypto\<close> collects the primitives the program only calls:
  HKDF, the AES-GCM mode and the AES block cipher, HMAC. The two hashes are told apart by a flag.
\<close>

datatype suite = AES_128_GCM_SHA256 | AES_256_GCM_SHA384 | CHACHA20_POLY1305_SHA256

record crypto =
  hkdf_Extract :: "bytes \<Rightarrow> bytes \<Rightarrow> bytes"
  hkdf_Expand :: "bool \<Rightarrow> bytes \<Rightarrow> bytes \<Rightarrow> nat \<Rightarrow> bytes"
  gcm_Seal :: "bytes \<Rightarrow> bytes \<Rightarrow> bytes \<Rightarrow> bytes \<Rightarrow> bytes"
  gcm_Open :: "bytes \<Rightarrow> bytes \<Rightarrow> bytes \<Rightarrow> bytes \<Rightarrow> bytes option"
  aes_Encrypt :: "bytes \<Rightarrow> bytes \<Rightarrow> bytes"
  hmac_SHA256 :: "bytes \<Rightarrow> bytes \<Rightarrow> bytes"

record keys =
  k_suite :: suite
  k_secret :: bytes
  k_Seal :: "bytes \<Rightarrow> bytes \<Rightarrow> bytes \<Rightarrow> bytes"
  k_Open :: "bytes \<Rightarrow> bytes \<Rightarrow> bytes \<Rightarrow> bytes option"
  k_iv :: bytes
  k_mask :: "bytes \<Rightarrow> bytes"

definition initialSalt :: bytes where
  "initialSalt =
     [0x38, 0x76, 0x2c, 0xf7, 0xf5, 0x59, 0x34, 0xb3, 0x4d, 0x17,
      0x9a, 0xe6, 0xa4, 0xc8, 0x0c, 0xad, 0xcc, 0xbb, 0x7f, 0x0a]"

definition suiteKeyLen :: "suite \<Rightarrow> nat" where
  "suiteKeyLen s = (if s = AES_128_GCM_SHA256 then 16 else 32)"

definition suite384 :: "suite \<Rightarrow> bool" where
  "suite384 s \<longleftrightarrow> s = AES_256_GCM_SHA384"

definition ascii :: "string \<Rightarrow> bytes" where
  "ascii s = map of_char s"

definition expandLabel :: "crypto \<Rightarrow> bool \<Rightarrow> bytes \<Rightarrow> string \<Rightarrow> nat \<Rightarrow> bytes" where
  "expandLabel cr h secret label len =
     hkdf_Expand cr h secret
       ([of_nat (len div 256), of_nat len] @ [of_nat (6 + length label)] @ ascii ''tls13 '' @ ascii label @ [0]) len"

definition aes_mask :: "crypto \<Rightarrow> bytes \<Rightarrow> bytes \<Rightarrow> bytes" where
  "aes_mask cr key sample = take 5 (aes_Encrypt cr key (take 16 sample))"

definition chacha_mask :: "u32 list \<Rightarrow> bytes \<Rightarrow> bytes" where
  "chacha_mask key sample =
     take 5 (chachaBlock key (Uint32 sample) (chachaNonce (subslice 4 16 sample)))"

definition newKeys :: "crypto \<Rightarrow> suite \<Rightarrow> bytes \<Rightarrow> keys" where
  "newKeys cr s secret =
     (let h = suite384 s; keyLen = suiteKeyLen s;
          key = expandLabel cr h secret ''quic key'' keyLen;
          iv = expandLabel cr h secret ''quic iv'' 12;
          hpKey = expandLabel cr h secret ''quic hp'' keyLen;
          cc = (s = CHACHA20_POLY1305_SHA256)
      in \<lparr>k_suite = s, k_secret = secret,
          k_Seal = (if cc then chacha_Seal (chachaKey key) else gcm_Seal cr key),
          k_Open = (if cc then chacha_Open (chachaKey key) else gcm_Open cr key),
          k_iv = iv,
          k_mask = (if cc then chacha_mask (chachaKey hpKey) else aes_mask cr hpKey)\<rparr>)"

text \<open>\<open>next\<close>: the keys of the following phase.\<close>

definition keys_next :: "crypto \<Rightarrow> keys \<Rightarrow> keys" where
  "keys_next cr k =
     (let h = suite384 (k_suite k);
          secret = expandLabel cr h (k_secret k) ''quic ku'' (if h then 48 else 32)
      in (newKeys cr (k_suite k) secret)\<lparr>k_mask := k_mask k\<rparr>)"

definition nonce :: "keys \<Rightarrow> u64 \<Rightarrow> bytes" where
  "nonce k pn =
     take 4 (k_iv k) @
     map (\<lambda>i. (k_iv k ! (11 - i)) XOR ucast (drop_bit (8 * i) pn)) (rev [0 ..< 8])"

definition initialKeys :: "crypto \<Rightarrow> bytes \<Rightarrow> bool \<Rightarrow> keys \<times> keys" where
  "initialKeys cr cid isClient =
     (let initial = hkdf_Extract cr cid initialSalt;
          ck = newKeys cr AES_128_GCM_SHA256 (expandLabel cr False initial ''client in'' 32);
          sk = newKeys cr AES_128_GCM_SHA256 (expandLabel cr False initial ''server in'' 32)
      in if isClient then (ck, sk) else (sk, ck))"

section \<open>Protection\<close>

text \<open>XOR the mask into the first byte and the packet number of length \<open>n\<close> at \<open>off\<close>.\<close>

definition mask_first :: "bytes \<Rightarrow> bytes \<Rightarrow> bytes" where
  "mask_first mk pkt =
     pkt[0 := pkt ! 0 XOR (mk ! 0 AND (if pkt ! 0 AND 0x80 \<noteq> 0 then 0x0f else 0x1f))]"

definition mask_pn :: "bytes \<Rightarrow> nat \<Rightarrow> nat \<Rightarrow> bytes \<Rightarrow> bytes" where
  "mask_pn mk off n pkt = fold (\<lambda>i p. p[off + i := p ! (off + i) XOR mk ! (1 + i)]) [0 ..< n] pkt"

definition unprotect :: "bytes \<Rightarrow> nat \<Rightarrow> (bytes \<Rightarrow> bytes) \<Rightarrow> int \<Rightarrow> ((u64 \<times> nat) \<times> bytes) option" where
  "unprotect pkt off hp largest =
     (if length pkt < off + 4 + 16 then None
      else
        (let mk = hp (subslice (off + 4) (off + 20) pkt);
             pkt = mask_first mk pkt;
             n = unat (pkt ! 0 AND 3) + 1;
             pkt = mask_pn mk off n pkt;
             truncated = foldl (\<lambda>v x. push_bit 8 v OR ucast x) 0 (subslice off (off + n) pkt)
         in Some ((decodePN largest truncated n, n), pkt)))"

definition keys_seal :: "keys \<Rightarrow> bytes \<Rightarrow> nat \<Rightarrow> nat \<Rightarrow> u64 \<Rightarrow> bytes" where
  "keys_seal k pkt off n pn =
     (let hdr = take (off + n) pkt; payload = drop (off + n) pkt;
          pkt = hdr @ k_Seal k (nonce k pn) payload hdr;
          mk = k_mask k (subslice (off + 4) (off + 20) pkt)
      in mask_pn mk off n (mask_first mk pkt))"

definition keys_open :: "keys \<Rightarrow> bytes \<Rightarrow> nat \<Rightarrow> u64 \<Rightarrow> packet_error + bytes" where
  "keys_open k pkt hdrEnd pn =
     (case k_Open k (nonce k pn) (drop hdrEnd pkt) (take hdrEnd pkt) of
        None \<Rightarrow> Inl errDecryptionFails
      | Some payload \<Rightarrow> Inr payload)"

text \<open>The header \<open>sealPlan\<close> writes, and the packet number behind it.\<close>

datatype space = spaceInitial | spaceHandshake | spaceApp

definition append_pn :: "u64 \<Rightarrow> nat \<Rightarrow> bytes" where
  "append_pn pn n = map (\<lambda>i. ucast (drop_bit (8 * i) pn)) (rev [0 ..< n])"

definition plan_header :: "bytes \<Rightarrow> bytes \<Rightarrow> bytes \<Rightarrow> bool \<Rightarrow> space \<Rightarrow> nat \<Rightarrow> nat \<Rightarrow> bytes" where
  "plan_header dst src tok keyPhase sp n payloadLen =
     (case sp of
        spaceApp \<Rightarrow> [(0x40 OR of_nat (n - 1)) OR (if keyPhase then 0x04 else 0)] @ dst
      | _ \<Rightarrow>
          (let t = (if sp = spaceHandshake then packetHandshake else packetInitial);
               out = [0xc0 OR push_bit 4 (of_nat t) OR of_nat (n - 1)];
               out = AppendUint32 out Version1;
               out = out @ [of_nat (length dst)] @ dst @ [of_nat (length src)] @ src;
               out = (if sp = spaceInitial then AppendVarint out (of_nat (length tok)) @ tok else out)
           in appendVarint2 out (of_nat (n + payloadLen + aeadOverhead))))"

definition sealPlan :: "keys \<Rightarrow> bytes \<Rightarrow> bytes \<Rightarrow> bytes \<Rightarrow> bool \<Rightarrow> space \<Rightarrow> u64 \<Rightarrow> nat \<Rightarrow> bytes \<Rightarrow> bytes" where
  "sealPlan tx dst src tok keyPhase sp pn n payload =
     (let hdr = plan_header dst src tok keyPhase sp n (length payload)
      in keys_seal tx (hdr @ append_pn pn n @ payload) (length hdr) n pn)"

section \<open>Answers that need no connection\<close>

definition IsInitial :: "bytes \<Rightarrow> bool" where
  "IsInitial datagram =
     (if length datagram < minInitialDatagram then False
      else (case parseHeader datagram 0 of (h, err) \<Rightarrow> err = None \<and> htyp h = packetInitial))"

text \<open>\<open>r\<close> is the random byte the answer starts with.\<close>

definition VersionNegotiation :: "byte \<Rightarrow> bytes \<Rightarrow> bytes option" where
  "VersionNegotiation r datagram =
     (case parseHeader datagram 0 of
        (h, err) \<Rightarrow>
          (if err \<noteq> Some errUnknownVersion \<or> hversion h = 0 \<or> length datagram < minInitialDatagram then None
           else
             Some (AppendUint32 (AppendUint32
               ([0x80 OR r] @ [0, 0, 0, 0] @ [of_nat (length (scid h))] @ scid h @
                [of_nat (length (dcid h))] @ dcid h) Version1) 0x1a2a3a4a)))"

definition reset_token :: "crypto \<Rightarrow> bytes \<Rightarrow> bytes \<Rightarrow> bytes" where
  "reset_token cr key cid = take statelessResetTokenLen (hmac_SHA256 cr key cid)"

definition StatelessReset :: "crypto \<Rightarrow> bytes \<Rightarrow> bytes \<Rightarrow> bytes \<Rightarrow> bytes option" where
  "StatelessReset cr key random datagram =
     (if length datagram < 1 + cidLen + 21 \<or> datagram ! 0 AND 0x80 \<noteq> 0 then None
      else
        (let size = min (length datagram - 1) 64;
             out = take (size - statelessResetTokenLen) random;
             out = out[0 := (out ! 0 AND 0x3f) OR 0x40]
         in Some (out @ reset_token cr key (subslice 1 (1 + cidLen) datagram))))"

section \<open>Headers stay within the datagram\<close>

lemma ReadVarint_within: "ReadVarint b = (v, n) \<Longrightarrow> n \<noteq> 0 \<Longrightarrow> 0 < n \<and> n \<le> length b"
  using ReadVarint_bounds [of b v n] by auto

lemma parse_length_bounds:
  assumes "parse_length b p h = (h', None)"
  shows "p < pnOffset h'" "pnOffset h' \<le> hend h'" "hend h' \<le> length b"
    "h' = h\<lparr>pnOffset := pnOffset h', hend := hend h'\<rparr>"
proof -
  obtain v n where r: "ReadVarint (drop p b) = (v, n)" by fastforce
  with assms have n: "n \<noteq> 0" and e: "unat v \<le> length b - (p + n)"
    and h: "h' = h\<lparr>pnOffset := p + n, hend := p + n + unat v\<rparr>"
    by (auto simp: parse_length_def Let_def split: if_splits)
  have "0 < n" "n \<le> length b - p" using ReadVarint_within [OF r n] by simp_all
  then show "p < pnOffset h'" "pnOffset h' \<le> hend h'" "hend h' \<le> length b"
    "h' = h\<lparr>pnOffset := pnOffset h', hend := hend h'\<rparr>"
    using h e by auto
qed

lemma parse_long_bounds:
  assumes "parse_long b p h = (h', None)" "p \<le> length b"
  shows "hend h' \<le> length b" "htyp h' \<noteq> packetRetry \<Longrightarrow> p < pnOffset h' \<and> pnOffset h' \<le> hend h'"
    "htyp h' = packetRetry \<Longrightarrow> hend h' = length b"
    "htyp h' \<le> 3" "dcid h' = dcid h" "scid h' = scid h" "hversion h' = hversion h"
proof -
  let ?t = "unat (drop_bit 4 (hd b) AND 3)"
  have "?t \<le> unat (3 :: byte)" using word_and_le1 [of "drop_bit 4 (hd b)" 3] by (simp only: word_le_nat_alt)
  then have t3: "?t \<le> 3" by simp
  obtain v n where r: "ReadVarint (drop p b) = (v, n)" by fastforce
  consider (retry) "?t = packetRetry" "h' = h\<lparr>htyp := ?t, htoken := drop p b, hend := length b\<rparr>"
    | (initial) "?t = packetInitial" "n \<noteq> 0"
        "parse_length b (p + n + unat v) (h\<lparr>htyp := ?t, htoken := subslice (p + n) (p + n + unat v) b\<rparr>) = (h', None)"
    | (other) "?t \<noteq> packetRetry" "parse_length b p (h\<lparr>htyp := ?t\<rparr>) = (h', None)"
    using assms(1) by (auto simp: parse_long_def r Let_def packetRetry_def packetInitial_def split: if_splits)
  then have "hend h' \<le> length b \<and> (htyp h' \<noteq> packetRetry \<longrightarrow> p < pnOffset h' \<and> pnOffset h' \<le> hend h') \<and>
    (htyp h' = packetRetry \<longrightarrow> hend h' = length b) \<and>
    htyp h' \<le> 3 \<and> dcid h' = dcid h \<and> scid h' = scid h \<and> hversion h' = hversion h"
  proof cases
    case retry
    then show ?thesis using t3 by auto
  next
    case initial
    note P = parse_length_bounds [OF initial(3)]
    have "htyp h' = ?t" "dcid h' = dcid h" "scid h' = scid h" "hversion h' = hversion h"
      by (subst P(4); simp)+
    then show ?thesis using P(1-3) t3 initial(1) by (simp add: packetInitial_def packetRetry_def)
  next
    case other
    note P = parse_length_bounds [OF other(2)]
    have "htyp h' = ?t" "dcid h' = dcid h" "scid h' = scid h" "hversion h' = hversion h"
      by (subst P(4); simp)+
    then show ?thesis using P(1-3) t3 other(1) by simp
  qed
  then show "hend h' \<le> length b" "htyp h' \<noteq> packetRetry \<Longrightarrow> p < pnOffset h' \<and> pnOffset h' \<le> hend h'"
    "htyp h' = packetRetry \<Longrightarrow> hend h' = length b"
    "htyp h' \<le> 3" "dcid h' = dcid h" "scid h' = scid h" "hversion h' = hversion h" by blast+
qed

text \<open>
  What \<open>parseHeader\<close> does with a long header: the two connection IDs are cut out, then the rest
  depends on the version.
\<close>

lemma parse_long_header:
  assumes "b \<noteq> []" "hd b AND 0x80 \<noteq> 0" "7 \<le> length b"
  defines "v \<equiv> BigEndian_Uint32 (drop 1 b)" and "dl \<equiv> unat (b ! 5)" and "sl \<equiv> unat (b ! (6 + unat (b ! 5)))"
  defines "hdr \<equiv> no_header\<lparr>hversion := v, dcid := subslice 6 (6 + dl) b, scid := subslice (7 + dl) (7 + dl + sl) b\<rparr>"
  assumes "v = Version1 \<Longrightarrow> dl \<le> maxCIDLen \<and> sl \<le> maxCIDLen" "7 + dl + sl \<le> length b"
  shows "parseHeader b n = (if v \<noteq> Version1 then (hdr, Some errUnknownVersion) else parse_long b (7 + dl + sl) hdr)"
  using assms by (auto simp: parseHeader_def Let_def h0_def v_def dl_def sl_def)

lemma parse_header_cases:
  assumes "parseHeader b n = (h, None)"
  obtains (short) "hd b AND 0x80 = 0" "1 + n \<le> length b"
      "h = no_header\<lparr>htyp := packet1RTT, dcid := subslice 1 (1 + n) b, pnOffset := 1 + n, hend := length b\<rparr>"
  | (long) p hdr where "parse_long b p hdr = (h, None)" "7 \<le> p" "p \<le> length b" "hversion hdr = Version1"
      "length (dcid hdr) \<le> maxCIDLen" "length (scid hdr) \<le> maxCIDLen"
proof (cases "hd b AND 0x80 = 0")
  case True
  with assms show ?thesis by (intro short) (auto simp: parseHeader_def Let_def split: if_splits)
next
  case False
  let ?dl = "unat (b ! 5)" and ?sl = "unat (b ! (6 + unat (b ! 5)))"
  let ?hdr = "no_header\<lparr>hversion := BigEndian_Uint32 (drop 1 b), dcid := subslice 6 (6 + ?dl) b,
    scid := subslice (7 + ?dl) (7 + ?dl + ?sl) b\<rparr>"
  have *: "b \<noteq> []" "7 \<le> length b" "BigEndian_Uint32 (drop 1 b) = Version1" "?dl \<le> maxCIDLen" "?sl \<le> maxCIDLen"
    "7 + ?dl + ?sl \<le> length b"
    using assms False by (auto simp: parseHeader_def Let_def split: if_splits)
  have "parse_long b (7 + ?dl + ?sl) ?hdr = (h, None)"
    using assms parse_long_header [of b n] False * by simp
  then show ?thesis using * by (intro long [of "7 + ?dl + ?sl" ?hdr]) simp_all
qed

lemma parseHeader_bounds:
  assumes "parseHeader b n = (h, None)"
  shows "0 < hend h \<and> hend h \<le> length b \<and>
    (htyp h \<noteq> packetRetry \<longrightarrow> 0 < pnOffset h \<and> pnOffset h \<le> hend h) \<and>
    (if htyp h = packet1RTT then length (dcid h) = n
     else htyp h \<le> 3 \<and> length (dcid h) \<le> maxCIDLen \<and> length (scid h) \<le> maxCIDLen)"
  using assms
proof (cases rule: parse_header_cases)
  case short
  then show ?thesis by (cases b) (simp_all add: packetRetry_def packet1RTT_def)
next
  case (long p hdr)
  note P = parse_long_bounds [OF long(1,3)]
  have "htyp h \<noteq> packet1RTT" using P(4) by (simp add: packet1RTT_def)
  moreover have "0 < hend h" using P(2,3) long(2,3) by (cases "htyp h = packetRetry") auto
  ultimately show ?thesis using P long(5,6) by auto
qed

text \<open>
  C31. A header that parses lies within the datagram: the packet ends inside it and after at least
  one byte, the packet number starts before the end, and the connection IDs have the lengths version
  1 allows or, for a short header, the length the caller gave. So cutting the packet and its packet
  number out of the datagram, and going on behind it, cannot go out of range or stand still.
\<close>

theorem parsed_header_in_bounds:
  assumes "parseHeader b n = (h, None)"
  shows "0 < hend h \<and> hend h \<le> length b \<and>
    (htyp h \<noteq> packetRetry \<longrightarrow> 0 < pnOffset h \<and> pnOffset h \<le> hend h) \<and>
    (if htyp h = packet1RTT then length (dcid h) = n
     else htyp h \<le> 3 \<and> length (dcid h) \<le> maxCIDLen \<and> length (scid h) \<le> maxCIDLen)"
  using parseHeader_bounds [OF assms] .

theorem parsed_header_in_bounds_witness:
  "hend (fst (parseHeader [0x40, 1, 2, 3] 2)) = 4 \<and> pnOffset (fst (parseHeader [0x40, 1, 2, 3] 2)) \<le> 4"
proof -
  have p: "parseHeader [0x40, 1, 2, 3] 2 = (no_header\<lparr>htyp := packet1RTT, dcid := [1, 2], pnOffset := 3, hend := 4\<rparr>, None)"
    by (simp add: parseHeader_def subslice_def)
  show ?thesis using parsed_header_in_bounds [OF p] by (simp add: p packetRetry_def packet1RTT_def)
qed

section \<open>Packet numbers\<close>

lemma and_mask_parts:
  "unat (x AND mask n) = unat x mod 2 ^ n" "unat (x AND NOT (mask n)) = unat x div 2 ^ n * 2 ^ n" for x :: u64
proof -
  show low: "unat (x AND mask n) = unat x mod 2 ^ n"
    unfolding take_bit_eq_mask [symmetric] unsigned_take_bit_eq by (rule take_bit_eq_mod)
  have "x AND mask n OR x AND NOT (mask n) = x" by (simp flip: bit.conj_disj_distrib)
  moreover have "(x AND mask n) AND (x AND NOT (mask n)) = 0"
    by (rule bit_word_eqI) (simp add: bit_simps)
  ultimately have "unat (x AND mask n) OR unat (x AND NOT (mask n)) = unat x"
    "unat (x AND mask n) AND unat (x AND NOT (mask n)) = 0"
    by (metis unsigned_or_eq, metis unsigned_and_eq unsigned_0)
  then have "unat x = unat (x AND mask n) + unat (x AND NOT (mask n))" by (simp add: disjunctive_add_eq_or)
  then show "unat (x AND NOT (mask n)) = unat x div 2 ^ n * 2 ^ n"
    using low by (metis add_left_imp_eq div_mult_mod_eq add.commute)
qed

lemma or_low:
  fixes x t :: u64
  assumes "unat t < 2 ^ n"
  shows "unat ((x AND NOT (mask n)) OR t) = unat x div 2 ^ n * 2 ^ n + unat t"
proof -
  have "unat (t AND mask n) = unat t" using assms by (simp add: and_mask_parts(1))
  then have t: "t AND mask n = t" by (rule unsigned_word_eqI)
  have "(x AND NOT (mask n)) AND (t AND mask n) = 0" by (rule bit_word_eqI) (auto simp: bit_simps)
  then have "unat (x AND NOT (mask n)) AND unat t = 0" unfolding t by (metis unsigned_and_eq unsigned_0)
  then show ?thesis by (simp only: unsigned_or_eq and_mask_parts(2) disjunctive_add_eq_or)
qed

lemma int_less_pow: "int k < 2 ^ m \<longleftrightarrow> k < 2 ^ m"
  by (metis of_nat_less_iff of_nat_numeral of_nat_power)

lemma unat_word_of_int: "0 \<le> k \<Longrightarrow> k < 2 ^ 64 \<Longrightarrow> unat (word_of_int k :: u64) = nat k"
  by (simp add: unsigned_of_int take_bit_int_eq_self)

text \<open>\<open>decodePN\<close> on natural numbers, for the four lengths a packet number can have.\<close>

lemma decodePN_nat:
  assumes n: "n \<in> {1, 2, 3, 4}" and l: "-1 \<le> largest" "largest < 2 ^ 62" and t: "unat t < 2 ^ (8 * n)"
  defines "w \<equiv> 2 ^ (8 * n) :: nat" and "e \<equiv> nat (largest + 1)"
  defines "c \<equiv> e div w * w + unat t"
  shows "unat (decodePN largest t n) =
    (if c + w div 2 \<le> e \<and> c < 2 ^ 62 - w then c + w else if c > e + w div 2 \<and> c \<ge> w then c - w else c)"
proof -
  let ?x = "word_of_int (largest + 1) :: u64"
  have ln: "8 * n < 64" "8 * n \<le> 32" "0 < 8 * n" using n by auto
  have w: "w \<le> 2 ^ 32" using ln(2) unfolding w_def by (rule power_increasing) simp
  have "e \<le> 2 ^ 62" using l by (simp add: e_def)
  moreover have "unat ?x = e"
    unfolding e_def by (rule unat_word_of_int) (use l in simp_all)
  ultimately have e: "unat ?x = e" "e \<le> 2 ^ 62" by simp_all
  have "?x AND NOT (2 ^ (8 * n) - 1) OR t = ?x AND NOT (mask (8 * n)) OR t" by (simp add: mask_eq_exp_minus_1)
  then have c: "unat (?x AND NOT (2 ^ (8 * n) - 1) OR t) = c"
    using or_low [OF t, of ?x] e(1) by (simp only: c_def w_def)
  have "c < e + w" using t unfolding c_def w_def [symmetric] by (metis add_less_le_mono add.commute div_times_less_eq_dividend)
  then have cb: "c < 2 ^ 62 + 2 ^ 32" using e(2) w by simp
  have uw: "unat (2 ^ (8 * n) :: u64) = w" unfolding w_def by (rule unat_exp) (use ln(1) in simp)
  have uh: "unat (2 ^ (8 * n) div 2 :: u64) = w div 2" using uw by (simp add: unat_div)
  note U = uw uh c e(1)
  have sums: "unat (a + b) = unat a + unat b" if "unat a + unat b < 2 ^ 64" for a b :: u64
    using that by (simp add: unat_word_ariths)
  define cw where "cw = ?x AND NOT (2 ^ (8 * n) - 1) OR t"
  define ww where "ww = (2 ^ (8 * n) :: u64)"
  have D: "decodePN largest t n =
      (if cw + ww div 2 \<le> ?x \<and> cw < 2 ^ 62 - ww then cw + ww
       else if cw > ?x + ww div 2 \<and> cw \<ge> ww then cw - ww else cw)"
    by (simp add: decodePN_def cw_def ww_def Let_def push_bit_eq_mult)
  have u: "unat cw = c" "unat ww = w" "unat (ww div 2) = w div 2" using U by (simp_all add: cw_def ww_def)
  have s1: "unat (cw + ww div 2) = c + w div 2" "unat (?x + ww div 2) = e + w div 2" "unat (cw + ww) = c + w"
    using u e cb w by (subst sums; simp)+
  have s2: "unat (2 ^ 62 - ww) = 2 ^ 62 - w" using u(2) w by (subst unat_sub) (simp_all add: word_le_nat_alt)
  have s3: "unat (cw - ww) = c - w" if "ww \<le> cw" using unat_sub [OF that] u by simp
  show ?thesis unfolding D using s1 s2 s3 u e(1)
    by (auto simp: word_le_nat_alt word_less_nat_alt)
qed

lemma window_decode:
  fixes w h e p c m :: nat
  assumes w: "w = 2 * h" "0 < h" and c: "c = e div w * w + p mod w"
    and near: "p < e + h" "e < p + h" and m: "p < m" "w \<le> m"
  shows "(if c + h \<le> e \<and> c < m - w then c + w else if c > e + h \<and> c \<ge> w then c - w else c) = p"
proof -
  let ?j = "e div w" and ?k = "p div w"
  have "0 < w" using w by simp
  then have e: "e = ?j * w + e mod w" "e mod w < w" and p: "p = ?k * w + p mod w" "p mod w < w" by simp_all
  have mono: "a * w + w \<le> b * w" if "a < b" for a b using mult_le_mono1 [of "a + 1" b w] that by simp
  consider "?k = ?j" | "?k = ?j + 1" | "?j = ?k + 1" | "?j + 1 < ?k" | "?k + 1 < ?j" by linarith
  then show ?thesis
  proof cases
    case 1
    then have "c = p" using c p(1) by simp
    then show ?thesis using near by simp
  next
    case 2
    then have "p = c + w" using c p(1) by simp
    then show ?thesis using near w m by auto
  next
    case 3
    then have "c = p + w" using c p(1) by simp
    then show ?thesis using near w m by auto
  next
    case 4
    then have "?j * w + w + w \<le> ?k * w" using mono [of "?j + 1" ?k] by simp
    then show ?thesis using e p near w by linarith
  next
    case 5
    then have "?k * w + w + w \<le> ?j * w" using mono [of "?k + 1" ?j] by simp
    then show ?thesis using e p near w by linarith
  qed
qed

text \<open>
  C30. Packet numbers survive truncation: a packet number written with the length \<open>pnLen\<close> chose for
  the largest acknowledged one is recovered by \<open>decodePN\<close> at a receiver that has seen at least what
  was acknowledged and has not run ahead of the packet by half a window.
\<close>

theorem packet_number_roundtrip:
  fixes pn :: u64 and acked largest :: int
  defines "n \<equiv> pnLen pn acked"
  assumes "pn < 2 ^ 62" "-1 \<le> acked" "acked \<le> largest" "largest < 2 ^ 62"
    and "int (unat pn) - acked < 2 ^ 31" "acked < int (unat pn)"
    and "largest + 1 < int (unat pn) + 2 ^ (8 * n - 1)"
  shows "decodePN largest (take_bit (8 * n) pn) n = pn"
proof -
  have pn: "unat pn < 2 ^ 62" using assms(2) by (simp add: word_less_nat_alt)
  let ?u = "if acked < 0 then pn + 1 else pn - word_of_int acked"
  have u: "int (unat ?u) = int (unat pn) - acked"
  proof (cases "acked < 0")
    case True
    then have "unat ?u = unat pn + 1" using pn by (simp add: unat_word_ariths)
    then show ?thesis using True assms(3) by linarith
  next
    case False
    have a: "unat (word_of_int acked :: u64) = nat acked"
      using False assms(4,5) by (intro unat_word_of_int) simp_all
    have le: "nat acked \<le> unat pn" using assms(7) by linarith
    then have "(word_of_int acked :: u64) \<le> pn" using a by (simp only: word_le_nat_alt)
    from unat_sub [OF this] have "unat ?u = unat pn - nat acked" using False a by simp
    then show ?thesis using False le by linarith
  qed
  have "int (unat ?u) < 2 ^ 31" unfolding u by (rule assms(6))
  then have "unat ?u < 2 ^ 31" by (simp only: int_less_pow)
  moreover have "n = (if unat ?u < 2 ^ 7 then 1 else if unat ?u < 2 ^ 15 then 2 else if unat ?u < 2 ^ 23 then 3 else 4)"
    unfolding n_def pnLen_def Let_def by (simp add: word_less_nat_alt)
  ultimately have n: "n \<in> {1, 2, 3, 4}" and "unat ?u < 2 ^ (8 * n - 1)" by auto
  then have "int (unat ?u) < 2 ^ (8 * n - 1)" by (simp only: int_less_pow)
  then have win: "int (unat pn) - acked < 2 ^ (8 * n - 1)" unfolding u .
  let ?t = "take_bit (8 * n) pn"
  have t: "unat ?t = unat pn mod 2 ^ (8 * n)" by (subst unsigned_take_bit_eq) (rule take_bit_eq_mod)
  then have lt: "unat ?t < 2 ^ (8 * n)" by simp
  define e where "e = nat (largest + 1)"
  have e: "int e = largest + 1" using assms(3,4) by (simp add: e_def)
  have near: "unat pn < e + 2 ^ (8 * n - 1)" "e < unat pn + 2 ^ (8 * n - 1)"
  proof -
    have "int (unat pn) < int e + int (2 ^ (8 * n - 1))" "int e < int (unat pn) + int (2 ^ (8 * n - 1))"
      using e win assms(4,8) by simp_all
    then show "unat pn < e + 2 ^ (8 * n - 1)" "e < unat pn + 2 ^ (8 * n - 1)" by linarith+
  qed
  have l: "-1 \<le> largest" using assms(3,4) by simp
  have h: "2 ^ (8 * n) = 2 * (2 ^ (8 * n - 1) :: nat)" "2 ^ (8 * n) div 2 = (2 ^ (8 * n - 1) :: nat)"
    "(2 ^ (8 * n) :: nat) \<le> 2 ^ 62" using n by auto
  have "unat (decodePN largest ?t n) = unat pn"
    unfolding decodePN_nat [OF n l assms(5) lt] t e_def [symmetric] h(2)
    by (rule window_decode [OF h(1) _ refl near pn h(3)]) simp
  then show ?thesis by (rule unsigned_word_eqI)
qed

theorem packet_number_roundtrip_witness:
  "decodePN 0xa82f30ea (take_bit 16 0xa82f9b32) 2 = 0xa82f9b32"
  using packet_number_roundtrip [of "0xa82f9b32" "0xa82f30ea" "0xa82f30ea"]
  by (simp add: pnLen_def take_bit_eq_mod)

section \<open>Header protection\<close>

lemma mask_pn_nth:
  "length (mask_pn mk off n pkt) = length pkt"
  "i < length pkt \<Longrightarrow>
   mask_pn mk off n pkt ! i = (if off \<le> i \<and> i < off + n then pkt ! i XOR mk ! (1 + (i - off)) else pkt ! i)"
proof -
  show len: "length (mask_pn mk off n pkt) = length pkt" for n
    by (induction n) (simp_all add: mask_pn_def)
  show "i < length pkt \<Longrightarrow>
    mask_pn mk off n pkt ! i = (if off \<le> i \<and> i < off + n then pkt ! i XOR mk ! (1 + (i - off)) else pkt ! i)"
  proof (induction n)
    case (Suc n)
    have "mask_pn mk off (Suc n) pkt =
        (mask_pn mk off n pkt)[off + n := mask_pn mk off n pkt ! (off + n) XOR mk ! (1 + n)]"
      by (simp add: mask_pn_def)
    with Suc len [of n] show ?case by (cases "i = off + n") (auto simp: nth_list_update)
  qed (auto simp: mask_pn_def)
qed

lemma mask_pn_twice: "off + n \<le> length pkt \<Longrightarrow> mask_pn mk off n (mask_pn mk off n pkt) = pkt"
  by (rule nth_equalityI) (simp_all add: mask_pn_nth xor.assoc)

lemma mask_first_nth:
  "length (mask_first mk pkt) = length pkt" "0 < i \<Longrightarrow> mask_first mk pkt ! i = pkt ! i"
  by (simp_all add: mask_first_def)

text \<open>The mask leaves the header form, the fixed bit and the packet type alone.\<close>

lemma mask_bits:
  "(x XOR (m AND 0x0f)) AND 0x80 = x AND 0x80" "(x XOR (m AND 0x1f)) AND 0x80 = x AND 0x80"
  "(x XOR (m AND 0x0f)) AND 0x40 = x AND 0x40" "drop_bit 4 (x XOR (m AND 0x0f)) = drop_bit 4 x" for x m :: byte
  by (simp_all add: bit.conj_xor_distrib2 and.assoc drop_bit_xor drop_bit_and)

lemma mask_first_twice: "pkt \<noteq> [] \<Longrightarrow> mask_first mk (mask_first mk pkt) = pkt"
  by (cases pkt) (simp_all add: mask_first_def mask_bits xor.assoc)

lemma mask_commute:
  assumes "0 < off"
  shows "mask_first mk (mask_pn mk off n pkt) = mask_pn mk off n (mask_first mk pkt)"
proof (rule nth_equalityI)
  show "length (mask_first mk (mask_pn mk off n pkt)) = length (mask_pn mk off n (mask_first mk pkt))"
    by (simp add: mask_pn_nth mask_first_nth)
  fix i assume "i < length (mask_first mk (mask_pn mk off n pkt))"
  then have i: "i < length pkt" by (simp add: mask_pn_nth mask_first_nth)
  then have "pkt \<noteq> []" by auto
  show "mask_first mk (mask_pn mk off n pkt) ! i = mask_pn mk off n (mask_first mk pkt) ! i"
  proof (cases "i = 0")
    case True
    with assms i have p0: "mask_pn mk off n q ! 0 = q ! 0" if "length q = length pkt" for q
      using that by (simp add: mask_pn_nth)
    then show ?thesis using True i p0 [of "mask_first mk pkt"] p0 [of pkt] by (simp add: mask_first_def mask_pn_nth)
  next
    case False
    then show ?thesis using i by (simp add: mask_pn_nth mask_first_nth)
  qed
qed

lemma append_pn_Suc: "append_pn pn (Suc n) = ucast (drop_bit (8 * n) pn) # append_pn pn n"
  by (simp add: append_pn_def)

lemma length_append_pn [simp]: "length (append_pn pn n) = n"
  by (simp add: append_pn_def)

lemma append_pn_value:
  "n \<le> 8 \<Longrightarrow> foldl (\<lambda>v x. push_bit 8 v OR ucast x) v (append_pn pn n) = push_bit (8 * n) v OR take_bit (8 * n) pn" for v pn :: u64
proof (induction n arbitrary: v)
  case 0
  then show ?case by (simp add: append_pn_def)
next
  case (Suc n)
  have "push_bit (8 * n) (push_bit 8 v OR ucast (ucast (drop_bit (8 * n) pn) :: byte)) OR take_bit (8 * n) pn =
      push_bit (8 * Suc n) v OR take_bit (8 * Suc n) pn"
    using Suc.prems by (intro bit_word_eqI) (auto simp: bit_simps add.commute)
  with Suc show ?case by (simp add: append_pn_Suc)
qed

lemma sample_same:
  assumes "n \<le> 4"
  shows "subslice (off + 4) e (mask_pn mk off n (mask_first mk pkt)) = subslice (off + 4) e pkt"
proof -
  have "drop (off + 4) (mask_pn mk off n (mask_first mk pkt)) = drop (off + 4) pkt"
    by (rule nth_equalityI) (use assms in \<open>simp_all add: mask_pn_nth mask_first_nth\<close>)
  then show ?thesis by (simp add: subslice_def)
qed

section \<open>Packet protection\<close>

context aead
begin

text \<open>Whatever the cipher, a protected packet is unprotected and opened to what was sealed.\<close>

lemma protect_roundtrip:
  assumes k: "k_Seal k = seal" "k_Open k = unseal" and n: "n \<in> {1, 2, 3, 4}" and hdr: "hdr \<noteq> []"
    and first: "unat (hdr ! 0 AND 3) = n - 1" and size: "4 \<le> n + length payload"
    and pn: "decodePN largest (take_bit (8 * n) pn) n = pn"
  defines "off \<equiv> length hdr" and "pkt \<equiv> hdr @ append_pn pn n @ payload"
  defines "plain \<equiv> hdr @ append_pn pn n @ seal (nonce k pn) payload (hdr @ append_pn pn n)"
  shows "unprotect (keys_seal k pkt off n pn) off (k_mask k) largest = Some ((pn, n), plain)"
    "keys_open k plain (off + n) pn = Inr payload"
    "length (keys_seal k pkt off n pn) = length pkt + 16"
    "\<exists>mk. keys_seal k pkt off n pn = mask_pn mk off n (mask_first mk plain)"
proof -
  have n4: "n \<le> 4" "n \<le> 8" using n by auto
  have split: "take (off + n) pkt = hdr @ append_pn pn n" "drop (off + n) pkt = payload"
    by (simp_all add: pkt_def off_def)
  define mk where "mk = k_mask k (subslice (off + 4) (off + 20) plain)"
  have s: "keys_seal k pkt off n pn = mask_pn mk off n (mask_first mk plain)"
    unfolding keys_seal_def split Let_def k by (simp add: mk_def plain_def)
  then show "\<exists>mk. keys_seal k pkt off n pn = mask_pn mk off n (mask_first mk plain)" by blast
  have len: "length plain = off + n + length payload + 16" by (simp add: plain_def off_def seal_length)
  then show "length (keys_seal k pkt off n pn) = length pkt + 16"
    unfolding s mask_pn_nth mask_first_nth by (simp add: pkt_def off_def)
  have off: "0 < off" using hdr by (simp add: off_def)
  have ne: "plain \<noteq> []" using hdr by (simp add: plain_def)
  let ?x = "mask_pn mk off n (mask_first mk plain)"
  have lx: "\<not> length ?x < off + 4 + 16" using len size by (simp add: mask_pn_nth mask_first_nth)
  have m: "k_mask k (subslice (off + 4) (off + 20) ?x) = mk" unfolding sample_same [OF n4(1)] mk_def by (rule refl)
  have f: "mask_first mk ?x = mask_pn mk off n plain" using mask_commute [OF off] mask_first_twice [OF ne] by simp
  have b0: "mask_pn mk off n plain ! 0 = hdr ! 0"
    using off len hdr by (simp add: mask_pn_nth) (simp add: plain_def nth_append)
  have nn: "unat (mask_pn mk off n plain ! 0 AND 3) + 1 = n" unfolding b0 first using n by auto
  have undo: "mask_pn mk off n (mask_pn mk off n plain) = plain" by (rule mask_pn_twice) (simp add: len)
  have "subslice off (off + n) plain = append_pn pn n" by (simp add: subslice_def plain_def off_def)
  then have tr: "foldl (\<lambda>v x. push_bit 8 v OR ucast x) 0 (subslice off (off + n) plain) = take_bit (8 * n) pn"
    using append_pn_value [OF n4(2), of 0 pn] by simp
  show "unprotect (keys_seal k pkt off n pn) off (k_mask k) largest = Some ((pn, n), plain)"
    unfolding s unprotect_def if_not_P [OF lx] Let_def m f nn undo tr pn by (rule refl)
  have "drop (off + n) plain = seal (nonce k pn) payload (hdr @ append_pn pn n)" "take (off + n) plain = hdr @ append_pn pn n"
    by (simp_all add: plain_def off_def)
  then show "keys_open k plain (off + n) pn = Inr payload"
    using unseal_seal by (simp add: keys_open_def k)
qed

end

section \<open>Whole packets\<close>

lemma ReadVarint_appendVarint2:
  assumes "v < 2 ^ 14"
  shows "ReadVarint (appendVarint2 [] v @ rest) = (v, 2)"
proof -
  have "take_bit 14 v = v" using assms word_less_exp_take_bit [of v 14 14] by simp
  with assms prefix_byte_small [of v 8] show ?thesis
    by (simp add: appendVarint2_def ReadVarint_def first_byte_value prefix_byte first_byte_ucast)
qed

lemma unat_small_byte: "n < 256 \<Longrightarrow> unat (of_nat n :: byte) = n"
  by (simp add: unsigned_of_nat take_bit_nat_eq_self)

lemma unat_small_u64: "n < 2 ^ 64 \<Longrightarrow> unat (of_nat n :: u64) = n"
  by (simp add: unsigned_of_nat take_bit_nat_eq_self)

lemma BigEndian_AppendUint32 [simp]: "BigEndian_Uint32 (AppendUint32 [] v @ rest) = v"
proof -
  have "push_bit 8 (push_bit 8 (push_bit 8 (ucast (ucast (drop_bit 24 v) :: byte)) OR ucast (ucast (drop_bit 16 v) :: byte)) OR
      ucast (ucast (drop_bit 8 v) :: byte)) OR ucast (ucast v :: byte) = v"
    (is "?l = v")
  proof (rule bit_word_eqI)
    fix i :: nat assume "i < LENGTH(32)"
    consider "i < 8" | "8 \<le> i" "i < 16" | "16 \<le> i" "i < 24" | "24 \<le> i" by linarith
    then show "bit ?l i \<longleftrightarrow> bit v i" using \<open>i < LENGTH(32)\<close> by cases (auto simp: bit_simps)
  qed
  then show ?thesis by (simp add: BigEndian_Uint32_def AppendUint32_def)
qed

text \<open>A long header as \<open>sealPlan\<close> and \<open>VersionNegotiation\<close> lay it out, up to the connection IDs.\<close>

definition long_ids :: "byte \<Rightarrow> u32 \<Rightarrow> bytes \<Rightarrow> bytes \<Rightarrow> bytes" where
  "long_ids b0 v dst src =
     [b0] @ AppendUint32 [] v @ [of_nat (length dst)] @ dst @ [of_nat (length src)] @ src"

lemma length_long_ids [simp]: "length (long_ids b0 v dst src) = 7 + length dst + length src"
  by (simp add: long_ids_def AppendUint32_def)

lemma parse_long_ids:
  fixes rest
  assumes "b0 AND 0x80 \<noteq> 0" "length dst < 256" "length src < 256"
    and "v = Version1 \<Longrightarrow> length dst \<le> maxCIDLen \<and> length src \<le> maxCIDLen"
  defines "b \<equiv> long_ids b0 v dst src @ rest"
  shows "parseHeader b m =
    (if v \<noteq> Version1 then (no_header\<lparr>hversion := v, dcid := dst, scid := src\<rparr>, Some errUnknownVersion)
     else parse_long b (7 + length dst + length src) (no_header\<lparr>hversion := v, dcid := dst, scid := src\<rparr>))"
proof -
  have b: "b = b0 # AppendUint32 [] v @ [of_nat (length dst)] @ dst @ [of_nat (length src)] @ src @ rest"
    by (simp add: b_def long_ids_def)
  have l4: "length (AppendUint32 [] v) = 4" by (simp add: AppendUint32_def)
  have v: "BigEndian_Uint32 (drop 1 b) = v" by (simp add: b)
  have dl: "unat (b ! 5) = length dst" using assms(2) by (simp add: b nth_append l4 unat_small_byte)
  have sl: "unat (b ! (6 + length dst)) = length src" using assms(3) by (simp add: b nth_append l4 unat_small_byte)
  have ids: "subslice 6 (6 + length dst) b = dst" "subslice (7 + length dst) (7 + length dst + length src) b = src"
    by (simp_all add: b subslice_def l4 drop_Cons')
  have "b \<noteq> []" "hd b AND 0x80 \<noteq> 0" "7 \<le> length b" "7 + length dst + length src \<le> length b"
    using assms(1) by (simp_all add: b l4)
  from parse_long_header [OF this(1-3), of m] this(4) show ?thesis
    unfolding v dl sl ids using assms(4) by simp
qed

lemma plan_header_long:
  assumes "sp \<noteq> spaceApp"
  shows "plan_header dst src tok kp sp n len =
    long_ids (0xc0 OR push_bit 4 (if sp = spaceHandshake then 2 else 0) OR of_nat (n - 1)) Version1 dst src @
    (if sp = spaceInitial then AppendVarint [] (of_nat (length tok)) @ tok else []) @
    appendVarint2 [] (of_nat (n + len + aeadOverhead))"
  using assms
  by (cases sp) (simp_all add: plan_header_def long_ids_def AppendUint32_def appendVarint2_def packetHandshake_def
      packetInitial_def Let_def AppendVarint_append [of "_ # _"])

lemma parse_plan:
  fixes dst src tok body rest
  assumes sp: "sp \<noteq> spaceApp" and ids: "length dst \<le> maxCIDLen" "length src \<le> maxCIDLen" "length tok < 2 ^ 62"
    and len: "length body < 2 ^ 14"
    and b0: "b0 AND 0x80 \<noteq> 0" "b0 AND 0x40 \<noteq> 0" "drop_bit 4 b0 AND 3 = (if sp = spaceHandshake then 2 else 0)"
  defines "tk \<equiv> if sp = spaceInitial then AppendVarint [] (of_nat (length tok)) @ tok else []"
  defines "ids \<equiv> long_ids b0 Version1 dst src"
  shows "parseHeader (ids @ tk @ appendVarint2 [] (of_nat (length body)) @ body @ rest) m =
    (no_header\<lparr>hversion := Version1, dcid := dst, scid := src, htyp := (if sp = spaceHandshake then packetHandshake else packetInitial),
       htoken := (if sp = spaceInitial then tok else []), pnOffset := length ids + length tk + 2,
       hend := length ids + length tk + 2 + length body\<rparr>, None)"
proof -
  let ?L = "of_nat (length body) :: u64"
  let ?v2 = "appendVarint2 [] ?L"
  let ?b = "ids @ tk @ ?v2 @ body @ rest"
  let ?p = "7 + length dst + length src"
  have "unat ?L = length body" using len by (intro unat_small_u64) simp
  then have L: "unat ?L = length body" "?L < 2 ^ 14" using len by (simp_all add: word_less_nat_alt)
  have v2: "ReadVarint (?v2 @ body @ rest) = (?L, 2)" by (rule ReadVarint_appendVarint2 [OF L(2)])
  have l2: "length ?v2 = 2" by (simp add: appendVarint2_def)
  have li: "length ids = ?p" by (simp add: ids_def)
  have "hd ?b = b0" by (simp add: ids_def long_ids_def)
  have c: "length dst < 256" "length src < 256" using assms(2,3) by (simp_all add: maxCIDLen_def)
  have P: "parseHeader ?b m = parse_long ?b ?p (no_header\<lparr>hversion := Version1, dcid := dst, scid := src\<rparr>)"
    unfolding ids_def using parse_long_ids [OF b0(1) c, of Version1] assms(2,3) by simp
  have fin: "parse_length ?b (length ids + length tk) h =
      (h\<lparr>pnOffset := length ids + length tk + 2, hend := length ids + length tk + 2 + length body\<rparr>, None)" for h
    using v2 L(1) l2 by (simp add: parse_length_def Let_def)
  show ?thesis
  proof (cases "sp = spaceInitial")
    case True
    have "unat (of_nat (length tok) :: u64) = length tok" using assms(4) by (intro unat_small_u64) simp
    then have T: "unat (of_nat (length tok) :: u64) = length tok" "(of_nat (length tok) :: u64) < 2 ^ 62"
      using assms(4) by (simp_all add: word_less_nat_alt)
    let ?n = "VarintLen (of_nat (length tok))"
    have tk: "tk = AppendVarint [] (of_nat (length tok)) @ tok" "length tk = ?n + length tok" using True by (simp_all add: tk_def)
    have r: "ReadVarint (drop ?p ?b) = (of_nat (length tok), ?n)"
      using ReadVarint_AppendVarint_max [OF T(2)] li by (simp add: tk)
    have n0: "?n \<noteq> 0" using VarintLen_cases [of "of_nat (length tok)"] by auto
    have s: "subslice (?p + ?n) (?p + ?n + length tok) ?b = tok" using li by (simp add: tk subslice_def)
    let ?h = "no_header\<lparr>hversion := Version1, dcid := dst, scid := src, htyp := packetInitial, htoken := tok\<rparr>"
    have pe: "?p + ?n + length tok = length ids + length tk" using li tk(2) by simp
    have "parseHeader ?b m = parse_length ?b (?p + ?n + length tok) ?h"
      unfolding P parse_long_def \<open>hd ?b = b0\<close> r using True b0 n0 T(1) s l2 li tk(2)
      by (simp add: packetRetry_def packetInitial_def Let_def)
    then show ?thesis unfolding pe fin using True by simp
  next
    case False
    then have h: "sp = spaceHandshake" "tk = []" using sp by (cases sp; simp add: tk_def)+
    let ?h = "no_header\<lparr>hversion := Version1, dcid := dst, scid := src, htyp := packetHandshake\<rparr>"
    have "parseHeader ?b m = parse_length ?b (length ids + length tk) ?h"
      unfolding P parse_long_def \<open>hd ?b = b0\<close> using h b0 li
      by (simp add: packetRetry_def packetInitial_def packetHandshake_def Let_def)
    then show ?thesis unfolding fin using h by (simp add: no_header_def)
  qed
qed

lemma take_masked:
  assumes "0 < off" "off \<le> length pkt"
  shows "take off (mask_pn mk off n (mask_first mk pkt)) = mask_first mk (take off pkt)"
proof (rule nth_equalityI)
  show "length (take off (mask_pn mk off n (mask_first mk pkt))) = length (mask_first mk (take off pkt))"
    by (simp add: mask_pn_nth mask_first_nth)
  fix i assume "i < length (take off (mask_pn mk off n (mask_first mk pkt)))"
  then have i: "i < off" "i < length pkt" by (simp_all add: mask_pn_nth mask_first_nth)
  then show "take off (mask_pn mk off n (mask_first mk pkt)) ! i = mask_first mk (take off pkt) ! i"
    using assms by (cases "i = 0") (auto simp: mask_pn_nth mask_first_nth mask_first_def nth_list_update)
qed

lemma newKeys_aead:
  assumes "s = CHACHA20_POLY1305_SHA256 \<or> (\<forall>key. aead (gcm_Seal cr key) (gcm_Open cr key))"
  shows "aead (k_Seal (newKeys cr s secret)) (k_Open (newKeys cr s secret))"
  using assms cc20.aead_axioms by (cases s) (simp_all add: newKeys_def Let_def)

definition space_type :: "space \<Rightarrow> nat" where
  "space_type sp =
     (case sp of spaceInitial \<Rightarrow> packetInitial | spaceHandshake \<Rightarrow> packetHandshake | spaceApp \<Rightarrow> packet1RTT)"

lemma first_bytes:
  assumes "n \<in> {1, 2, 3, 4}"
  shows "unat ((0xc0 OR push_bit 4 (if hs then 2 else 0) OR of_nat (n - 1) :: byte) AND 3) = n - 1"
    "(0xc0 OR push_bit 4 (if hs then 2 else 0) OR of_nat (n - 1) :: byte) AND 0x80 \<noteq> 0"
    "(0xc0 OR push_bit 4 (if hs then 2 else 0) OR of_nat (n - 1) :: byte) AND 0x40 \<noteq> 0"
    "drop_bit 4 (0xc0 OR push_bit 4 (if hs then 2 else 0) OR of_nat (n - 1) :: byte) AND 3 = (if hs then 2 else 0)"
    "unat ((0x40 OR of_nat (n - 1) OR (if kp then 0x04 else 0) :: byte) AND 3) = n - 1"
    "(0x40 OR of_nat (n - 1) OR (if kp then 0x04 else 0) :: byte) AND 0x80 = 0"
  using assms by auto

lemma parse_sealed:
  assumes n: "n \<in> {1, 2, 3, 4}" and ids: "length dst \<le> maxCIDLen" "length src \<le> maxCIDLen" "length tok < 2 ^ 62"
    and len: "n + length payload + 16 < 2 ^ 14" and rest: "sp = spaceApp \<longrightarrow> rest = []"
    and plain: "plain = plan_header dst src tok kp sp n (length payload) @ body" "length body = n + length payload + 16"
  defines "off \<equiv> length (plan_header dst src tok kp sp n (length payload))"
  shows "\<exists>h. parseHeader (mask_pn mk off n (mask_first mk plain) @ rest) (length dst) = (h, None) \<and>
    htyp h = space_type sp \<and> dcid h = dst \<and> (sp \<noteq> spaceApp \<longrightarrow> scid h = src) \<and>
    (sp = spaceInitial \<longrightarrow> htoken h = tok) \<and> pnOffset h = off \<and> hend h = length plain"
proof -
  let ?hdr = "plan_header dst src tok kp sp n (length payload)"
  let ?m = "mask_pn mk off n (mask_first mk plain)"
  define body' where "body' = drop off ?m"
  have lb: "length body' = length body" by (simp add: body'_def mask_pn_nth mask_first_nth plain off_def)
  have ne: "0 < off" unfolding off_def by (cases sp) (simp_all add: plan_header_def Let_def appendVarint2_def)
  have "take off ?m = mask_first mk ?hdr"
    using take_masked [OF ne, of plain] by (simp add: plain off_def)
  then have m: "?m = mask_first mk ?hdr @ body'" unfolding body'_def by (metis append_take_drop_id)
  show ?thesis
  proof (cases "sp = spaceApp")
    case True
    define f where "f = (0x40 OR of_nat (n - 1) OR (if kp then 0x04 else 0) :: byte)"
    have h: "?hdr = f # dst" unfolding f_def by (simp add: plan_header_def True or.assoc)
    note F = first_bytes(6) [OF n, of kp, folded f_def]
    let ?g = "f XOR (mk ! 0 AND 0x1f)"
    have g: "mask_first mk ?hdr = ?g # dst" unfolding h by (simp add: mask_first_def F)
    have g0: "?g AND 0x80 = 0" unfolding mask_bits by (rule F)
    have "length (?g # dst @ body') = length plain" "off = 1 + length dst" by (simp_all add: plain(1) lb h off_def)
    moreover have "parseHeader (?g # dst @ body') (length dst) =
        (no_header\<lparr>htyp := packet1RTT, dcid := dst, pnOffset := 1 + length dst, hend := length (?g # dst @ body')\<rparr>, None)"
      using g0 by (simp add: parseHeader_def subslice_def Let_def)
    ultimately show ?thesis unfolding m g using True rest by (simp add: space_type_def)
  next
    case False
    let ?hs = "sp = spaceHandshake"
    define f where "f = (0xc0 OR push_bit 4 (if ?hs then 2 else 0) OR of_nat (n - 1) :: byte)"
    let ?g = "f XOR (mk ! 0 AND 0x0f)"
    let ?tk = "if sp = spaceInitial then AppendVarint [] (of_nat (length tok)) @ tok else []"
    let ?v2 = "appendVarint2 [] (of_nat (length body')) :: bytes"
    note F = first_bytes(2-4) [OF n, of ?hs, folded f_def]
    have L: "n + length payload + aeadOverhead = length body'" using plain(2) lb by (simp add: aeadOverhead_def)
    have h: "?hdr = long_ids f Version1 dst src @ ?tk @ ?v2" unfolding plan_header_long [OF False] L f_def by (rule refl)
    have g: "mask_first mk ?hdr = long_ids ?g Version1 dst src @ ?tk @ ?v2"
      unfolding h using F(1) by (simp add: mask_first_def long_ids_def)
    have b0: "?g AND 0x80 \<noteq> 0" "?g AND 0x40 \<noteq> 0" "drop_bit 4 ?g AND 3 = (if ?hs then 2 else 0)"
      unfolding mask_bits using F by simp_all
    have "length body' < 2 ^ 14" using lb plain(2) len by simp
    note P = parse_plan [OF False ids this b0, of rest "length dst"]
    have "off = length (long_ids f Version1 dst src) + length ?tk + 2" unfolding off_def h by (simp add: appendVarint2_def)
    moreover have "length plain = off + length body'" by (simp add: plain off_def lb)
    ultimately show ?thesis
      unfolding m g append_assoc P using False
      by (cases sp) (simp_all add: space_type_def)
  qed
qed

text \<open>
  C5. A packet survives its journey: whatever connection IDs, token, packet number and payload go
  into \<open>sealPlan\<close>, under any suite, the receiver that holds the same keys parses the header back,
  finds the packet's extent even with other packets behind it in the datagram, takes the header
  protection off, recovers the packet number and opens the payload.
\<close>

theorem sealed_packet_roundtrip:
  fixes cr :: crypto and secret dst src tok payload rest :: bytes and kp :: bool and largest :: int and pn :: u64
  assumes cipher: "s = CHACHA20_POLY1305_SHA256 \<or> (\<forall>key. aead (gcm_Seal cr key) (gcm_Open cr key))"
    and n: "n \<in> {1, 2, 3, 4}" and ids: "length dst \<le> maxCIDLen" "length src \<le> maxCIDLen" "length tok < 2 ^ 62"
    and size: "4 \<le> n + length payload" "n + length payload + 16 < 2 ^ 14" and rest: "sp = spaceApp \<longrightarrow> rest = []"
    and pn: "decodePN largest (take_bit (8 * n) pn) n = pn"
  defines "k \<equiv> newKeys cr s secret"
  defines "d \<equiv> sealPlan k dst src tok kp sp pn n payload @ rest"
  shows "\<exists>h plain. parseHeader d (length dst) = (h, None) \<and> htyp h = space_type sp \<and> dcid h = dst \<and>
    (sp \<noteq> spaceApp \<longrightarrow> scid h = src) \<and> (sp = spaceInitial \<longrightarrow> htoken h = tok) \<and> drop (hend h) d = rest \<and>
    unprotect (take (hend h) d) (pnOffset h) (k_mask k) largest = Some ((pn, n), plain) \<and>
    keys_open k plain (pnOffset h + n) pn = Inr payload"
proof -
  have a: "aead (k_Seal k) (k_Open k)" unfolding k_def by (rule newKeys_aead [OF cipher])
  let ?hdr = "plan_header dst src tok kp sp n (length payload)"
  let ?pkt = "?hdr @ append_pn pn n @ payload"
  let ?body = "append_pn pn n @ k_Seal k (nonce k pn) payload (?hdr @ append_pn pn n)"
  have ne: "?hdr \<noteq> []" by (cases sp) (simp_all add: plan_header_def Let_def appendVarint2_def)
  have f: "unat (?hdr ! 0 AND 3) = n - 1"
  proof (cases "sp = spaceApp")
    case True
    then show ?thesis using first_bytes(5) [OF n, of kp] by (simp add: plan_header_def or.assoc)
  next
    case False
    then show ?thesis using first_bytes(1) [OF n, of "sp = spaceHandshake"]
      unfolding plan_header_long [OF False] by (simp add: long_ids_def)
  qed
  note R = aead.protect_roundtrip [OF a refl refl n ne f size(1) pn]
  obtain mk where mk: "keys_seal k ?pkt (length ?hdr) n pn = mask_pn mk (length ?hdr) n (mask_first mk (?hdr @ ?body))"
    using R(4) by auto
  have lb: "length ?body = n + length payload + 16" using aead.seal_length [OF a] by simp
  obtain h where h: "parseHeader (mask_pn mk (length ?hdr) n (mask_first mk (?hdr @ ?body)) @ rest) (length dst) = (h, None)"
    "htyp h = space_type sp" "dcid h = dst" "sp \<noteq> spaceApp \<longrightarrow> scid h = src" "sp = spaceInitial \<longrightarrow> htoken h = tok"
    "pnOffset h = length ?hdr" "hend h = length (?hdr @ ?body)"
    using parse_sealed [OF n ids size(2) rest refl lb, where kp = kp and mk = mk] by blast
  have d: "d = keys_seal k ?pkt (length ?hdr) n pn @ rest" by (simp add: d_def sealPlan_def Let_def)
  have "length (keys_seal k ?pkt (length ?hdr) n pn) = hend h" using h(7) lb R(3) by simp
  then have "take (hend h) d = keys_seal k ?pkt (length ?hdr) n pn" "drop (hend h) d = rest" by (simp_all add: d)
  then show ?thesis using h R(1,2) mk unfolding d by auto
qed

definition demo_crypto :: crypto where
  "demo_crypto =
     \<lparr>hkdf_Extract = (\<lambda>_ _. []), hkdf_Expand = (\<lambda>_ s _ n. take n (s @ replicate n 0)),
      gcm_Seal = chacha_Seal \<circ> chachaKey, gcm_Open = chacha_Open \<circ> chachaKey,
      aes_Encrypt = (\<lambda>_ s. s), hmac_SHA256 = (\<lambda>k m. k @ m)\<rparr>"

theorem sealed_packet_roundtrip_witness:
  "\<exists>h plain.
     parseHeader (sealPlan (newKeys demo_crypto AES_128_GCM_SHA256 [7]) [1, 2] [3] [] False spaceHandshake 5 1 [1, 1, 1] @ [9])
       (length [1, 2 :: byte]) = (h, None) \<and>
     keys_open (newKeys demo_crypto AES_128_GCM_SHA256 [7]) plain (pnOffset h + 1) 5 = Inr [1, 1, 1]"
proof -
  have c: "AES_128_GCM_SHA256 = CHACHA20_POLY1305_SHA256 \<or> (\<forall>key. aead (gcm_Seal demo_crypto key) (gcm_Open demo_crypto key))"
    using cc20.aead_axioms by (simp add: demo_crypto_def)
  have n: "(1 :: nat) \<in> {1, 2, 3, 4}" by simp
  have l: "length [1, 2 :: byte] \<le> maxCIDLen" "length [3 :: byte] \<le> maxCIDLen" "length ([] :: bytes) < 2 ^ 62"
    "4 \<le> 1 + length [1, 1, 1 :: byte]" "1 + length [1, 1, 1 :: byte] + 16 < 2 ^ 14"
    "spaceHandshake = spaceApp \<longrightarrow> [9 :: byte] = []" by (simp_all add: maxCIDLen_def)
  have p: "decodePN 4 (take_bit (8 * 1) 5) 1 = 5" by (simp add: decodePN_def take_bit_eq_mod)
  show ?thesis using sealed_packet_roundtrip [OF c n l p, of "[7]" False] by blast
qed

section \<open>Version negotiation and stateless resets\<close>

lemma parse_unknown_ids:
  assumes "parseHeader d 0 = (h, Some errUnknownVersion)"
  shows "length (dcid h) < 256" "length (scid h) < 256" "hversion h \<noteq> Version1"
proof -
  have "unat (x :: byte) < 2 ^ LENGTH(8)" for x by (rule unsigned_less)
  then have "unat (x :: byte) < 256" for x by simp
  then show "length (dcid h) < 256" "length (scid h) < 256" "hversion h \<noteq> Version1"
    using assms by (auto simp: parseHeader_def parse_long_def parse_length_def Let_def split: if_splits prod.splits)
qed

text \<open>
  The answer to an unknown version: \<open>VersionNegotiation\<close> answers only a datagram large enough to
  open a connection and of a version other than 1 and 0, so never another version negotiation packet;
  its answer parses as one, with version 0 and the connection IDs swapped, and is itself not answered.
\<close>

theorem version_negotiation_swaps_ids:
  assumes "VersionNegotiation r d = Some v"
  shows "minInitialDatagram \<le> length d \<and>
    (\<exists>h h'. parseHeader d 0 = (h, Some errUnknownVersion) \<and> hversion h \<notin> {0, Version1} \<and>
       parseHeader v 0 = (h', Some errUnknownVersion) \<and> hversion h' = 0 \<and> dcid h' = scid h \<and> scid h' = dcid h) \<and>
    VersionNegotiation r' v = None"
proof -
  obtain h err where p: "parseHeader d 0 = (h, err)" by fastforce
  with assms have e: "err = Some errUnknownVersion" "hversion h \<noteq> 0" "minInitialDatagram \<le> length d"
    and v: "v = long_ids (0x80 OR r) 0 (scid h) (dcid h) @ AppendUint32 (AppendUint32 [] Version1) 0x1a2a3a4a"
    by (auto simp: VersionNegotiation_def long_ids_def AppendUint32_def split: if_splits)
  note L = parse_unknown_ids [OF p [unfolded e(1)]]
  have "(0x80 OR r) AND 0x80 \<noteq> (0 :: byte)"
  proof
    assume "(0x80 OR r) AND 0x80 = 0"
    then have "\<not> bit ((0x80 OR r) AND 0x80) 7" by simp
    then show False by (simp add: bit_simps)
  qed
  from parse_long_ids [OF this L(2,1), of 0 "AppendUint32 (AppendUint32 [] Version1) 0x1a2a3a4a" 0]
  have q: "parseHeader v 0 = (no_header\<lparr>hversion := 0, dcid := scid h, scid := dcid h\<rparr>, Some errUnknownVersion)"
    by (simp add: v Version1_def)
  then have "VersionNegotiation r' v = None" by (simp add: VersionNegotiation_def)
  with p q e L(3) show ?thesis by auto
qed

theorem version_negotiation_swaps_ids_witness:
  "\<exists>v. VersionNegotiation 0 ([0xc0, 0, 0, 0, 2, 1, 9, 0] @ replicate 1200 0) = Some v \<and> VersionNegotiation 0 v = None"
proof -
  have p: "parseHeader ([0xc0, 0, 0, 0, 2, 1, 9, 0] @ replicate 1200 0) 0 =
      (no_header\<lparr>hversion := 2, dcid := [9], scid := []\<rparr>, Some errUnknownVersion)"
    by (simp add: parseHeader_def BigEndian_Uint32_def subslice_def Version1_def no_header_def Let_def)
  then obtain v where "VersionNegotiation 0 ([0xc0, 0, 0, 0, 2, 1, 9, 0] @ replicate 1200 0) = Some v"
    by (simp add: VersionNegotiation_def minInitialDatagram_def del: replicate.simps)
  with version_negotiation_swaps_ids [OF this, of 0] show ?thesis by blast
qed

text \<open>
  A stateless reset looks like a short header packet, ends in the token of the connection ID it
  answers, is at least 21 bytes long and strictly shorter than the datagram it answers, so that two
  endpoints cannot keep resetting each other.
\<close>

theorem stateless_reset_shrinks:
  assumes "StatelessReset cr key random d = Some out"
    and "\<And>k m. length (hmac_SHA256 cr k m) = 32" and "64 \<le> length random"
  shows "21 \<le> length out \<and> length out < length d \<and> out ! 0 AND 0xc0 = 0x40 \<and>
    drop (length out - statelessResetTokenLen) out = reset_token cr key (subslice 1 (1 + cidLen) d)"
proof -
  let ?size = "min (length d - 1) 64"
  let ?o = "take (?size - 16) random"
  let ?t = "reset_token cr key (subslice 1 (1 + cidLen) d)"
  have d: "30 \<le> length d" and out: "out = ?o[0 := (?o ! 0 AND 0x3f) OR 0x40] @ ?t"
    using assms(1) by (auto simp: StatelessReset_def statelessResetTokenLen_def cidLen_def Let_def split: if_splits)
  have t: "length ?t = 16" by (simp add: reset_token_def statelessResetTokenLen_def assms(2))
  have o: "length ?o = ?size - 16" using assms(3) by simp
  have "((x AND 0x3f) OR 0x40) AND 0xc0 = (0x40 :: byte)" for x
    by (simp add: bit.conj_disj_distrib2 and.assoc)
  moreover have "out ! 0 = (?o ! 0 AND 0x3f) OR 0x40" using d o by (auto simp: out nth_append)
  ultimately show ?thesis using d t o by (auto simp: out statelessResetTokenLen_def)
qed

theorem stateless_reset_shrinks_witness:
  "\<exists>out. StatelessReset (demo_crypto\<lparr>hmac_SHA256 := (\<lambda>_ _. replicate 32 7)\<rparr>) [] (replicate 64 1) (replicate 40 0) = Some out \<and>
     length out < 40"
proof -
  let ?cr = "demo_crypto\<lparr>hmac_SHA256 := (\<lambda>_ _. replicate 32 7)\<rparr>"
  obtain out where o: "StatelessReset ?cr [] (replicate 64 1) (replicate 40 0) = Some out"
    by (simp add: StatelessReset_def cidLen_def Let_def)
  from stateless_reset_shrinks [OF this] o show ?thesis by simp
qed

end
