(* ===== verification/Trans_Params.thy ===== *)
theory Trans_Params
  imports Packets
begin

text \<open>
  The errors of a QUIC connection, \<open>src/go/http3/internal/quic/errors.go\<close>, and the transport
  parameters the two sides exchange, \<open>params.go\<close>. A \<open>time.Duration\<close> is an \<open>int\<close> of nanoseconds; where
  the code multiplies one out of a 64-bit value from the wire, the product is taken at 64 bits and
  read as signed, as Go does. Parameter identifiers and limits are those of the source.
\<close>

section \<open>Errors\<close>

definition errNoError :: u64 where "errNoError = 0x00"
definition errInternal :: u64 where "errInternal = 0x01"
definition errFlowControl :: u64 where "errFlowControl = 0x03"
definition errStreamLimit :: u64 where "errStreamLimit = 0x04"
definition errStreamState :: u64 where "errStreamState = 0x05"
definition errFinalSize :: u64 where "errFinalSize = 0x06"
definition errFrameEncoding :: u64 where "errFrameEncoding = 0x07"
definition errTransportParameter :: u64 where "errTransportParameter = 0x08"
definition errConnectionIDLimit :: u64 where "errConnectionIDLimit = 0x09"
definition errProtocolViolation :: u64 where "errProtocolViolation = 0x0a"
definition errApplication :: u64 where "errApplication = 0x0c"
definition errCryptoBufferExceeds :: u64 where "errCryptoBufferExceeds = 0x0d"
definition errKeyUpdate :: u64 where "errKeyUpdate = 0x0e"
definition errCryptoBase :: u64 where "errCryptoBase = 0x100"

text \<open>A code, a reason and whether the error came from the peer; or one of the sentinels.\<close>

datatype qerror =
    TransportError u64 bytes bool
  | ApplicationError u64 bytes bool
  | ErrIdleTimeout | ErrHandshakeTimeout | ErrStatelessReset | ErrClosed | ErrStreamLimit
  | ErrVersionNegotiation
  | OtherError bytes

definition transportErr :: "u64 \<Rightarrow> string \<Rightarrow> qerror" where
  "transportErr code reason = TransportError code (ascii reason) False"

section \<open>Parameters\<close>

definition paramOriginalDCID :: u64 where "paramOriginalDCID = 0x00"
definition paramMaxIdleTimeout :: u64 where "paramMaxIdleTimeout = 0x01"
definition paramStatelessResetToken :: u64 where "paramStatelessResetToken = 0x02"
definition paramMaxUDPPayloadSize :: u64 where "paramMaxUDPPayloadSize = 0x03"
definition paramInitialMaxData :: u64 where "paramInitialMaxData = 0x04"
definition paramMaxStreamDataBidiLoc :: u64 where "paramMaxStreamDataBidiLoc = 0x05"
definition paramMaxStreamDataBidiRem :: u64 where "paramMaxStreamDataBidiRem = 0x06"
definition paramMaxStreamDataUni :: u64 where "paramMaxStreamDataUni = 0x07"
definition paramInitialMaxStreamsBidi :: u64 where "paramInitialMaxStreamsBidi = 0x08"
definition paramInitialMaxStreamsUni :: u64 where "paramInitialMaxStreamsUni = 0x09"
definition paramAckDelayExponent :: u64 where "paramAckDelayExponent = 0x0a"
definition paramMaxAckDelay :: u64 where "paramMaxAckDelay = 0x0b"
definition paramDisableMigration :: u64 where "paramDisableMigration = 0x0c"
definition paramPreferredAddress :: u64 where "paramPreferredAddress = 0x0d"
definition paramActiveCIDLimit :: u64 where "paramActiveCIDLimit = 0x0e"
definition paramInitialSCID :: u64 where "paramInitialSCID = 0x0f"
definition paramRetrySCID :: u64 where "paramRetrySCID = 0x10"

lemmas param_ids =
  paramOriginalDCID_def paramMaxIdleTimeout_def paramStatelessResetToken_def
  paramMaxUDPPayloadSize_def paramInitialMaxData_def paramMaxStreamDataBidiLoc_def
  paramMaxStreamDataBidiRem_def paramMaxStreamDataUni_def paramInitialMaxStreamsBidi_def
  paramInitialMaxStreamsUni_def paramAckDelayExponent_def paramMaxAckDelay_def
  paramDisableMigration_def paramPreferredAddress_def paramActiveCIDLimit_def
  paramInitialSCID_def paramRetrySCID_def

definition Millisecond :: int where "Millisecond = 1000000"

record transportParams =
  tp_originalDCID :: bytes
  tp_initialSCID :: bytes
  tp_retrySCID :: bytes
  tp_hasOriginalDCID :: bool
  tp_hasInitialSCID :: bool
  tp_hasRetrySCID :: bool
  tp_statelessResetToken :: "bytes option"
  tp_maxIdleTimeout :: int
  tp_maxUDPPayloadSize :: u64
  tp_initialMaxData :: u64
  tp_maxStreamDataBidiL :: u64
  tp_maxStreamDataBidiR :: u64
  tp_maxStreamDataUni :: u64
  tp_maxStreamsBidi :: u64
  tp_maxStreamsUni :: u64
  tp_ackDelayExponent :: u64
  tp_maxAckDelay :: int
  tp_disableMigration :: bool
  tp_activeCIDLimit :: u64

definition defaultParams :: transportParams where
  "defaultParams =
     \<lparr>tp_originalDCID = [], tp_initialSCID = [], tp_retrySCID = [],
      tp_hasOriginalDCID = False, tp_hasInitialSCID = False, tp_hasRetrySCID = False,
      tp_statelessResetToken = None, tp_maxIdleTimeout = 0, tp_maxUDPPayloadSize = 65527,
      tp_initialMaxData = 0, tp_maxStreamDataBidiL = 0, tp_maxStreamDataBidiR = 0,
      tp_maxStreamDataUni = 0, tp_maxStreamsBidi = 0, tp_maxStreamsUni = 0,
      tp_ackDelayExponent = 3, tp_maxAckDelay = 25 * Millisecond, tp_disableMigration = False,
      tp_activeCIDLimit = 2\<rparr>"

definition appendParamVarint :: "bytes \<Rightarrow> u64 \<Rightarrow> u64 \<Rightarrow> bytes" where
  "appendParamVarint b pid v =
     AppendVarint (AppendVarint (AppendVarint b pid) (of_nat (VarintLen v))) v"

definition appendParamBytes :: "bytes \<Rightarrow> u64 \<Rightarrow> bytes \<Rightarrow> bytes" where
  "appendParamBytes b pid v = AppendVarint (AppendVarint b pid) (of_nat (length v)) @ v"

definition encode :: "transportParams \<Rightarrow> bytes" where
  "encode p =
     (let b = [];
          b = (if tp_hasOriginalDCID p then appendParamBytes b paramOriginalDCID (tp_originalDCID p) else b);
          b = (if tp_maxIdleTimeout p > 0
               then appendParamVarint b paramMaxIdleTimeout (word_of_int (tp_maxIdleTimeout p div Millisecond))
               else b);
          b = (case tp_statelessResetToken p of
                 None \<Rightarrow> b
               | Some token \<Rightarrow> appendParamBytes b paramStatelessResetToken token);
          b = appendParamVarint b paramInitialMaxData (tp_initialMaxData p);
          b = appendParamVarint b paramMaxStreamDataBidiLoc (tp_maxStreamDataBidiL p);
          b = appendParamVarint b paramMaxStreamDataBidiRem (tp_maxStreamDataBidiR p);
          b = appendParamVarint b paramMaxStreamDataUni (tp_maxStreamDataUni p);
          b = appendParamVarint b paramInitialMaxStreamsBidi (tp_maxStreamsBidi p);
          b = appendParamVarint b paramInitialMaxStreamsUni (tp_maxStreamsUni p);
          b = (if tp_disableMigration p then appendParamBytes b paramDisableMigration [] else b);
          b = (if tp_hasInitialSCID p then appendParamBytes b paramInitialSCID (tp_initialSCID p) else b);
          b = (if tp_hasRetrySCID p then appendParamBytes b paramRetrySCID (tp_retrySCID p) else b)
      in b)"

text \<open>
  \<open>intValue\<close> reads a parameter's value as one integer; the flag is \<open>vr.bad\<close> afterwards. One turn of the
  switch returns the parameters, \<open>vr.bad\<close> and \<open>serverOnly\<close>.
\<close>

definition intValue :: "bytes \<Rightarrow> u64 \<times> bool" where
  "intValue v =
     (let (n, vr) = reader_varint \<lparr>rb = v, bad = False\<rparr> in (n, bad vr \<or> rb vr \<noteq> []))"

definition param_step :: "u64 \<Rightarrow> bytes \<Rightarrow> transportParams \<Rightarrow> transportParams \<times> bool \<times> bool" where
  "param_step pid v p =
     (let (n, nbad) = intValue v in
      if pid = paramOriginalDCID then
        (p\<lparr>tp_originalDCID := v, tp_hasOriginalDCID := True\<rparr>, False, True)
      else if pid = paramMaxIdleTimeout then (p\<lparr>tp_maxIdleTimeout := sint (n * 1000000)\<rparr>, nbad, False)
      else if pid = paramStatelessResetToken then
        (p\<lparr>tp_statelessResetToken := Some v\<rparr>, length v \<noteq> statelessResetTokenLen, True)
      else if pid = paramMaxUDPPayloadSize then (p\<lparr>tp_maxUDPPayloadSize := n\<rparr>, nbad \<or> n < 1200, False)
      else if pid = paramInitialMaxData then (p\<lparr>tp_initialMaxData := n\<rparr>, nbad, False)
      else if pid = paramMaxStreamDataBidiLoc then (p\<lparr>tp_maxStreamDataBidiL := n\<rparr>, nbad, False)
      else if pid = paramMaxStreamDataBidiRem then (p\<lparr>tp_maxStreamDataBidiR := n\<rparr>, nbad, False)
      else if pid = paramMaxStreamDataUni then (p\<lparr>tp_maxStreamDataUni := n\<rparr>, nbad, False)
      else if pid = paramInitialMaxStreamsBidi then
        (p\<lparr>tp_maxStreamsBidi := n\<rparr>, nbad \<or> n > 2 ^ 60, False)
      else if pid = paramInitialMaxStreamsUni then
        (p\<lparr>tp_maxStreamsUni := n\<rparr>, nbad \<or> n > 2 ^ 60, False)
      else if pid = paramAckDelayExponent then (p\<lparr>tp_ackDelayExponent := n\<rparr>, nbad \<or> n > 20, False)
      else if pid = paramMaxAckDelay then
        (p\<lparr>tp_maxAckDelay := sint (n * 1000000)\<rparr>, nbad \<or> n \<ge> 2 ^ 14, False)
      else if pid = paramDisableMigration then (p\<lparr>tp_disableMigration := True\<rparr>, length v \<noteq> 0, False)
      else if pid = paramPreferredAddress then (p, False, True)
      else if pid = paramActiveCIDLimit then (p\<lparr>tp_activeCIDLimit := n\<rparr>, nbad \<or> n < 2, False)
      else if pid = paramInitialSCID then (p\<lparr>tp_initialSCID := v, tp_hasInitialSCID := True\<rparr>, False, False)
      else if pid = paramRetrySCID then
        (p\<lparr>tp_retrySCID := v, tp_hasRetrySCID := True\<rparr>, False, True)
      else (p, False, False))"

function params_loop ::
  "bool \<Rightarrow> transportParams \<Rightarrow> u64 list \<Rightarrow> reader \<Rightarrow> transportParams \<times> qerror option" where
  "params_loop isClient p seen r =
     (if rb r = [] then (p, None)
      else
        (let (pid, ra) = reader_varint r;
             (n, rc) = reader_varint ra;
             (v, rd) = reader_bytes n rc
         in if bad rd then (p, Some (transportErr errTransportParameter ''truncated transport parameters''))
            else if pid \<in> set seen then
              (p, Some (transportErr errTransportParameter ''duplicate transport parameter''))
            else
              (let (p', vbad, serverOnly) = param_step pid v p in
               if vbad then (p', Some (transportErr errTransportParameter ''invalid transport parameter''))
               else if serverOnly \<and> \<not> isClient then
                 (p', Some (transportErr errTransportParameter
                     ''server-only transport parameter from a client''))
               else params_loop isClient p' (pid # seen) rd)))"
  by pat_completeness auto

text \<open>A turn that goes on has read at least the identifier.\<close>

lemma params_turn_shrinks:
  assumes "reader_varint r = (pid, ra)" "reader_varint ra = (n, rc)" "reader_bytes n rc = (v, rd)"
    and "\<not> bad rd"
  shows "length (rb rd) < length (rb r)"
proof -
  have "\<not> bad ra" using assms reader_sticky by (metis snd_conv)
  then have "length (rb ra) < length (rb r)" using reader_varint_less assms(1) by blast
  moreover have "length (rb rc) \<le> length (rb ra)" "length (rb rd) \<le> length (rb rc)"
    using assms reader_shrinks by (metis snd_conv)+
  ultimately show ?thesis by linarith
qed

termination params_loop
  by (relation "measure (\<lambda>(c, p, seen, r). length (rb r))") (auto intro: params_turn_shrinks [OF sym sym sym])

declare params_loop.simps [simp del]

definition parseParams :: "bytes \<Rightarrow> bool \<Rightarrow> transportParams \<times> qerror option" where
  "parseParams b isClient = params_loop isClient defaultParams [] \<lparr>rb = b, bad = False\<rparr>"


section \<open>What is parsed is within the limits\<close>

lemma intValue_less: "intValue v = (n, False) \<Longrightarrow> n < 2 ^ 62"
  using reader_varint_less [of "\<lparr>rb = v, bad = False\<rparr>"]
  by (auto simp: intValue_def split: prod.splits)

text \<open>The Go product of a millisecond count that is small.\<close>

lemma sint_small: "unat (x :: u64) < 2 ^ 63 \<Longrightarrow> sint x = int (unat x)"
proof -
  assume "unat x < 2 ^ 63"
  then have "int (unat x) < int (2 ^ 63)" by (simp only: of_nat_less_iff)
  then have "int (unat x) < 2 ^ 63" by (simp only: of_nat_power of_nat_numeral)
  moreover have u: "uint x = int (unat x)" by simp
  moreover have "- (2 ^ 63) \<le> int (unat x)" by (rule order_trans [of _ 0]) simp_all
  ultimately have "signed_take_bit 63 (uint x) = uint x"
    by (intro signed_take_bit_int_eq_self) (simp_all only: u)
  moreover have "sint x = signed_take_bit 63 (uint x)" using sint_uint [of x] by simp
  ultimately show ?thesis by (simp only: u)
qed

lemma sint_ms:
  assumes "unat n * 1000000 < 2 ^ 63"
  shows "sint (n * 1000000 :: u64) = int (unat n) * Millisecond"
proof -
  have "unat n * unat (1000000 :: u64) < 2 ^ 64" using assms by simp
  then have u: "unat (n * 1000000) = unat n * 1000000"
    using unat_mult_lem [of n "1000000 :: u64"] by simp
  then have "sint (n * 1000000) = int (unat (n * 1000000))" using assms by (intro sint_small) simp
  with u show ?thesis by (simp add: Millisecond_def)
qed

definition params_ok :: "transportParams \<Rightarrow> bool" where
  "params_ok p \<longleftrightarrow>
     1200 \<le> tp_maxUDPPayloadSize p \<and> tp_ackDelayExponent p \<le> 20 \<and>
     0 \<le> tp_maxAckDelay p \<and> tp_maxAckDelay p < 2 ^ 14 * Millisecond \<and> 2 \<le> tp_activeCIDLimit p \<and>
     tp_maxStreamsBidi p \<le> 2 ^ 60 \<and> tp_maxStreamsUni p \<le> 2 ^ 60 \<and>
     tp_initialMaxData p \<le> maxVarint \<and> tp_maxStreamDataBidiL p \<le> maxVarint \<and>
     tp_maxStreamDataBidiR p \<le> maxVarint \<and> tp_maxStreamDataUni p \<le> maxVarint \<and>
     (\<forall>t. tp_statelessResetToken p = Some t \<longrightarrow> length t = statelessResetTokenLen)"

definition no_server_params :: "transportParams \<Rightarrow> bool" where
  "no_server_params p \<longleftrightarrow>
     \<not> tp_hasOriginalDCID p \<and> \<not> tp_hasRetrySCID p \<and> tp_statelessResetToken p = None"

lemma params_ok_updates:
  "params_ok p \<Longrightarrow> params_ok (p\<lparr>tp_originalDCID := v, tp_hasOriginalDCID := h\<rparr>)"
  "params_ok p \<Longrightarrow> params_ok (p\<lparr>tp_initialSCID := v, tp_hasInitialSCID := h\<rparr>)"
  "params_ok p \<Longrightarrow> params_ok (p\<lparr>tp_retrySCID := v, tp_hasRetrySCID := h\<rparr>)"
  "params_ok p \<Longrightarrow> params_ok (p\<lparr>tp_maxIdleTimeout := d\<rparr>)"
  "params_ok p \<Longrightarrow> params_ok (p\<lparr>tp_disableMigration := h\<rparr>)"
  "params_ok p \<Longrightarrow> length v = statelessResetTokenLen \<Longrightarrow> params_ok (p\<lparr>tp_statelessResetToken := Some v\<rparr>)"
  "params_ok p \<Longrightarrow> \<not> n < 1200 \<Longrightarrow> params_ok (p\<lparr>tp_maxUDPPayloadSize := n\<rparr>)"
  "params_ok p \<Longrightarrow> n \<le> maxVarint \<Longrightarrow> params_ok (p\<lparr>tp_initialMaxData := n\<rparr>)"
  "params_ok p \<Longrightarrow> n \<le> maxVarint \<Longrightarrow> params_ok (p\<lparr>tp_maxStreamDataBidiL := n\<rparr>)"
  "params_ok p \<Longrightarrow> n \<le> maxVarint \<Longrightarrow> params_ok (p\<lparr>tp_maxStreamDataBidiR := n\<rparr>)"
  "params_ok p \<Longrightarrow> n \<le> maxVarint \<Longrightarrow> params_ok (p\<lparr>tp_maxStreamDataUni := n\<rparr>)"
  "params_ok p \<Longrightarrow> \<not> n > 2 ^ 60 \<Longrightarrow> params_ok (p\<lparr>tp_maxStreamsBidi := n\<rparr>)"
  "params_ok p \<Longrightarrow> \<not> n > 2 ^ 60 \<Longrightarrow> params_ok (p\<lparr>tp_maxStreamsUni := n\<rparr>)"
  "params_ok p \<Longrightarrow> \<not> n > 20 \<Longrightarrow> params_ok (p\<lparr>tp_ackDelayExponent := n\<rparr>)"
  "params_ok p \<Longrightarrow> 0 \<le> d \<Longrightarrow> d < 2 ^ 14 * Millisecond \<Longrightarrow> params_ok (p\<lparr>tp_maxAckDelay := d\<rparr>)"
  "params_ok p \<Longrightarrow> \<not> n < 2 \<Longrightarrow> params_ok (p\<lparr>tp_activeCIDLimit := n\<rparr>)"
  by (simp_all add: params_ok_def)

lemma param_step_ok:
  assumes step: "param_step pid v p = (p', False, so)" and ok: "params_ok p"
  shows "params_ok p' \<and> (\<not> so \<and> no_server_params p \<longrightarrow> no_server_params p')"
proof -
  obtain n nb where iv: "intValue v = (n, nb)" by force
  have lt: "\<not> nb \<Longrightarrow> n \<le> maxVarint" using intValue_less [of v n] iv by (simp add: maxVarint_less)
  have ms: "n < 2 ^ 14 \<Longrightarrow> sint (n * 1000000) = int (unat n) * Millisecond \<and> unat n < 2 ^ 14"
    using sint_ms [of n] by (simp add: word_less_nat_alt)
  then have ms': "n < 2 ^ 14 \<Longrightarrow> 0 \<le> sint (n * 1000000) \<and> sint (n * 1000000) < 2 ^ 14 * Millisecond"
    by (simp add: Millisecond_def word_less_def)
  from step have "\<not> so \<and> no_server_params p \<longrightarrow> no_server_params p'"
    unfolding param_step_def iv prod.case Let_def by (auto simp: no_server_params_def split: if_split_asm)
  moreover from step have "params_ok p'"
    unfolding param_step_def iv prod.case Let_def
    using lt ms' ok by (auto intro!: params_ok_updates simp: not_less not_le split: if_split_asm)
  ultimately show ?thesis by blast
qed

lemma params_loop_ok:
  "params_loop c p seen r = (p', None) \<Longrightarrow> params_ok p \<Longrightarrow>
    params_ok p' \<and> (\<not> c \<and> no_server_params p \<longrightarrow> no_server_params p')"
proof (induction c p seen r rule: params_loop.induct)
  case (1 c p seen r)
  show ?case
  proof (cases "rb r = []")
    case True
    with "1.prems" show ?thesis by (simp add: params_loop.simps [of c p seen r])
  next
    case False
    obtain pid ra n rc v rd where rs: "reader_varint r = (pid, ra)" "reader_varint ra = (n, rc)"
      "reader_bytes n rc = (v, rd)" by (metis prod.collapse)
    obtain q vb so where st: "param_step pid v p = (q, vb, so)" by (metis prod.collapse)
    have go: "\<not> bad rd" "pid \<notin> set seen" "\<not> vb" "\<not> (so \<and> \<not> c)" "params_loop c q (pid # seen) rd = (p', None)"
      using "1.prems"(1) False unfolding params_loop.simps [of c p seen r]
      by (auto simp: rs st split: if_splits)
    have q: "params_ok q" "\<not> so \<and> no_server_params p \<longrightarrow> no_server_params q"
      using param_step_ok [of pid v p q so] st go(3) "1.prems"(2) by auto
    show ?thesis
      using "1.IH" [OF False rs(1) [symmetric] refl rs(2) [symmetric] refl rs(3) [symmetric] refl go(1,2)
          st [symmetric] refl refl go(3,4,5)] q go(4) by blast
  qed
qed



section \<open>Encoding and parsing\<close>

definition param_chunk :: "bool \<Rightarrow> u64 \<Rightarrow> bytes \<Rightarrow> bytes" where
  "param_chunk h pid v = (if h then AppendVarint [] pid @ AppendVarint [] (of_nat (length v)) @ v else [])"

lemma appendParam_chunk:
  "appendParamBytes b pid v = b @ param_chunk True pid v"
  "appendParamVarint b pid n = b @ param_chunk True pid (AppendVarint [] n)"
  by (simp_all add: appendParamBytes_def appendParamVarint_def param_chunk_def
      AppendVarint_append [of "_ @ _"] AppendVarint_append [of "AppendVarint _ _"] AppendVarint_append [of b])

lemma param_chunk_opt:
  "(if h then b @ param_chunk True pid v else b) = b @ param_chunk h pid v"
  "(case t of None \<Rightarrow> b | Some x \<Rightarrow> b @ param_chunk True pid x) = b @ param_chunk (t \<noteq> None) pid (the t)"
  by (simp_all add: param_chunk_def split: option.splits)

lemma encode_chunks:
  "encode p =
     param_chunk (tp_hasOriginalDCID p) paramOriginalDCID (tp_originalDCID p) @
     param_chunk (tp_maxIdleTimeout p > 0) paramMaxIdleTimeout
       (AppendVarint [] (word_of_int (tp_maxIdleTimeout p div Millisecond))) @
     param_chunk (tp_statelessResetToken p \<noteq> None) paramStatelessResetToken (the (tp_statelessResetToken p)) @
     param_chunk True paramInitialMaxData (AppendVarint [] (tp_initialMaxData p)) @
     param_chunk True paramMaxStreamDataBidiLoc (AppendVarint [] (tp_maxStreamDataBidiL p)) @
     param_chunk True paramMaxStreamDataBidiRem (AppendVarint [] (tp_maxStreamDataBidiR p)) @
     param_chunk True paramMaxStreamDataUni (AppendVarint [] (tp_maxStreamDataUni p)) @
     param_chunk True paramInitialMaxStreamsBidi (AppendVarint [] (tp_maxStreamsBidi p)) @
     param_chunk True paramInitialMaxStreamsUni (AppendVarint [] (tp_maxStreamsUni p)) @
     param_chunk (tp_disableMigration p) paramDisableMigration [] @
     param_chunk (tp_hasInitialSCID p) paramInitialSCID (tp_initialSCID p) @
     param_chunk (tp_hasRetrySCID p) paramRetrySCID (tp_retrySCID p) @ []"
  unfolding encode_def Let_def appendParam_chunk param_chunk_opt by simp

text \<open>One turn of the parser on a chunk, written or left out.\<close>

lemma params_loop_chunk:
  assumes "pid < 2 ^ 62" "h \<Longrightarrow> length v < 2 ^ 62" "h \<Longrightarrow> pid \<notin> set seen"
    and "h \<Longrightarrow> param_step pid v p = (p', False, so) \<and> (so \<longrightarrow> c)" "\<not> h \<Longrightarrow> p' = p"
  shows "params_loop c p seen \<lparr>rb = param_chunk h pid v @ rest, bad = False\<rparr> =
    params_loop c p' (if h then pid # seen else seen) \<lparr>rb = rest, bad = False\<rparr>"
proof (cases h)
  case True
  define n :: u64 where "n = of_nat (length v)"
  have len: "length v = unat n" using assms(2) True by (simp add: n_def unsigned_of_nat take_bit_nat_eq_self)
  then have n: "n < 2 ^ 62" using assms(2) True by (simp add: word_less_nat_alt)
  let ?r = "\<lparr>rb = AppendVarint [] pid @ AppendVarint [] n @ v @ rest, bad = False\<rparr>"
  have rs: "reader_varint ?r = (pid, \<lparr>rb = AppendVarint [] n @ v @ rest, bad = False\<rparr>)"
    "reader_varint \<lparr>rb = AppendVarint [] n @ v @ rest, bad = False\<rparr> = (n, \<lparr>rb = v @ rest, bad = False\<rparr>)"
    "reader_bytes n \<lparr>rb = v @ rest, bad = False\<rparr> = (v, \<lparr>rb = rest, bad = False\<rparr>)"
    using assms(1) n len by (simp_all add: codec_simps)
  have "AppendVarint [] pid \<noteq> []" by (simp add: AppendVarint_def)
  then show ?thesis using True assms(3) assms(4)
    by (auto simp: param_chunk_def n_def [symmetric] params_loop.simps [of c p seen ?r] rs)
qed (simp add: assms(5) param_chunk_def)

lemma intValue_AppendVarint: "n < 2 ^ 62 \<Longrightarrow> intValue (AppendVarint [] n) = (n, False)"
  using reader_varint_AppendVarint [of n "\<lparr>rb = AppendVarint [] n, bad = False\<rparr>" "[]"]
  by (simp add: intValue_def)

lemma set_if_Cons: "x \<in> set (if h then a # s else s) \<longleftrightarrow> h \<and> x = a \<or> x \<in> set s"
  by simp

text \<open>What the peer makes of \<open>p\<close>: what is not sent has its default, and the idle timeout is cut to milliseconds.\<close>

definition as_received :: "transportParams \<Rightarrow> transportParams" where
  "as_received p =
     defaultParams\<lparr>
       tp_originalDCID := (if tp_hasOriginalDCID p then tp_originalDCID p else []),
       tp_hasOriginalDCID := tp_hasOriginalDCID p,
       tp_maxIdleTimeout := (if tp_maxIdleTimeout p > 0 then tp_maxIdleTimeout p div Millisecond * Millisecond else 0),
       tp_statelessResetToken := tp_statelessResetToken p,
       tp_initialMaxData := tp_initialMaxData p, tp_maxStreamDataBidiL := tp_maxStreamDataBidiL p,
       tp_maxStreamDataBidiR := tp_maxStreamDataBidiR p, tp_maxStreamDataUni := tp_maxStreamDataUni p,
       tp_maxStreamsBidi := tp_maxStreamsBidi p, tp_maxStreamsUni := tp_maxStreamsUni p,
       tp_disableMigration := tp_disableMigration p,
       tp_initialSCID := (if tp_hasInitialSCID p then tp_initialSCID p else []),
       tp_hasInitialSCID := tp_hasInitialSCID p,
       tp_retrySCID := (if tp_hasRetrySCID p then tp_retrySCID p else []),
       tp_hasRetrySCID := tp_hasRetrySCID p\<rparr>"

lemma idle_timeout_received:
  assumes "0 < t" "t < 2 ^ 63"
  defines "w \<equiv> word_of_int (t div Millisecond) :: u64"
  shows "sint (w * 1000000) = t div Millisecond * Millisecond" "w < 2 ^ 62"
proof -
  have "0 \<le> t div 1000000" "t div 1000000 * 1000000 \<le> t" using assms(1) by simp_all
  then have b: "0 \<le> t div Millisecond" "t div Millisecond * 1000000 \<le> t"
    by (simp_all only: Millisecond_def)
  then have lt: "t div Millisecond < 2 ^ 62" using assms(2) by simp
  have u: "uint w = t div Millisecond"
    unfolding w_def uint_word_of_int_eq by (rule take_bit_int_eq_self) (use b lt in simp_all)
  then have n: "int (unat w) = t div Millisecond" by simp
  then have "int (unat w * 1000000) < int (2 ^ 63)"
    using b assms(2) by (simp only: of_nat_mult n of_nat_power of_nat_numeral)
  then show "sint (w * 1000000) = t div Millisecond * Millisecond"
    using sint_ms [of w] by (simp only: of_nat_less_iff n)
  show "w < 2 ^ 62" using u lt by (simp add: word_less_def)
qed

text \<open>The turns of the parser on what \<open>encode\<close> writes, as rewrite rules.\<close>

lemma int_chunk:
  assumes "pid < 2 ^ 62" "n < 2 ^ 62" "pid \<notin> set seen" "param_step pid (AppendVarint [] n) q = (q', False, False)"
  shows "params_loop c q seen \<lparr>rb = param_chunk True pid (AppendVarint [] n) @ rest, bad = False\<rparr> =
    params_loop c q' (pid # seen) \<lparr>rb = rest, bad = False\<rparr>"
  using params_loop_chunk [of pid True "AppendVarint [] n" seen q q' False c rest] assms
  by (simp add: VarintLen_def)

lemma turn_originalDCID:
  "paramOriginalDCID \<notin> set seen \<Longrightarrow> length v < 2 ^ 62 \<Longrightarrow> h \<longrightarrow> c \<Longrightarrow>
    params_loop c q seen \<lparr>rb = param_chunk h paramOriginalDCID v @ rest, bad = False\<rparr> =
    params_loop c (q\<lparr>tp_originalDCID := (if h then v else tp_originalDCID q),
      tp_hasOriginalDCID := (h \<or> tp_hasOriginalDCID q)\<rparr>) (if h then paramOriginalDCID # seen else seen) \<lparr>rb = rest, bad = False\<rparr>"
  by (rule params_loop_chunk [where so = True]) (auto simp: param_step_def param_ids split: prod.splits)

lemma turn_initialSCID:
  "paramInitialSCID \<notin> set seen \<Longrightarrow> length v < 2 ^ 62 \<Longrightarrow>
    params_loop c q seen \<lparr>rb = param_chunk h paramInitialSCID v @ rest, bad = False\<rparr> =
    params_loop c (q\<lparr>tp_initialSCID := (if h then v else tp_initialSCID q),
      tp_hasInitialSCID := (h \<or> tp_hasInitialSCID q)\<rparr>) (if h then paramInitialSCID # seen else seen) \<lparr>rb = rest, bad = False\<rparr>"
  by (rule params_loop_chunk [where so = False]) (auto simp: param_step_def param_ids split: prod.splits)

lemma turn_retrySCID:
  "paramRetrySCID \<notin> set seen \<Longrightarrow> length v < 2 ^ 62 \<Longrightarrow> h \<longrightarrow> c \<Longrightarrow>
    params_loop c q seen \<lparr>rb = param_chunk h paramRetrySCID v @ rest, bad = False\<rparr> =
    params_loop c (q\<lparr>tp_retrySCID := (if h then v else tp_retrySCID q),
      tp_hasRetrySCID := (h \<or> tp_hasRetrySCID q)\<rparr>) (if h then paramRetrySCID # seen else seen) \<lparr>rb = rest, bad = False\<rparr>"
  by (rule params_loop_chunk [where so = True]) (auto simp: param_step_def param_ids split: prod.splits)

lemma turn_disableMigration:
  "paramDisableMigration \<notin> set seen \<Longrightarrow> 
    params_loop c q seen \<lparr>rb = param_chunk h paramDisableMigration [] @ rest, bad = False\<rparr> =
    params_loop c (q\<lparr>tp_disableMigration := (h \<or> tp_disableMigration q)\<rparr>) (if h then paramDisableMigration # seen else seen) \<lparr>rb = rest, bad = False\<rparr>"
  by (rule params_loop_chunk [where so = False]) (auto simp: param_step_def param_ids split: prod.splits)

lemma turn_token:
  "paramStatelessResetToken \<notin> set seen \<Longrightarrow> t \<noteq> None \<longrightarrow> c \<and> length (the t) = statelessResetTokenLen \<Longrightarrow>
    params_loop c q seen \<lparr>rb = param_chunk (t \<noteq> None) paramStatelessResetToken (the t) @ rest, bad = False\<rparr> =
    params_loop c (q\<lparr>tp_statelessResetToken := (if t \<noteq> None then t else tp_statelessResetToken q)\<rparr>) (if (t \<noteq> None) then paramStatelessResetToken # seen else seen) \<lparr>rb = rest, bad = False\<rparr>"
  by (rule params_loop_chunk [where so = True])
    (auto simp: param_step_def param_ids statelessResetTokenLen_def split: prod.splits)

lemma turn_initialMaxData:
  "paramInitialMaxData \<notin> set seen \<Longrightarrow> n < 2 ^ 62 \<Longrightarrow> 
    params_loop c q seen \<lparr>rb = param_chunk True paramInitialMaxData (AppendVarint [] n) @ rest, bad = False\<rparr> =
    params_loop c (q\<lparr>tp_initialMaxData := n\<rparr>) (paramInitialMaxData # seen) \<lparr>rb = rest, bad = False\<rparr>"
  by (rule int_chunk) (simp_all add: param_step_def param_ids intValue_AppendVarint)

lemma turn_maxStreamDataBidiL:
  "paramMaxStreamDataBidiLoc \<notin> set seen \<Longrightarrow> n < 2 ^ 62 \<Longrightarrow> 
    params_loop c q seen \<lparr>rb = param_chunk True paramMaxStreamDataBidiLoc (AppendVarint [] n) @ rest, bad = False\<rparr> =
    params_loop c (q\<lparr>tp_maxStreamDataBidiL := n\<rparr>) (paramMaxStreamDataBidiLoc # seen) \<lparr>rb = rest, bad = False\<rparr>"
  by (rule int_chunk) (simp_all add: param_step_def param_ids intValue_AppendVarint)

lemma turn_maxStreamDataBidiR:
  "paramMaxStreamDataBidiRem \<notin> set seen \<Longrightarrow> n < 2 ^ 62 \<Longrightarrow> 
    params_loop c q seen \<lparr>rb = param_chunk True paramMaxStreamDataBidiRem (AppendVarint [] n) @ rest, bad = False\<rparr> =
    params_loop c (q\<lparr>tp_maxStreamDataBidiR := n\<rparr>) (paramMaxStreamDataBidiRem # seen) \<lparr>rb = rest, bad = False\<rparr>"
  by (rule int_chunk) (simp_all add: param_step_def param_ids intValue_AppendVarint)

lemma turn_maxStreamDataUni:
  "paramMaxStreamDataUni \<notin> set seen \<Longrightarrow> n < 2 ^ 62 \<Longrightarrow> 
    params_loop c q seen \<lparr>rb = param_chunk True paramMaxStreamDataUni (AppendVarint [] n) @ rest, bad = False\<rparr> =
    params_loop c (q\<lparr>tp_maxStreamDataUni := n\<rparr>) (paramMaxStreamDataUni # seen) \<lparr>rb = rest, bad = False\<rparr>"
  by (rule int_chunk) (simp_all add: param_step_def param_ids intValue_AppendVarint)

lemma turn_maxStreamsBidi:
  "paramInitialMaxStreamsBidi \<notin> set seen \<Longrightarrow> n < 2 ^ 62 \<Longrightarrow> \<not> n > 2 ^ 60 \<Longrightarrow>
    params_loop c q seen \<lparr>rb = param_chunk True paramInitialMaxStreamsBidi (AppendVarint [] n) @ rest, bad = False\<rparr> =
    params_loop c (q\<lparr>tp_maxStreamsBidi := n\<rparr>) (paramInitialMaxStreamsBidi # seen) \<lparr>rb = rest, bad = False\<rparr>"
  by (rule int_chunk) (simp_all add: param_step_def param_ids intValue_AppendVarint)

lemma turn_maxStreamsUni:
  "paramInitialMaxStreamsUni \<notin> set seen \<Longrightarrow> n < 2 ^ 62 \<Longrightarrow> \<not> n > 2 ^ 60 \<Longrightarrow>
    params_loop c q seen \<lparr>rb = param_chunk True paramInitialMaxStreamsUni (AppendVarint [] n) @ rest, bad = False\<rparr> =
    params_loop c (q\<lparr>tp_maxStreamsUni := n\<rparr>) (paramInitialMaxStreamsUni # seen) \<lparr>rb = rest, bad = False\<rparr>"
  by (rule int_chunk) (simp_all add: param_step_def param_ids intValue_AppendVarint)

lemma idle_timeout_value:
  "0 < t \<Longrightarrow> t < 2 ^ 63 \<Longrightarrow>
    intValue (AppendVarint [] (word_of_int (t div Millisecond))) = (word_of_int (t div Millisecond), False)"
  by (rule intValue_AppendVarint, rule idle_timeout_received)

lemma turn_maxIdleTimeout:
  "paramMaxIdleTimeout \<notin> set seen \<Longrightarrow> t < 2 ^ 63 \<Longrightarrow>
    params_loop c q seen \<lparr>rb = param_chunk (t > 0) paramMaxIdleTimeout
      (AppendVarint [] (word_of_int (t div Millisecond))) @ rest, bad = False\<rparr> =
    params_loop c (q\<lparr>tp_maxIdleTimeout := (if t > 0 then t div Millisecond * Millisecond else tp_maxIdleTimeout q)\<rparr>)
      (if t > 0 then paramMaxIdleTimeout # seen else seen) \<lparr>rb = rest, bad = False\<rparr>"
  by (rule params_loop_chunk [where so = False])
    (simp_all add: param_step_def param_ids idle_timeout_value idle_timeout_received VarintLen_def)

lemmas param_turns =
  turn_originalDCID turn_initialSCID turn_retrySCID turn_disableMigration turn_token
  turn_initialMaxData turn_maxStreamDataBidiL turn_maxStreamDataBidiR turn_maxStreamDataUni
  turn_maxStreamsBidi turn_maxStreamsUni turn_maxIdleTimeout

lemma params_loop_end: "params_loop c q seen \<lparr>rb = [], bad = False\<rparr> = (q, None)"
  by (simp add: params_loop.simps)

lemma seen_if: "set (if h then x # s else s) = (if h then insert x (set s) else set s)"
  by simp

text \<open>
  C32. Transport parameters round trip: what \<open>encode\<close> writes is parsed without an error to the same
  values, with the defaults for what is not written and the idle timeout in whole milliseconds; at a
  server, as long as no parameter is there that only a server sends.
\<close>

theorem params_roundtrip:
  assumes vals: "tp_initialMaxData p \<le> maxVarint" "tp_maxStreamDataBidiL p \<le> maxVarint"
      "tp_maxStreamDataBidiR p \<le> maxVarint" "tp_maxStreamDataUni p \<le> maxVarint"
      "tp_maxStreamsBidi p \<le> 2 ^ 60" "tp_maxStreamsUni p \<le> 2 ^ 60"
    and idle: "tp_maxIdleTimeout p < 2 ^ 63"
    and tok: "case tp_statelessResetToken p of None \<Rightarrow> True | Some t \<Rightarrow> length t = statelessResetTokenLen"
    and cids: "length (tp_originalDCID p) < 2 ^ 62" "length (tp_initialSCID p) < 2 ^ 62" "length (tp_retrySCID p) < 2 ^ 62"
    and role: "isClient \<or> no_server_params p"
  shows "parseParams (encode p) isClient = (as_received p, None)"
proof -
  have s62: "tp_maxStreamsBidi p < 2 ^ 62" "tp_maxStreamsUni p < 2 ^ 62"
    using vals(5,6) by (simp_all add: word_le_nat_alt word_less_nat_alt)
  have tok': "tp_statelessResetToken p \<noteq> None \<longrightarrow>
      isClient \<and> length (the (tp_statelessResetToken p)) = statelessResetTokenLen"
    using tok role by (auto simp: no_server_params_def split: option.splits)
  have role': "tp_hasOriginalDCID p \<longrightarrow> isClient" "tp_hasRetrySCID p \<longrightarrow> isClient"
    using role by (auto simp: no_server_params_def)
  note turns = param_turns [unfolded param_ids]
  show ?thesis
    unfolding parseParams_def encode_chunks param_ids
    using vals s62 idle tok' cids role'
    by (simp add: turns seen_if maxVarint_less params_loop_end not_less del: not_None_eq append_Nil2)
      (simp add: as_received_def defaultParams_def)
qed

theorem params_roundtrip_witness:
  "parseParams (encode (defaultParams\<lparr>tp_maxIdleTimeout := 30000 * Millisecond, tp_maxStreamsBidi := 100,
       tp_hasInitialSCID := True, tp_initialSCID := [1, 2, 3]\<rparr>)) False =
     (defaultParams\<lparr>tp_maxIdleTimeout := 30000 * Millisecond, tp_maxStreamsBidi := 100,
       tp_hasInitialSCID := True, tp_initialSCID := [1, 2, 3]\<rparr>, None)"
  using params_roundtrip [of "defaultParams\<lparr>tp_maxIdleTimeout := 30000 * Millisecond, tp_maxStreamsBidi := 100,
       tp_hasInitialSCID := True, tp_initialSCID := [1, 2, 3]\<rparr>" False]
  by (simp add: defaultParams_def as_received_def maxVarint_def no_server_params_def Millisecond_def)


end
