(* ===== verification/Quic_State.thy ===== *)
theory Quic_State
  imports Stream_Buffers Trans_Params
begin

text \<open>
  The state of a QUIC connection: the records of \<open>conn.go\<close>, \<open>stream.go\<close> and \<open>recovery.go\<close> under
  \<open>src/go/http3/internal/quic\<close>, its construction, and the way it ends.

  \<^item> A \<open>time.Time\<close> is the number of nanoseconds since the zero \<open>Time\<close>, so that \<open>IsZero\<close> is \<open>t = 0\<close>; a
    \<open>time.Duration\<close> is a number of nanoseconds.
  \<^item> \<open>*Stream\<close> pointers are stream IDs into \<open>c_store\<close>, which holds every \<open>Stream\<close> object of the connection:
    an ID is used for one stream only, and packets in flight keep pointing at a stream that the map
    \<open>c.streams\<close>, here the list \<open>c_streams\<close> of its keys, has let go.
  \<^item> What a method does to the outside is recorded: \<open>c_out\<close> are the datagrams given to the \<open>PacketConn\<close>,
    \<open>c_events\<close> the handler calls queued for \<open>dispatch\<close>, \<open>c_timer\<close> when the timer fires.
  \<^item> TLS is \<open>crypto/tls\<close>: its answers to the calls of this package, and the events it has waiting, are a
    script the state carries; what it was given is recorded.
  \<^item> A Go map is visited in no particular order: where the order shows, \<open>qe_range\<close> is the order taken.
\<close>

type_synonym time = int
type_synonym duration = int

section \<open>Constants\<close>

definition maxDatagram :: nat where "maxDatagram = 1200"

definition framePadding :: byte where "framePadding = 0x00"
definition framePing :: byte where "framePing = 0x01"
definition frameAck :: byte where "frameAck = 0x02"
definition frameAckECN :: byte where "frameAckECN = 0x03"
definition frameResetStream :: byte where "frameResetStream = 0x04"
definition frameStopSending :: byte where "frameStopSending = 0x05"
definition frameCrypto :: byte where "frameCrypto = 0x06"
definition frameNewToken :: byte where "frameNewToken = 0x07"
definition frameStream :: byte where "frameStream = 0x08"
definition frameMaxData :: byte where "frameMaxData = 0x10"
definition frameMaxStreamData :: byte where "frameMaxStreamData = 0x11"
definition frameMaxStreamsBidi :: byte where "frameMaxStreamsBidi = 0x12"
definition frameMaxStreamsUni :: byte where "frameMaxStreamsUni = 0x13"
definition frameDataBlocked :: byte where "frameDataBlocked = 0x14"
definition frameStreamDataBlocked :: byte where "frameStreamDataBlocked = 0x15"
definition frameStreamsBlockedBidi :: byte where "frameStreamsBlockedBidi = 0x16"
definition frameStreamsBlockedUni :: byte where "frameStreamsBlockedUni = 0x17"
definition frameNewConnectionID :: byte where "frameNewConnectionID = 0x18"
definition frameRetireConnectionID :: byte where "frameRetireConnectionID = 0x19"
definition framePathChallenge :: byte where "framePathChallenge = 0x1a"
definition framePathResponse :: byte where "framePathResponse = 0x1b"
definition frameConnectionClose :: byte where "frameConnectionClose = 0x1c"
definition frameConnectionCloseApp :: byte where "frameConnectionCloseApp = 0x1d"
definition frameHandshakeDone :: byte where "frameHandshakeDone = 0x1e"

lemmas frame_types =
  framePadding_def framePing_def frameAck_def frameAckECN_def frameResetStream_def
  frameStopSending_def frameCrypto_def frameNewToken_def frameStream_def frameMaxData_def
  frameMaxStreamData_def frameMaxStreamsBidi_def frameMaxStreamsUni_def frameDataBlocked_def
  frameStreamDataBlocked_def frameStreamsBlockedBidi_def frameStreamsBlockedUni_def
  frameNewConnectionID_def frameRetireConnectionID_def framePathChallenge_def
  framePathResponse_def frameConnectionClose_def frameConnectionCloseApp_def frameHandshakeDone_def

definition packetThreshold :: u64 where "packetThreshold = 3"
definition timerGranularity :: duration where "timerGranularity = Millisecond"
definition initialRTT :: duration where "initialRTT = 333 * Millisecond"
definition minCongestionWindow :: u64 where "minCongestionWindow = 2 * of_nat maxDatagram"
definition initialCongestionWindow :: u64 where "initialCongestionWindow = 10 * of_nat maxDatagram"
definition maxProbes :: int where "maxProbes = 2"
definition maxBufferedPackets :: nat where "maxBufferedPackets = 16"
definition maxCryptoBuffer :: u64 where "maxCryptoBuffer = 65536"
definition maxPathResponses :: nat where "maxPathResponses = 4"

section \<open>Records\<close>

datatype sf_kind =
    sfCrypto | sfStream | sfMaxData | sfMaxStreamData | sfMaxStreamsBidi | sfMaxStreamsUni
  | sfResetStream | sfStopSending | sfHandshakeDone | sfRetireCID

record sentFrame =
  f_kind :: sf_kind
  f_fin :: bool
  f_stream :: u64
  f_off :: u64
  f_n :: u64

record sentPacket =
  p_pn :: u64
  p_time :: time
  p_size :: nat
  p_ackEliciting :: bool
  p_inFlight :: bool
  p_frames :: "sentFrame list"

record rttStats =
  rtt_latest :: duration
  rtt_smoothed :: duration
  rtt_rttvar :: duration
  rtt_min :: duration
  rtt_hasSample :: bool

record newReno =
  cwnd :: u64
  ssthresh :: u64
  bytesInFlight :: u64
  recoveryStart :: time

record pnSpace =
  n_tx :: "keys option"
  n_rx :: "keys option"
  n_discarded :: bool
  n_nextPN :: u64
  n_largestAcked :: int
  n_sent :: "sentPacket list"
  n_ackElicitingInFlight :: int
  n_lossTime :: time
  n_lastAckElicitingSent :: time
  n_probes :: int
  n_recv :: "pnRange list"
  n_largestRecvTime :: time
  n_ackPending :: bool
  n_ackNow :: bool
  n_unackedEliciting :: int
  n_ackDeadline :: time
  n_cryptoSend :: qsendBuffer
  n_cryptoRecv :: recvBuffer

record qstream =
  s_hasSend :: bool
  s_send :: qsendBuffer
  s_sendMax :: u64
  s_finQueued :: bool
  s_finSent :: bool
  s_finAcked :: bool
  s_reset :: bool
  s_resetPending :: bool
  s_resetAcked :: bool
  s_resetCode :: u64
  s_finalSize :: u64
  s_hasRecv :: bool
  s_recv :: recvBuffer
  s_recvMax :: u64
  s_recvHigh :: u64
  s_recvFin :: int
  s_recvDone :: bool
  s_peerReset :: bool
  s_maxDataPending :: bool
  s_stopPending :: bool
  s_stopSent :: bool
  s_stopCode :: u64
  s_recvRead :: u64
  s_queued :: bool
  s_done :: bool

record qconfig =
  cf_hasTLSConfig :: bool
  cf_MaxIdleTimeout :: duration
  cf_HandshakeTimeout :: duration
  cf_KeepAlivePeriod :: duration
  cf_MaxIncomingStreams :: u64
  cf_MaxIncomingUniStreams :: u64
  cf_StreamReceiveWindow :: u64
  cf_ConnReceiveWindow :: u64
  cf_ResetKey :: "bytes option"
  cf_SessionTicketsDisabled :: bool

record peerCID =
  pc_cid :: bytes
  pc_token :: "bytes option"

text \<open>The handler calls of \<open>Handler\<close>, and what TLS delivers and is told.\<close>

datatype qevent =
    OnHandshake
  | OnStreamData u64 bytes bool
  | OnStreamReset u64 u64
  | OnStopSending u64 u64
  | OnStreamsAvailable
  | OnClose qerror

datatype qlevel = LevelInitial | LevelEarly | LevelHandshake | LevelApplication

datatype tls_event =
    QUICSetReadSecret qlevel suite bytes
  | QUICSetWriteSecret qlevel suite bytes
  | QUICWriteData qlevel bytes
  | QUICTransportParameters bytes
  | QUICTransportParametersRequired
  | QUICHandshakeDone
  | QUICOtherEvent

datatype tls_failure = AlertError byte bytes | OtherFailure bytes

datatype tls_call =
    SetTransportParameters bytes
  | TLSStart
  | HandleData qlevel bytes
  | SendSessionTicket

record tls_conn =
  t_events :: "tls_event list"
  t_answers :: "(tls_failure option \<times> tls_event list) list"
  t_calls :: "tls_call list"

record quic_env =
  qe_crypto :: crypto
  qe_range :: "u64 list \<Rightarrow> u64 list"

record qconn =
  c_config :: qconfig
  c_isClient :: bool
  c_tls :: tls_conn
  c_scid :: bytes
  c_dcid :: bytes
  c_odcid :: bytes
  c_retrySCID :: "bytes option"
  c_token :: bytes
  c_heardPeer :: bool
  c_peerCIDs :: "(u64 \<times> peerCID) list"
  c_dcidSeq :: u64
  c_retiredPrior :: u64
  c_retireCIDs :: "u64 list"
  c_peerResetToken :: "bytes option"
  c_spaces :: "space \<Rightarrow> pnSpace"
  c_handshakeComplete :: bool
  c_handshakeConfirmed :: bool
  c_addressValidated :: bool
  c_bytesRecv :: u64
  c_bytesSent :: u64
  c_local :: transportParams
  c_peerParams :: "transportParams option"
  c_keyPhase :: bool
  c_prevRx :: "keys option"
  c_nextRx :: "keys option"
  c_phaseStart :: u64
  c_rtt :: rttStats
  c_cc :: newReno
  c_ptoCount :: nat
  c_lossDeadline :: time
  c_timer :: "time option"
  c_peerMaxData :: u64
  c_sentData :: u64
  c_recvMaxData :: u64
  c_recvData :: u64
  c_recvConsumed :: u64
  c_maxDataPending :: bool
  c_store :: "u64 \<Rightarrow> qstream"
  c_streams :: "u64 list"
  c_openedBidi :: u64
  c_openedUni :: u64
  c_peerMaxBidi :: u64
  c_peerMaxUni :: u64
  c_peerOpenedBidi :: u64
  c_peerOpenedUni :: u64
  c_peerDoneBidi :: u64
  c_peerDoneUni :: u64
  c_maxBidi :: u64
  c_maxUni :: u64
  c_maxStreamsBidiPending :: bool
  c_maxStreamsUniPending :: bool
  c_sendQueue :: "u64 list"
  c_handshakeDonePending :: bool
  c_pingPending :: bool
  c_pathResponses :: "bytes list"
  c_created :: time
  c_idleTimeout :: duration
  c_lastActivity :: time
  c_sentSinceRecv :: bool
  c_closed :: bool
  c_closeErr :: "qerror option"
  c_closeWhenDone :: "qerror option"
  c_events :: "qevent list"
  c_buffered :: "bytes list"
  c_out :: "bytes list"

text \<open>Updating one stream object, one packet number space.\<close>

definition upd_stream :: "u64 \<Rightarrow> (qstream \<Rightarrow> qstream) \<Rightarrow> qconn \<Rightarrow> qconn" where
  "upd_stream sid f c = c\<lparr>c_store := (c_store c)(sid := f (c_store c sid))\<rparr>"

definition upd_space :: "space \<Rightarrow> (pnSpace \<Rightarrow> pnSpace) \<Rightarrow> qconn \<Rightarrow> qconn" where
  "upd_space sp f c = c\<lparr>c_spaces := (c_spaces c)(sp := f (c_spaces c sp))\<rparr>"

definition all_spaces :: "space list" where
  "all_spaces = [spaceInitial, spaceHandshake, spaceApp]"

section \<open>Construction\<close>

definition noSend :: qsendBuffer where
  "noSend = \<lparr>base = 0, buf = [], nextoff = 0, lost = [], acked = []\<rparr>"

definition noRecv :: recvBuffer where
  "noRecv = \<lparr>rb_offset = 0, segments = [], buffered = 0\<rparr>"

definition zeroSpace :: pnSpace where
  "zeroSpace =
     \<lparr>n_tx = None, n_rx = None, n_discarded = False, n_nextPN = 0, n_largestAcked = 0, n_sent = [],
      n_ackElicitingInFlight = 0, n_lossTime = 0, n_lastAckElicitingSent = 0, n_probes = 0, n_recv = [],
      n_largestRecvTime = 0, n_ackPending = False, n_ackNow = False, n_unackedEliciting = 0,
      n_ackDeadline = 0, n_cryptoSend = noSend, n_cryptoRecv = noRecv\<rparr>"

definition zeroStream :: qstream where
  "zeroStream =
     \<lparr>s_hasSend = False, s_send = noSend, s_sendMax = 0, s_finQueued = False, s_finSent = False,
      s_finAcked = False, s_reset = False, s_resetPending = False, s_resetAcked = False, s_resetCode = 0,
      s_finalSize = 0, s_hasRecv = False, s_recv = noRecv, s_recvMax = 0, s_recvHigh = 0, s_recvFin = -1,
      s_recvDone = False, s_peerReset = False, s_maxDataPending = False, s_stopPending = False,
      s_stopSent = False, s_stopCode = 0, s_recvRead = 0, s_queued = False, s_done = False\<rparr>"

definition newRTTStats :: rttStats where
  "newRTTStats =
     \<lparr>rtt_latest = 0, rtt_smoothed = initialRTT, rtt_rttvar = initialRTT div 2, rtt_min = 0, rtt_hasSample = False\<rparr>"

definition newNewReno :: newReno where
  "newNewReno = \<lparr>cwnd = initialCongestionWindow, ssthresh = NOT 0, bytesInFlight = 0, recoveryStart = 0\<rparr>"

definition withDefaults :: "qconfig \<Rightarrow> qconfig" where
  "withDefaults g =
     g\<lparr>cf_MaxIdleTimeout := (if cf_MaxIdleTimeout g \<le> 0 then 30000 * Millisecond else cf_MaxIdleTimeout g),
       cf_HandshakeTimeout := (if cf_HandshakeTimeout g \<le> 0 then 10000 * Millisecond else cf_HandshakeTimeout g),
       cf_MaxIncomingStreams := (if cf_MaxIncomingStreams g = 0 then 100 else cf_MaxIncomingStreams g),
       cf_MaxIncomingUniStreams := (if cf_MaxIncomingUniStreams g = 0 then 16 else cf_MaxIncomingUniStreams g),
       cf_StreamReceiveWindow := (if cf_StreamReceiveWindow g = 0 then 2 ^ 20 else cf_StreamReceiveWindow g),
       cf_ConnReceiveWindow := (if cf_ConnReceiveWindow g = 0 then 16 * 2 ^ 20 else cf_ConnReceiveWindow g)\<rparr>"

text \<open>\<open>cid\<close> is what \<open>randomCID\<close> returned, \<open>tls\<close> the TLS side at its start.\<close>

definition newConn :: "qconfig \<Rightarrow> bool \<Rightarrow> bytes \<Rightarrow> tls_conn \<Rightarrow> time \<Rightarrow> qconn" where
  "newConn config0 isClient cid tls now =
     (let config = withDefaults config0 in
      \<lparr>c_config = config, c_isClient = isClient, c_tls = tls, c_scid = cid, c_dcid = [], c_odcid = [],
       c_retrySCID = None, c_token = [], c_heardPeer = False, c_peerCIDs = [], c_dcidSeq = 0,
       c_retiredPrior = 0, c_retireCIDs = [], c_peerResetToken = None,
       c_spaces = (\<lambda>_. zeroSpace\<lparr>n_largestAcked := -1\<rparr>),
       c_handshakeComplete = False, c_handshakeConfirmed = False, c_addressValidated = False,
       c_bytesRecv = 0, c_bytesSent = 0,
       c_local = defaultParams\<lparr>tp_maxIdleTimeout := cf_MaxIdleTimeout config,
         tp_initialMaxData := cf_ConnReceiveWindow config,
         tp_maxStreamDataBidiL := cf_StreamReceiveWindow config,
         tp_maxStreamDataBidiR := cf_StreamReceiveWindow config,
         tp_maxStreamDataUni := cf_StreamReceiveWindow config,
         tp_maxStreamsBidi := cf_MaxIncomingStreams config,
         tp_maxStreamsUni := cf_MaxIncomingUniStreams config,
         tp_initialSCID := cid, tp_hasInitialSCID := True\<rparr>,
       c_peerParams = None, c_keyPhase = False, c_prevRx = None, c_nextRx = None, c_phaseStart = 0,
       c_rtt = newRTTStats, c_cc = newNewReno, c_ptoCount = 0, c_lossDeadline = 0, c_timer = None,
       c_peerMaxData = 0, c_sentData = 0, c_recvMaxData = cf_ConnReceiveWindow config, c_recvData = 0,
       c_recvConsumed = 0, c_maxDataPending = False, c_store = (\<lambda>_. zeroStream), c_streams = [],
       c_openedBidi = 0, c_openedUni = 0, c_peerMaxBidi = 0, c_peerMaxUni = 0,
       c_peerOpenedBidi = 0, c_peerOpenedUni = 0, c_peerDoneBidi = 0, c_peerDoneUni = 0,
       c_maxBidi = cf_MaxIncomingStreams config, c_maxUni = cf_MaxIncomingUniStreams config,
       c_maxStreamsBidiPending = False, c_maxStreamsUniPending = False, c_sendQueue = [],
       c_handshakeDonePending = False, c_pingPending = False, c_pathResponses = [],
       c_created = now, c_idleTimeout = cf_MaxIdleTimeout config, c_lastActivity = now,
       c_sentSinceRecv = False, c_closed = False, c_closeErr = None, c_closeWhenDone = None,
       c_events = [], c_buffered = [], c_out = []\<rparr>)"

section \<open>Frames without a payload of their own\<close>

definition appendStopSending :: "bytes \<Rightarrow> u64 \<Rightarrow> u64 \<Rightarrow> bytes" where
  "appendStopSending b sid code = AppendVarint (AppendVarint (b @ [frameStopSending]) sid) code"

definition appendMaxStreamData :: "bytes \<Rightarrow> u64 \<Rightarrow> u64 \<Rightarrow> bytes" where
  "appendMaxStreamData b sid mx = AppendVarint (AppendVarint (b @ [frameMaxStreamData]) sid) mx"

definition appendResetStream :: "bytes \<Rightarrow> u64 \<Rightarrow> u64 \<Rightarrow> u64 \<Rightarrow> bytes" where
  "appendResetStream b sid code finalSize =
     AppendVarint (AppendVarint (AppendVarint (b @ [frameResetStream]) sid) code) finalSize"

definition appendConnectionClose :: "bytes \<Rightarrow> qerror \<Rightarrow> bool \<Rightarrow> bytes" where
  "appendConnectionClose b err oneRTT =
     (case err of
        ApplicationError code reason _ \<Rightarrow>
          (if oneRTT then
             AppendVarint (AppendVarint (b @ [frameConnectionCloseApp]) code) (of_nat (length reason)) @ reason
           else AppendVarint (AppendVarint (AppendVarint (b @ [frameConnectionClose]) errApplication) 0) 0)
      | TransportError code reason _ \<Rightarrow>
          (let reason = (if length reason > 256 then take 256 reason else reason) in
           AppendVarint (AppendVarint (AppendVarint (b @ [frameConnectionClose]) code) 0)
             (of_nat (length reason)) @ reason)
      | _ \<Rightarrow> AppendVarint (AppendVarint (AppendVarint (b @ [frameConnectionClose]) errInternal) 0) 0)"

section \<open>Packets to be sealed\<close>

record packetPlan =
  pl_space :: space
  pl_pn :: u64
  pl_pnLen :: nat
  pl_payload :: bytes
  pl_sp :: sentPacket
  pl_padded :: bool

definition newSentPacket :: "u64 \<Rightarrow> sentPacket" where
  "newSentPacket pn =
     \<lparr>p_pn = pn, p_time = 0, p_size = 0, p_ackEliciting = False, p_inFlight = False, p_frames = []\<rparr>"

definition headerLen :: "qconn \<Rightarrow> space \<Rightarrow> nat \<Rightarrow> nat" where
  "headerLen c sp n =
     (if sp = spaceApp then 1 + length (c_dcid c) + n
      else 1 + 4 + 1 + length (c_dcid c) + 1 + length (c_scid c) + 2 + n +
        (if sp = spaceInitial then VarintLen (of_nat (length (c_token c))) + length (c_token c) else 0))"

definition packetSize :: "qconn \<Rightarrow> packetPlan \<Rightarrow> nat" where
  "packetSize c p = headerLen c (pl_space p) (pl_pnLen p) + length (pl_payload p) + aeadOverhead"

definition conn_sealPlan :: "qconn \<Rightarrow> bytes \<Rightarrow> packetPlan \<Rightarrow> bytes" where
  "conn_sealPlan c out p =
     out @ sealPlan (the (n_tx (c_spaces c (pl_space p)))) (c_dcid c) (c_scid c) (c_token c) (c_keyPhase c)
       (pl_space p) (pl_pn p) (pl_pnLen p) (pl_payload p)"

section \<open>Ending a connection\<close>

text \<open>The plan for one space of \<open>sendClose\<close>, if the peer may be able to read it.\<close>

definition close_plan :: "qerror \<Rightarrow> space \<Rightarrow> qconn \<Rightarrow> packetPlan option" where
  "close_plan err sp c =
     (let s = c_spaces c sp in
      if n_tx s = None \<or> n_discarded s then None
      else if sp = spaceApp \<and> \<not> c_handshakeComplete c then None
      else
        Some \<lparr>pl_space = sp, pl_pn = n_nextPN s, pl_pnLen = pnLen (n_nextPN s) (n_largestAcked s),
              pl_payload = appendConnectionClose [] err (sp = spaceApp),
              pl_sp = newSentPacket (n_nextPN s), pl_padded = False\<rparr>)"

definition pad_last :: "nat \<Rightarrow> packetPlan list \<Rightarrow> packetPlan list" where
  "pad_last n plans =
     butlast plans @ [(last plans)\<lparr>pl_payload := pl_payload (last plans) @ replicate n 0\<rparr>]"

definition sendClose :: "qerror \<Rightarrow> qconn \<Rightarrow> qconn" where
  "sendClose err c =
     (let spaces = filter (\<lambda>sp. close_plan err sp c \<noteq> None) all_spaces;
          plans = map (\<lambda>sp. the (close_plan err sp c)) spaces;
          c1 = fold (\<lambda>sp. upd_space sp (\<lambda>s. s\<lparr>n_nextPN := n_nextPN s + 1\<rparr>)) spaces c;
          size = sum_list (map (packetSize c1) plans);
          padInitial = (spaceInitial \<in> set spaces \<and> c_isClient c)
      in if plans = [] then c1
         else
           (let plans = (if padInitial \<and> size < minInitialDatagram
                         then pad_last (minInitialDatagram - size) plans else plans)
            in c1\<lparr>c_out := c_out c1 @ [foldl (conn_sealPlan c1) [] plans]\<rparr>))"

definition terminateLocked :: "qerror \<Rightarrow> qconn \<Rightarrow> qconn" where
  "terminateLocked err c =
     (if c_closed c then c
      else c\<lparr>c_closed := True, c_closeErr := Some err, c_timer := None,
             c_store := (\<lambda>sid. if sid \<in> set (c_streams c) then (c_store c sid)\<lparr>s_done := True\<rparr> else c_store c sid),
             c_streams := [], c_sendQueue := [], c_buffered := [],
             c_events := c_events c @ [OnClose err]\<rparr>)"

definition closeLocked :: "qerror \<Rightarrow> qconn \<Rightarrow> qconn" where
  "closeLocked err c = (if c_closed c then c else terminateLocked err (sendClose err c))"

definition isBidi :: "u64 \<Rightarrow> bool" where "isBidi sid \<longleftrightarrow> sid AND 2 = 0"
definition isClientStream :: "u64 \<Rightarrow> bool" where "isClientStream sid \<longleftrightarrow> sid AND 1 = 0"

definition closeIfDoneLocked :: "qconn \<Rightarrow> qconn" where
  "closeIfDoneLocked c =
     (case c_closeWhenDone c of
        None \<Rightarrow> c
      | Some err \<Rightarrow>
          if c_closed c then c
          else if \<exists>sid \<in> set (c_streams c). isBidi sid then c
          else closeLocked err c)"

end
