(* ===== verification/Quic_Stream.thy ===== *)
theory Quic_Stream
  imports Quic_State
begin

text \<open>
  The streams of a QUIC connection, \<open>src/go/http3/internal/quic/stream.go\<close>, with the parts of \<open>conn.go\<close>
  that open, find, queue and finish them. A method of \<open>Stream\<close> takes the stream's ID and the
  connection; \<open>hasLost\<close> drops ranges from the send buffer as it looks, so that what calls it returns a
  state as well.
\<close>

section \<open>Opening and finding streams\<close>

definition local_stream :: "qconn \<Rightarrow> u64 \<Rightarrow> bool" where
  "local_stream c sid \<longleftrightarrow> isClientStream sid = c_isClient c"

definition newStream :: "u64 \<Rightarrow> qconn \<Rightarrow> qconn" where
  "newStream sid c =
     (let loc = local_stream c sid;
          hasRecv = (isBidi sid \<or> \<not> loc);
          sendMax = (case c_peerParams c of
                       None \<Rightarrow> 0
                     | Some p \<Rightarrow>
                         if \<not> isBidi sid then tp_maxStreamDataUni p
                         else if loc then tp_maxStreamDataBidiR p
                         else tp_maxStreamDataBidiL p);
          s = zeroStream\<lparr>s_hasSend := (isBidi sid \<or> loc), s_hasRecv := hasRecv, s_sendMax := sendMax,
                s_recvMax := (if hasRecv then cf_StreamReceiveWindow (c_config c) else 0)\<rparr>
      in c\<lparr>c_store := (c_store c)(sid := s), c_streams := c_streams c @ [sid]\<rparr>)"

definition openStream :: "bool \<Rightarrow> qconn \<Rightarrow> (qerror + u64) \<times> qconn" where
  "openStream bidi c =
     (if c_closed c then (Inl ErrClosed, c)
      else if \<not> c_handshakeComplete c then (Inl (OtherError (ascii ''quic: handshake not complete'')), c)
      else if bidi then
        (if c_openedBidi c \<ge> c_peerMaxBidi c then (Inl ErrStreamLimit, c)
         else
           (let sid = push_bit 2 (c_openedBidi c) OR (if c_isClient c then 0 else 1)
            in (Inr sid, newStream sid (c\<lparr>c_openedBidi := c_openedBidi c + 1\<rparr>))))
      else
        (if c_openedUni c \<ge> c_peerMaxUni c then (Inl ErrStreamLimit, c)
         else
           (let sid = push_bit 2 (c_openedUni c) OR 2 OR (if c_isClient c then 0 else 1)
            in (Inr sid, newStream sid (c\<lparr>c_openedUni := c_openedUni c + 1\<rparr>)))))"

text \<open>
  \<open>peerStream\<close>: the stream a frame refers to, \<open>None\<close> for one already finished. The loop opens the
  peer's streams one after the other up to the one named.
\<close>

definition open_upto :: "u64 \<Rightarrow> u64 \<Rightarrow> u64 \<Rightarrow> qconn \<Rightarrow> qconn" where
  "open_upto opened seq sid c =
     fold (\<lambda>k. newStream (push_bit 2 (of_nat k) OR (sid AND 3))) [unat opened ..< Suc (unat seq)] c"

definition peerStream :: "u64 \<Rightarrow> bool \<Rightarrow> qconn \<Rightarrow> (qerror + u64 option) \<times> qconn" where
  "peerStream sid recvSide c =
     (let loc = local_stream c sid; seq = drop_bit 2 sid in
      if \<not> isBidi sid \<and> loc = recvSide then
        (Inl (transportErr errStreamState ''frame for the wrong direction of a unidirectional stream''), c)
      else if sid \<in> set (c_streams c) then (Inr (Some sid), c)
      else if loc then
        (let opened = (if isBidi sid then c_openedBidi c else c_openedUni c) in
         if seq \<ge> opened then (Inl (transportErr errStreamState ''frame for a stream not yet opened''), c)
         else (Inr None, c))
      else
        (let opened = (if isBidi sid then c_peerOpenedBidi c else c_peerOpenedUni c);
             limit = (if isBidi sid then c_maxBidi c else c_maxUni c)
         in if seq < opened then (Inr None, c)
            else if seq \<ge> limit then (Inl (transportErr errStreamLimit ''too many streams''), c)
            else
              (let c = open_upto opened seq sid c;
                   c = (if isBidi sid then c\<lparr>c_peerOpenedBidi := seq + 1\<rparr> else c\<lparr>c_peerOpenedUni := seq + 1\<rparr>)
               in (Inr (Some sid), c))))"

definition queueStream :: "u64 \<Rightarrow> qconn \<Rightarrow> qconn" where
  "queueStream sid c =
     (if \<not> s_queued (c_store c sid) \<and> \<not> s_done (c_store c sid)
      then (upd_stream sid (\<lambda>s. s\<lparr>s_queued := True\<rparr>) c)\<lparr>c_sendQueue := c_sendQueue c @ [sid]\<rparr>
      else c)"

section \<open>Finishing streams\<close>

definition sendDone :: "qstream \<Rightarrow> bool" where
  "sendDone s =
     (if \<not> s_hasSend s then True
      else if s_reset s then s_resetAcked s
      else s_finAcked s \<and> allAcked (s_send s))"

definition recvFinished :: "qstream \<Rightarrow> bool" where
  "recvFinished s \<longleftrightarrow> \<not> s_hasRecv s \<or> s_recvDone s \<or> s_peerReset s"

definition count_done :: "u64 \<Rightarrow> qconn \<Rightarrow> qconn" where
  "count_done sid c =
     (if isBidi sid then
        (let n = c_peerDoneBidi c + 1; most = cf_MaxIncomingStreams (c_config c); c = c\<lparr>c_peerDoneBidi := n\<rparr> in
         if c_maxBidi c - n < most div 2 + 1
         then c\<lparr>c_maxBidi := n + most, c_maxStreamsBidiPending := True\<rparr> else c)
      else
        (let n = c_peerDoneUni c + 1; most = cf_MaxIncomingUniStreams (c_config c); c = c\<lparr>c_peerDoneUni := n\<rparr> in
         if c_maxUni c - n < most div 2 + 1
         then c\<lparr>c_maxUni := n + most, c_maxStreamsUniPending := True\<rparr> else c))"

definition maybeFinish :: "u64 \<Rightarrow> qconn \<Rightarrow> qconn" where
  "maybeFinish sid c =
     (let s = c_store c sid in
      if s_done s \<or> \<not> sendDone s \<or> \<not> recvFinished s then c
      else
        (let c = upd_stream sid (\<lambda>s. s\<lparr>s_done := True\<rparr>) c;
             c = c\<lparr>c_streams := filter (\<lambda>i. i \<noteq> sid) (c_streams c)\<rparr>;
             c = closeIfDoneLocked c
         in if local_stream c sid then c else count_done sid c))"

section \<open>The sending side\<close>

definition writeLocked :: "u64 \<Rightarrow> bytes \<Rightarrow> bool \<Rightarrow> qconn \<Rightarrow> qerror option \<times> qconn" where
  "writeLocked sid p fin c =
     (let s = c_store c sid in
      if c_closed c then (Some ErrClosed, c)
      else if \<not> s_hasSend s \<or> s_finQueued s \<or> s_reset s then (Some ErrClosed, c)
      else
        (let s = s\<lparr>s_send := sb_write p (s_send s)\<rparr>;
             s = (if fin then s\<lparr>s_finQueued := True, s_finalSize := sb_end (s_send s)\<rparr> else s)
         in (None, queueStream sid (upd_stream sid (\<lambda>_. s) c))))"

definition resetLocked :: "u64 \<Rightarrow> u64 \<Rightarrow> qconn \<Rightarrow> qconn" where
  "resetLocked sid code c =
     (let s = c_store c sid in
      if \<not> s_hasSend s \<or> s_reset s \<or> s_finAcked s then c
      else
        queueStream sid (upd_stream sid (\<lambda>s. s\<lparr>s_reset := True, s_resetPending := True, s_resetCode := code,
            s_finalSize := nextoff (s_send s),
            s_send := noSend\<lparr>base := nextoff (s_send s), nextoff := nextoff (s_send s)\<rparr>\<rparr>) c))"

definition sendCredit :: "u64 \<Rightarrow> qconn \<Rightarrow> u64" where
  "sendCredit sid c =
     (let s = c_store c sid in
      if nextoff (s_send s) \<ge> s_sendMax s \<or> c_sentData c \<ge> c_peerMaxData c then 0
      else min (s_sendMax s - nextoff (s_send s)) (c_peerMaxData c - c_sentData c))"

text \<open>\<open>s.send.hasLost()\<close> on the connection.\<close>

definition stream_hasLost :: "u64 \<Rightarrow> qconn \<Rightarrow> bool \<times> qconn" where
  "stream_hasLost sid c =
     (let (has, sb) = hasLost (s_send (c_store c sid))
      in (has, upd_stream sid (\<lambda>s. s\<lparr>s_send := sb\<rparr>) c))"

definition sendable :: "u64 \<Rightarrow> qconn \<Rightarrow> bool \<times> qconn" where
  "sendable sid c =
     (let s = c_store c sid in
      if s_stopPending s \<or> s_maxDataPending s \<or> s_resetPending s then (True, c)
      else if s_reset s \<or> \<not> s_hasSend s then (False, c)
      else
        (let (has, c) = stream_hasLost sid c; s = c_store c sid in
         if has then (True, c)
         else if nextoff (s_send s) < sb_end (s_send s) then (sendCredit sid c > 0, c)
         else (s_finQueued s \<and> \<not> s_finSent s, c)))"

definition sp_add :: "sentFrame \<Rightarrow> sentPacket \<Rightarrow> sentPacket" where
  "sp_add f p = p\<lparr>p_frames := p_frames p @ [f], p_ackEliciting := True\<rparr>"

definition stream_mark :: "sf_kind \<Rightarrow> u64 \<Rightarrow> sentFrame" where
  "stream_mark k sid = \<lparr>f_kind = k, f_fin = False, f_stream = sid, f_off = 0, f_n = 0\<rparr>"

type_synonym build = "bytes \<times> sentPacket \<times> qconn"

definition appendStreamFrame :: "u64 \<Rightarrow> u64 \<Rightarrow> bytes \<Rightarrow> build \<Rightarrow> build" where
  "appendStreamFrame sid off data st =
     (let (b, p, c) = st; s = c_store c sid;
          n = of_nat (length data);
          fin = (s_finQueued s \<and> \<not> s_finSent s \<and> off + n = s_finalSize s);
          typ = (frameStream OR 0x02) OR (if off > 0 then 0x04 else 0) OR (if fin then 0x01 else 0);
          c = (if fin then upd_stream sid (\<lambda>s. s\<lparr>s_finSent := True\<rparr>) c else c);
          b = AppendVarint (b @ [typ]) sid;
          b = (if off > 0 then AppendVarint b off else b);
          b = AppendVarint b n @ data
      in (b, sp_add \<lparr>f_kind = sfStream, f_fin = fin, f_stream = sid, f_off = off, f_n = n\<rparr> p, c))"

text \<open>The three frames without data that a stream may have waiting.\<close>

definition append_pending ::
  "(qstream \<Rightarrow> bool) \<Rightarrow> (qstream \<Rightarrow> bytes) \<Rightarrow> (qstream \<Rightarrow> qstream) \<Rightarrow> sf_kind \<Rightarrow> int \<Rightarrow> u64 \<Rightarrow> build \<Rightarrow> build" where
  "append_pending pend fr clear k mx sid st =
     (let (b, p, c) = st; s = c_store c sid; f = fr s in
      if pend s \<and> int (length b + length f) \<le> mx
      then (b @ f, sp_add (stream_mark k sid) p, upd_stream sid clear c) else st)"

text \<open>Room for data behind the frame header when the offset is \<open>off\<close>.\<close>

definition stream_avail :: "int \<Rightarrow> bytes \<Rightarrow> u64 \<Rightarrow> u64 \<Rightarrow> int" where
  "stream_avail mx b sid off = mx - int (length b) - 1 - int (VarintLen sid) - int (VarintLen off) - 2"

lemma appendStreamFrame_grows: "length b < length (fst (appendStreamFrame sid off data (b, p, c)))"
  by (simp add: appendStreamFrame_def Let_def AppendVarint_append [of "_ @ _"] AppendVarint_append [of "AppendVarint _ _"])

lemma frame_measure:
  assumes "st = appendStreamFrame sid off data (b, p, c)" "(b', pc) = st"
    and "a = stream_avail mx b sid x" "\<not> a \<le> 0"
  shows "nat (mx - int (length b')) < nat (mx - int (length b))"
proof -
  have "length b < length b'"
    using appendStreamFrame_grows [of b sid off data p c] assms(1,2) by (metis fst_conv)
  then show ?thesis using assms(3,4) by (simp add: stream_avail_def)
qed

text \<open>The flag of the loops says that \<open>appendFrames\<close> returns from inside them.\<close>

function lost_frames :: "int \<Rightarrow> u64 \<Rightarrow> bytes \<Rightarrow> sentPacket \<Rightarrow> qconn \<Rightarrow> bool \<times> build" where
  "lost_frames mx sid b p c =
     (let (has, c1) = stream_hasLost sid c; sb = s_send (c_store c1 sid) in
      if \<not> has then (False, (b, p, c1))
      else
        (let avail = stream_avail mx b sid (sp_off (hd (lost sb))) in
         if avail \<le> 0 then (True, (b, p, c1))
         else
           (let ((off, data), sb') = popLost (word_of_int avail) sb;
                (b', p', c') = appendStreamFrame sid off data (b, p, upd_stream sid (\<lambda>s. s\<lparr>s_send := sb'\<rparr>) c1)
            in lost_frames mx sid b' p' c')))"
  by pat_completeness auto
termination
  by (relation "measure (\<lambda>(mx, sid, b, p, c). nat (mx - int (length b)))")
    (rule wf_measure, unfold in_measure prod.case, rule frame_measure, assumption+)

function new_frames :: "int \<Rightarrow> u64 \<Rightarrow> bytes \<Rightarrow> sentPacket \<Rightarrow> qconn \<Rightarrow> bool \<times> build" where
  "new_frames mx sid b p c =
     (let sb = s_send (c_store c sid) in
      if \<not> nextoff sb < sb_end sb then (False, (b, p, c))
      else
        (let credit = sendCredit sid c; avail = stream_avail mx b sid (nextoff sb) in
         if credit = 0 \<or> avail \<le> 0 then (True, (b, p, c))
         else
           (let ((off, data), sb') = popNew (min (word_of_int avail) credit) sb;
                c1 = upd_stream sid (\<lambda>s. s\<lparr>s_send := sb'\<rparr>) c;
                c1 = c1\<lparr>c_sentData := c_sentData c1 + of_nat (length data)\<rparr>;
                (b', p', c') = appendStreamFrame sid off data (b, p, c1)
            in new_frames mx sid b' p' c')))"
  by pat_completeness auto
termination
  by (relation "measure (\<lambda>(mx, sid, b, p, c). nat (mx - int (length b)))")
    (rule wf_measure, unfold in_measure prod.case, rule frame_measure, assumption+, blast)

declare lost_frames.simps [simp del] new_frames.simps [simp del]

definition stream_appendFrames :: "int \<Rightarrow> u64 \<Rightarrow> build \<Rightarrow> build" where
  "stream_appendFrames mx sid st =
     (let st = append_pending s_stopPending (\<lambda>s. appendStopSending [] sid (s_stopCode s))
                 (\<lambda>s. s\<lparr>s_stopPending := False\<rparr>) sfStopSending mx sid st;
          st = append_pending s_maxDataPending (\<lambda>s. appendMaxStreamData [] sid (s_recvMax s))
                 (\<lambda>s. s\<lparr>s_maxDataPending := False\<rparr>) sfMaxStreamData mx sid st;
          st = append_pending s_resetPending (\<lambda>s. appendResetStream [] sid (s_resetCode s) (s_finalSize s))
                 (\<lambda>s. s\<lparr>s_resetPending := False\<rparr>) sfResetStream mx sid st;
          (b, p, c) = st
      in if s_reset (c_store c sid) \<or> \<not> s_hasSend (c_store c sid) then st
         else
           (let (stop, st) = lost_frames mx sid b p c; (b, p, c) = st in
            if stop then st
            else
              (let (stop, st) = new_frames mx sid b p c; (b, p, c) = st; s = c_store c sid in
               if stop then st
               else if s_finQueued s \<and> \<not> s_finSent s \<and> 0 \<le> stream_avail mx b sid (nextoff (s_send s)) + 1
               then appendStreamFrame sid (nextoff (s_send s)) [] st
               else st)))"

section \<open>Acknowledgement and loss of what was sent\<close>

definition onDataAcked :: "u64 \<Rightarrow> u64 \<Rightarrow> u64 \<Rightarrow> bool \<Rightarrow> qconn \<Rightarrow> qconn" where
  "onDataAcked sid off n fin c =
     (if s_reset (c_store c sid) then c
      else
        maybeFinish sid (upd_stream sid
          (\<lambda>s. s\<lparr>s_send := onAck off n (s_send s), s_finAcked := (if fin then True else s_finAcked s)\<rparr>) c))"

definition onDataLost :: "u64 \<Rightarrow> u64 \<Rightarrow> u64 \<Rightarrow> bool \<Rightarrow> qconn \<Rightarrow> qconn" where
  "onDataLost sid off n fin c =
     (if s_reset (c_store c sid) \<or> s_done (c_store c sid) then c
      else
        queueStream sid (upd_stream sid
          (\<lambda>s. s\<lparr>s_send := onLost off n (s_send s),
                 s_finSent := (if fin \<and> \<not> s_finAcked s then False else s_finSent s)\<rparr>) c))"

definition onResetAcked :: "u64 \<Rightarrow> qconn \<Rightarrow> qconn" where
  "onResetAcked sid c = maybeFinish sid (upd_stream sid (\<lambda>s. s\<lparr>s_resetAcked := True\<rparr>) c)"

definition onResetLost :: "u64 \<Rightarrow> qconn \<Rightarrow> qconn" where
  "onResetLost sid c =
     (if \<not> s_resetAcked (c_store c sid) \<and> \<not> s_done (c_store c sid)
      then queueStream sid (upd_stream sid (\<lambda>s. s\<lparr>s_resetPending := True\<rparr>) c) else c)"

definition onMaxDataLost :: "u64 \<Rightarrow> qconn \<Rightarrow> qconn" where
  "onMaxDataLost sid c =
     (let s = c_store c sid in
      if \<not> s_recvDone s \<and> \<not> s_done s \<and> s_recvFin s < 0
      then queueStream sid (upd_stream sid (\<lambda>s. s\<lparr>s_maxDataPending := True\<rparr>) c) else c)"

definition onStopSendingLost :: "u64 \<Rightarrow> qconn \<Rightarrow> qconn" where
  "onStopSendingLost sid c =
     (let s = c_store c sid in
      if \<not> s_recvDone s \<and> \<not> s_done s
      then queueStream sid (upd_stream sid (\<lambda>s. s\<lparr>s_stopPending := True\<rparr>) c) else c)"

section \<open>The receiving side\<close>

definition stopSendingLocked :: "u64 \<Rightarrow> u64 \<Rightarrow> qconn \<Rightarrow> qconn" where
  "stopSendingLocked sid code c =
     (let s = c_store c sid in
      if \<not> s_hasRecv s \<or> s_recvDone s \<or> s_stopSent s then c
      else
        queueStream sid (upd_stream sid (\<lambda>s. s\<lparr>s_stopSent := True, s_stopPending := True, s_stopCode := code,
            s_recv := noRecv\<lparr>rb_offset := rb_offset (s_recv s)\<rparr>\<rparr>) c))"

definition consumed :: "u64 \<Rightarrow> u64 \<Rightarrow> qconn \<Rightarrow> qconn" where
  "consumed sid offset c =
     (let s = c_store c sid;
          c = (if offset > s_recvRead s
               then (upd_stream sid (\<lambda>s. s\<lparr>s_recvRead := offset\<rparr>) c)
                      \<lparr>c_recvConsumed := c_recvConsumed c + (offset - s_recvRead s)\<rparr>
               else c);
          s = c_store c sid; window = cf_StreamReceiveWindow (c_config c);
          c = (if s_recvFin s < 0 \<and> \<not> s_recvDone s \<and> s_recvMax s - offset < window div 2
               then queueStream sid (upd_stream sid (\<lambda>s. s\<lparr>s_recvMax := offset + window, s_maxDataPending := True\<rparr>) c)
               else c);
          window = cf_ConnReceiveWindow (c_config c)
      in if c_recvMaxData c - c_recvConsumed c < window div 2
         then c\<lparr>c_recvMaxData := c_recvConsumed c + window, c_maxDataPending := True\<rparr> else c)"

definition deliver :: "u64 \<Rightarrow> bytes \<Rightarrow> bool \<Rightarrow> qconn \<Rightarrow> qconn" where
  "deliver sid data fin c =
     (let c = consumed sid (rb_offset (s_recv (c_store c sid))) c
      in c\<lparr>c_events := c_events c @ [OnStreamData sid data fin]\<rparr>)"

text \<open>The loop that pops and delivers: each turn takes at least one segment out of the buffer.\<close>

lemma pop_loop_shrinks:
  "pop_loop ss off n = (Some d, ss', off', n') \<Longrightarrow> length ss' < length ss"
proof (induction ss off n rule: pop_loop.induct)
  case (2 s ss off n)
  then show ?case by (fastforce simp: Let_def less_SucI split: if_splits)
qed simp

lemma rb_pop_shrinks: "rb_pop r = (Some d, r') \<Longrightarrow> length (segments r') < length (segments r)"
  by (auto simp: rb_pop_def dest: pop_loop_shrinks split: prod.splits)

lemma consumed_recv [simp]: "s_recv (c_store (consumed sid off c) sid') = s_recv (c_store c sid')"
  by (simp add: consumed_def Let_def upd_stream_def queueStream_def)

lemma deliver_recv [simp]: "s_recv (c_store (deliver sid d fin c) sid') = s_recv (c_store c sid')"
  by (simp add: deliver_def Let_def)

function deliver_loop :: "u64 \<Rightarrow> qconn \<Rightarrow> qconn" where
  "deliver_loop sid c =
     (case rb_pop (s_recv (c_store c sid)) of
        (None, r) \<Rightarrow> upd_stream sid (\<lambda>s. s\<lparr>s_recv := r\<rparr>) c
      | (Some chunk, r) \<Rightarrow>
          deliver_loop sid (deliver sid chunk False (upd_stream sid (\<lambda>s. s\<lparr>s_recv := r\<rparr>) c)))"
  by pat_completeness auto
termination
  by (relation "measure (\<lambda>(sid, c). length (segments (s_recv (c_store c sid))))")
    (auto simp: upd_stream_def intro: rb_pop_shrinks [OF sym])

declare deliver_loop.simps [simp del]

text \<open>
  \<open>count_recv\<close> accounts for data up to \<open>e\<close>; the flag says that the connection's limit is exceeded.
\<close>

definition count_recv :: "u64 \<Rightarrow> u64 \<Rightarrow> qconn \<Rightarrow> bool \<times> qconn" where
  "count_recv sid e c =
     (let s = c_store c sid in
      if e > s_recvHigh s then
        (let c = (upd_stream sid (\<lambda>s. s\<lparr>s_recvHigh := e\<rparr>) c)\<lparr>c_recvData := c_recvData c + (e - s_recvHigh s)\<rparr>
         in (c_recvData c > c_recvMaxData c, c))
      else (False, c))"

definition onStreamFrame :: "u64 \<Rightarrow> u64 \<Rightarrow> bytes \<Rightarrow> bool \<Rightarrow> qconn \<Rightarrow> qerror option \<times> qconn" where
  "onStreamFrame sid off data fin c =
     (let s = c_store c sid; e = off + of_nat (length data) in
      if e > maxVarint then (Some (transportErr errFrameEncoding ''stream offset too large''), c)
      else if s_recvFin s \<ge> 0 \<and> (e > word_of_int (s_recvFin s) \<or> fin \<and> e \<noteq> word_of_int (s_recvFin s)) then
        (Some (transportErr errFinalSize ''data beyond the final size''), c)
      else if fin \<and> e < s_recvHigh s then
        (Some (transportErr errFinalSize ''final size below data received''), c)
      else
        (let c = (if fin then upd_stream sid (\<lambda>s. s\<lparr>s_recvFin := sint e\<rparr>) c else c) in
         if e > s_recvMax s then
           (Some (transportErr errFlowControl ''stream flow control exceeded''), c)
         else
           (let (over, c) = count_recv sid e c in
            if over then (Some (transportErr errFlowControl ''connection flow control exceeded''), c)
            else
              (let s = c_store c sid in
               if s_recvDone s \<or> s_peerReset s \<or> s_stopSent s then
                 (let c = consumed sid e c; s = c_store c sid in
                  (None, if s_stopSent s \<and> s_recvFin s \<ge> 0 \<and> \<not> s_recvDone s
                         then maybeFinish sid (upd_stream sid (\<lambda>s. s\<lparr>s_recvDone := True\<rparr>) c) else c))
               else
                 (let c = upd_stream sid (\<lambda>s. s\<lparr>s_recv := rb_push off data (s_recv s)\<rparr>) c;
                      c = deliver_loop sid c;
                      s = c_store c sid
                  in (None, if s_recvFin s \<ge> 0 \<and> rb_offset (s_recv s) = word_of_int (s_recvFin s) \<and> \<not> s_recvDone s
                            then maybeFinish sid (deliver sid [] True
                                   (upd_stream sid (\<lambda>s. s\<lparr>s_recvDone := True\<rparr>) c))
                            else c))))))"

definition onResetStream :: "u64 \<Rightarrow> u64 \<Rightarrow> u64 \<Rightarrow> qconn \<Rightarrow> qerror option \<times> qconn" where
  "onResetStream sid code finalSize c =
     (let s = c_store c sid in
      if s_recvFin s \<ge> 0 \<and> finalSize \<noteq> word_of_int (s_recvFin s) \<or> finalSize < s_recvHigh s then
        (Some (transportErr errFinalSize ''reset with a different final size''), c)
      else if finalSize > s_recvMax s then
        (Some (transportErr errFlowControl ''stream flow control exceeded''), c)
      else
        (let (over, c) = count_recv sid finalSize c in
         if over then (Some (transportErr errFlowControl ''connection flow control exceeded''), c)
         else
           (let c = upd_stream sid (\<lambda>s. s\<lparr>s_recvFin := sint finalSize\<rparr>) c;
                c = consumed sid finalSize c; s = c_store c sid
            in if s_recvDone s \<or> s_peerReset s then (None, c)
               else
                 (let c = upd_stream sid (\<lambda>s. s\<lparr>s_peerReset := True, s_maxDataPending := False,
                            s_recv := noRecv\<lparr>rb_offset := rb_offset (s_recv s)\<rparr>\<rparr>) c;
                      c = (if \<not> s_stopSent s then c\<lparr>c_events := c_events c @ [OnStreamReset sid code]\<rparr> else c)
                  in (None, maybeFinish sid c)))))"

definition onStopSending :: "u64 \<Rightarrow> u64 \<Rightarrow> qconn \<Rightarrow> qconn" where
  "onStopSending sid code c =
     (let s = c_store c sid in
      if s_reset s \<or> s_finAcked s then c
      else
        (let c = resetLocked sid code c in c\<lparr>c_events := c_events c @ [OnStopSending sid code]\<rparr>))"

end
