(* ===== verification/Recovery.thy ===== *)
theory Recovery
  imports Quic_Stream
begin

text \<open>
  Loss detection and congestion control, \<open>src/go/http3/internal/quic/recovery.go\<close>. Arithmetic on
  \<open>time.Duration\<close> wraps at 64 bits, which \<open>wrap64\<close> writes out; Go's division truncates towards zero, and
  \<open>Time.Sub\<close> saturates.
\<close>

section \<open>Durations\<close>

definition wrap64 :: "int \<Rightarrow> int" where
  "wrap64 x = sint (word_of_int x :: u64)"

definition time_Sub :: "time \<Rightarrow> time \<Rightarrow> duration" where
  "time_Sub a b = max (- (2 ^ 63)) (min (2 ^ 63 - 1) (a - b))"

definition rtt_update :: "duration \<Rightarrow> duration \<Rightarrow> rttStats \<Rightarrow> rttStats" where
  "rtt_update latest ackDelay r =
     (if \<not> rtt_hasSample r then
        r\<lparr>rtt_latest := latest, rtt_hasSample := True, rtt_min := latest, rtt_smoothed := latest,
          rtt_rttvar := go_quot latest 2\<rparr>
      else
        (let mn = min (rtt_min r) latest;
             adjusted = (if latest \<ge> wrap64 (mn + ackDelay) then wrap64 (latest - ackDelay) else latest);
             diff = wrap64 (rtt_smoothed r - adjusted);
             diff = (if diff < 0 then wrap64 (- diff) else diff)
         in r\<lparr>rtt_latest := latest, rtt_min := mn,
              rtt_rttvar := go_quot (wrap64 (3 * rtt_rttvar r + diff)) 4,
              rtt_smoothed := go_quot (wrap64 (7 * rtt_smoothed r + adjusted)) 8\<rparr>))"

definition rtt_pto :: "rttStats \<Rightarrow> duration" where
  "rtt_pto r = wrap64 (rtt_smoothed r + max (wrap64 (4 * rtt_rttvar r)) timerGranularity)"

section \<open>NewReno\<close>

definition canSend :: "newReno \<Rightarrow> bool" where
  "canSend cc \<longleftrightarrow> bytesInFlight cc + of_nat maxDatagram \<le> cwnd cc"

definition cc_onAcked :: "sentPacket \<Rightarrow> newReno \<Rightarrow> newReno" where
  "cc_onAcked p cc =
     (let cc = cc\<lparr>bytesInFlight := bytesInFlight cc - of_nat (p_size p)\<rparr> in
      if \<not> p_time p > recoveryStart cc then cc
      else if cwnd cc < ssthresh cc then cc\<lparr>cwnd := cwnd cc + of_nat (p_size p)\<rparr>
      else cc\<lparr>cwnd := cwnd cc + (of_nat maxDatagram * of_nat (p_size p)) div cwnd cc\<rparr>)"

definition onCongestion :: "time \<Rightarrow> time \<Rightarrow> newReno \<Rightarrow> newReno" where
  "onCongestion sent now cc =
     (if \<not> sent > recoveryStart cc then cc
      else
        (let ss = max (cwnd cc div 2) minCongestionWindow
         in cc\<lparr>recoveryStart := now, ssthresh := ss, cwnd := ss\<rparr>))"

section \<open>Discarding a space, confirming the handshake\<close>

definition in_flight :: "sentPacket list \<Rightarrow> u64" where
  "in_flight ps = sum_list (map (\<lambda>p. of_nat (p_size p)) (filter p_inFlight ps))"

definition discardSpace :: "space \<Rightarrow> qconn \<Rightarrow> qconn" where
  "discardSpace sp c =
     (let s = c_spaces c sp in
      if n_discarded s then c
      else
        (let cc = c_cc c;
             c = c\<lparr>c_cc := foldl (\<lambda>cc p. if p_inFlight p
                              then cc\<lparr>bytesInFlight := bytesInFlight cc - of_nat (p_size p)\<rparr> else cc) cc (n_sent s)\<rparr>;
             c = upd_space sp (\<lambda>s. zeroSpace\<lparr>n_discarded := True, n_largestAcked := n_largestAcked s\<rparr>) c
         in c\<lparr>c_ptoCount := 0\<rparr>))"

definition confirmHandshake :: "qconn \<Rightarrow> qconn" where
  "confirmHandshake c =
     (if c_handshakeConfirmed c \<or> \<not> c_handshakeComplete c then c
      else discardSpace spaceHandshake (c\<lparr>c_handshakeConfirmed := True\<rparr>))"

definition peerMaxAckDelay :: "qconn \<Rightarrow> duration" where
  "peerMaxAckDelay c =
     (case c_peerParams c of Some p \<Rightarrow> tp_maxAckDelay p | None \<Rightarrow> 25 * Millisecond)"

section \<open>Sending\<close>

definition onPacketSent :: "space \<Rightarrow> sentPacket \<Rightarrow> qconn \<Rightarrow> qconn" where
  "onPacketSent sp p c =
     (let c = upd_space sp (\<lambda>s. s\<lparr>n_sent := n_sent s @ [p]\<rparr>) c;
          c = (if p_ackEliciting p then
                 (let c = upd_space sp (\<lambda>s. s\<lparr>n_lastAckElicitingSent := p_time p,
                            n_ackElicitingInFlight := n_ackElicitingInFlight s + 1\<rparr>) c
                  in if \<not> c_sentSinceRecv c then c\<lparr>c_sentSinceRecv := True, c_lastActivity := p_time p\<rparr> else c)
               else c);
          c = (if p_inFlight p
               then c\<lparr>c_cc := (c_cc c)\<lparr>bytesInFlight := bytesInFlight (c_cc c) + of_nat (p_size p)\<rparr>\<rparr> else c)
      in if sp = spaceHandshake \<and> c_isClient c \<and> \<not> n_discarded (c_spaces c spaceInitial)
         then discardSpace spaceInitial c else c)"

section \<open>Acknowledgement and loss\<close>

definition frameAcked :: "space \<Rightarrow> sentFrame \<Rightarrow> qconn \<Rightarrow> qconn" where
  "frameAcked sp f c =
     (case f_kind f of
        sfCrypto \<Rightarrow> upd_space sp (\<lambda>s. s\<lparr>n_cryptoSend := onAck (f_off f) (f_n f) (n_cryptoSend s)\<rparr>) c
      | sfStream \<Rightarrow> onDataAcked (f_stream f) (f_off f) (f_n f) (f_fin f) c
      | sfResetStream \<Rightarrow> onResetAcked (f_stream f) c
      | _ \<Rightarrow> c)"

definition frameLost :: "space \<Rightarrow> sentFrame \<Rightarrow> qconn \<Rightarrow> qconn" where
  "frameLost sp f c =
     (case f_kind f of
        sfCrypto \<Rightarrow> upd_space sp (\<lambda>s. s\<lparr>n_cryptoSend := onLost (f_off f) (f_n f) (n_cryptoSend s)\<rparr>) c
      | sfStream \<Rightarrow> onDataLost (f_stream f) (f_off f) (f_n f) (f_fin f) c
      | sfMaxData \<Rightarrow> c\<lparr>c_maxDataPending := True\<rparr>
      | sfMaxStreamData \<Rightarrow> onMaxDataLost (f_stream f) c
      | sfMaxStreamsBidi \<Rightarrow> c\<lparr>c_maxStreamsBidiPending := True\<rparr>
      | sfMaxStreamsUni \<Rightarrow> c\<lparr>c_maxStreamsUniPending := True\<rparr>
      | sfResetStream \<Rightarrow> onResetLost (f_stream f) c
      | sfStopSending \<Rightarrow> onStopSendingLost (f_stream f) c
      | sfHandshakeDone \<Rightarrow> c\<lparr>c_handshakeDonePending := True\<rparr>
      | sfRetireCID \<Rightarrow> c\<lparr>c_retireCIDs := c_retireCIDs c @ [f_off f]\<rparr>)"

text \<open>
  The scan that parts the packets in flight: the ranges that remain, smallest first, and the packets
  acknowledged and kept.
\<close>

fun ack_scan :: "pnRange list \<Rightarrow> sentPacket list \<Rightarrow> sentPacket list \<times> sentPacket list" where
  "ack_scan rs [] = ([], [])"
| "ack_scan rs (p # ps) =
     (let rs = dropWhile (\<lambda>r. hi r < p_pn p) rs; (ak, kept) = ack_scan rs ps in
      if rs \<noteq> [] \<and> lo (hd rs) \<le> p_pn p then (p # ak, kept) else (ak, p # kept))"

text \<open>
  The loop of \<open>detectLost\<close>: packets lost, packets kept and the time of the next loss, \<open>0\<close> when none.
\<close>

fun loss_scan ::
  "u64 \<Rightarrow> time \<Rightarrow> duration \<Rightarrow> sentPacket list \<Rightarrow> time \<Rightarrow> sentPacket list \<times> sentPacket list \<times> time" where
  "loss_scan la lostSendTime lossDelay [] lt = ([], [], lt)"
| "loss_scan la lostSendTime lossDelay (p # ps) lt =
     (if p_pn p > la then
        (let (l, k, lt) = loss_scan la lostSendTime lossDelay ps lt in (l, p # k, lt))
      else if \<not> p_time p > lostSendTime \<or> la \<ge> p_pn p + packetThreshold then
        (let (l, k, lt) = loss_scan la lostSendTime lossDelay ps lt in (p # l, k, lt))
      else
        (let t = p_time p + lossDelay;
             lt = (if lt = 0 \<or> t < lt then t else lt);
             (l, k, lt) = loss_scan la lostSendTime lossDelay ps lt
         in (l, p # k, lt)))"

definition packet_lost :: "space \<Rightarrow> sentPacket \<Rightarrow> qconn \<Rightarrow> qconn" where
  "packet_lost sp p c =
     (let c = (if p_ackEliciting p
               then upd_space sp (\<lambda>s. s\<lparr>n_ackElicitingInFlight := n_ackElicitingInFlight s - 1\<rparr>) c else c);
          c = (if p_inFlight p
               then c\<lparr>c_cc := (c_cc c)\<lparr>bytesInFlight := bytesInFlight (c_cc c) - of_nat (p_size p)\<rparr>\<rparr> else c)
      in fold (frameLost sp) (p_frames p) c)"

definition loss_delay :: "rttStats \<Rightarrow> duration" where
  "loss_delay r = max (go_quot (wrap64 (9 * max (rtt_latest r) (rtt_smoothed r))) 8) timerGranularity"

definition detectLost :: "space \<Rightarrow> time \<Rightarrow> qconn \<Rightarrow> qconn" where
  "detectLost sp now c =
     (let c = upd_space sp (\<lambda>s. s\<lparr>n_lossTime := 0\<rparr>) c; s = c_spaces c sp in
      if n_largestAcked s < 0 then c
      else
        (let lossDelay = loss_delay (c_rtt c);
             (lst, kept, lt) = loss_scan (word_of_int (n_largestAcked s)) (now - lossDelay) lossDelay (n_sent s) 0;
             c = upd_space sp (\<lambda>s. s\<lparr>n_lossTime := lt, n_sent := kept\<rparr>) c
         in if lst = [] then c
            else
              (let c = fold (packet_lost sp) lst c;
                   latest = foldl (\<lambda>t p. if p_inFlight p then p_time p else t) 0 lst
               in if latest \<noteq> 0 then c\<lparr>c_cc := onCongestion latest now (c_cc c)\<rparr> else c)))"

definition packet_acked :: "space \<Rightarrow> sentPacket \<Rightarrow> qconn \<Rightarrow> qconn" where
  "packet_acked sp p c =
     (let c = (if p_ackEliciting p
               then upd_space sp (\<lambda>s. s\<lparr>n_ackElicitingInFlight := n_ackElicitingInFlight s - 1\<rparr>) c else c);
          c = (if p_inFlight p then c\<lparr>c_cc := cc_onAcked p (c_cc c)\<rparr> else c)
      in fold (frameAcked sp) (p_frames p) c)"

definition peerCompletedAddressValidation :: "qconn \<Rightarrow> bool" where
  "peerCompletedAddressValidation c \<longleftrightarrow>
     \<not> c_isClient c \<or> c_handshakeConfirmed c \<or> n_largestAcked (c_spaces c spaceHandshake) \<ge> 0"

definition onAckReceived ::
  "space \<Rightarrow> pnRange list \<Rightarrow> duration \<Rightarrow> time \<Rightarrow> qconn \<Rightarrow> qerror option \<times> qconn" where
  "onAckReceived sp ranges ackDelay now c =
     (let s = c_spaces c sp; largest = hi (hd ranges) in
      if largest \<ge> n_nextPN s then
        (Some (transportErr errProtocolViolation ''acknowledgement of an unsent packet''), c)
      else
        (let la = (if sint largest > n_largestAcked s then sint largest else n_largestAcked s);
             (ak, kept) = ack_scan (rev ranges) (n_sent s);
             c = upd_space sp (\<lambda>s. s\<lparr>n_largestAcked := la, n_sent := kept\<rparr>) c
         in if ak = [] then (None, c)
            else
              (let newest = last ak;
                   eliciting = (\<exists>p \<in> set ak. p_ackEliciting p);
                   ackDelay = (if sp = spaceInitial then 0
                               else if c_handshakeConfirmed c then min ackDelay (peerMaxAckDelay c) else ackDelay);
                   c = (if p_pn newest = largest \<and> eliciting
                        then c\<lparr>c_rtt := rtt_update (time_Sub now (p_time newest)) ackDelay (c_rtt c)\<rparr> else c);
                   c = detectLost sp now c;
                   c = fold (packet_acked sp) ak c;
                   c = (if sp = spaceApp \<and> c_isClient c \<and> \<not> c_handshakeConfirmed c then confirmHandshake c else c);
                   c = (if peerCompletedAddressValidation c then c\<lparr>c_ptoCount := 0\<rparr> else c)
               in (None, c))))"

section \<open>Timers\<close>

definition atAmplificationLimit :: "qconn \<Rightarrow> bool" where
  "atAmplificationLimit c \<longleftrightarrow>
     \<not> c_isClient c \<and> \<not> c_addressValidated c \<and> c_bytesSent c + of_nat maxDatagram > 3 * c_bytesRecv c"

definition lossTimeSpace :: "qconn \<Rightarrow> time \<times> space" where
  "lossTimeSpace c =
     foldl (\<lambda>(t, sp) i. let lt = n_lossTime (c_spaces c i) in
              if lt \<noteq> 0 \<and> (t = 0 \<or> lt < t) then (lt, i) else (t, sp)) (0, spaceInitial) all_spaces"

definition ackElicitingInFlight :: "qconn \<Rightarrow> bool" where
  "ackElicitingInFlight c \<longleftrightarrow> (\<exists>i \<in> set all_spaces. n_ackElicitingInFlight (c_spaces c i) > 0)"

definition pto_turn :: "qconn \<Rightarrow> duration \<Rightarrow> time \<times> space \<Rightarrow> space \<Rightarrow> time \<times> space" where
  "pto_turn c dur tsp i =
     (let (t, sp) = tsp; s = c_spaces c i in
      if n_ackElicitingInFlight s = 0 then (t, sp)
      else if i = spaceApp \<and> \<not> c_handshakeConfirmed c \<and> t \<noteq> 0 then (t, sp)
      else
        (let d = (if i = spaceApp \<and> c_handshakeConfirmed c
                  then wrap64 (dur + wrap64 (peerMaxAckDelay c * 2 ^ c_ptoCount c)) else dur);
             pt = n_lastAckElicitingSent s + d
         in if t = 0 \<or> pt < t then (pt, i) else (t, sp)))"

definition ptoTimeSpace :: "time \<Rightarrow> qconn \<Rightarrow> time \<times> space" where
  "ptoTimeSpace now c =
     (let dur = wrap64 (rtt_pto (c_rtt c) * 2 ^ c_ptoCount c) in
      if \<not> ackElicitingInFlight c then
        (if n_tx (c_spaces c spaceHandshake) \<noteq> None then (now + dur, spaceHandshake)
         else (now + dur, spaceInitial))
      else foldl (pto_turn c dur) (0, spaceInitial) all_spaces)"

definition setLossDetectionTimer :: "time \<Rightarrow> qconn \<Rightarrow> qconn" where
  "setLossDetectionTimer now c =
     (if fst (lossTimeSpace c) \<noteq> 0 then c\<lparr>c_lossDeadline := fst (lossTimeSpace c)\<rparr>
      else if atAmplificationLimit c \<or> \<not> ackElicitingInFlight c \<and> peerCompletedAddressValidation c
      then c\<lparr>c_lossDeadline := 0\<rparr>
      else c\<lparr>c_lossDeadline := fst (ptoTimeSpace now c)\<rparr>)"

text \<open>\<open>hs.cryptoSend.hasLost() || hs.cryptoSend.next < hs.cryptoSend.end()\<close> with the other conditions.\<close>

definition probe_other :: "space \<Rightarrow> qconn \<Rightarrow> qconn" where
  "probe_other i c =
     (let s = c_spaces c i in
      if n_tx s = None \<or> n_discarded s then c
      else
        (let (has, sb) = hasLost (n_cryptoSend s);
             c = upd_space i (\<lambda>s. s\<lparr>n_cryptoSend := sb\<rparr>) c
         in if has \<or> nextoff sb < sb_end sb then upd_space i (\<lambda>s. s\<lparr>n_probes := max (n_probes s) 1\<rparr>) c else c))"

definition probe :: "space \<Rightarrow> qconn \<Rightarrow> qconn" where
  "probe sp c =
     (let c = upd_space sp (\<lambda>s. s\<lparr>n_probes := maxProbes\<rparr>) c;
          c = fold probe_other (filter (\<lambda>i. i \<noteq> sp) [spaceInitial, spaceHandshake]) c;
          ps = filter p_ackEliciting (n_sent (c_spaces c sp));
          ps = (if sp = spaceApp then take (nat maxProbes) ps else ps)
      in fold (\<lambda>p. fold (frameLost sp) (p_frames p)) ps c)"

definition onLossDetectionTimeout :: "time \<Rightarrow> qconn \<Rightarrow> qconn" where
  "onLossDetectionTimeout now c =
     (let (t, sp) = lossTimeSpace c in
      if t \<noteq> 0 then detectLost sp now c
      else
        (let c = (if \<not> ackElicitingInFlight c then
                    (if n_tx (c_spaces c spaceHandshake) \<noteq> None
                     then upd_space spaceHandshake (\<lambda>s. s\<lparr>n_probes := 1\<rparr>) c
                     else upd_space spaceInitial (\<lambda>s. s\<lparr>n_probes := 1\<rparr>) c)
                  else probe (snd (ptoTimeSpace now c)) c)
         in c\<lparr>c_ptoCount := c_ptoCount c + 1\<rparr>))"

end
