(* ===== verification/Quic_Frames.thy ===== *)
theory Quic_Frames
  imports Recovery
begin

text \<open>
  Frames, \<open>src/go/http3/internal/quic/frames.go\<close>, and the handshake that CRYPTO frames carry
  (\<open>handleCrypto\<close>, \<open>processTLSEvents\<close> and what they call, in \<open>conn.go\<close>).
\<close>

section \<open>Calls of TLS\<close>

text \<open>A call takes the next answer of the script; the events it leads to wait behind those already there.\<close>

definition tls_do :: "tls_call \<Rightarrow> qconn \<Rightarrow> tls_failure option \<times> qconn" where
  "tls_do call c =
     (let t = c_tls c; t = t\<lparr>t_calls := t_calls t @ [call]\<rparr> in
      case t_answers t of
        [] \<Rightarrow> (None, c\<lparr>c_tls := t\<rparr>)
      | (f, evs) # rest \<Rightarrow> (f, c\<lparr>c_tls := t\<lparr>t_events := t_events t @ evs, t_answers := rest\<rparr>\<rparr>))"

definition tlsError :: "tls_failure \<Rightarrow> qerror" where
  "tlsError f =
     (case f of
        AlertError alert msg \<Rightarrow> TransportError (errCryptoBase + ucast alert) msg False
      | OtherFailure msg \<Rightarrow> TransportError errInternal msg False)"

definition level_space :: "qlevel \<Rightarrow> space option" where
  "level_space l =
     (case l of
        LevelInitial \<Rightarrow> Some spaceInitial
      | LevelHandshake \<Rightarrow> Some spaceHandshake
      | LevelEarly \<Rightarrow> None
      | LevelApplication \<Rightarrow> Some spaceApp)"

definition space_level :: "space \<Rightarrow> qlevel" where
  "space_level sp =
     (case sp of spaceInitial \<Rightarrow> LevelInitial | spaceHandshake \<Rightarrow> LevelHandshake | spaceApp \<Rightarrow> LevelApplication)"

text \<open>Maps with keys: \<open>m[k] = v\<close> on an association list.\<close>

definition map_put :: "'k \<Rightarrow> 'v \<Rightarrow> ('k \<times> 'v) list \<Rightarrow> ('k \<times> 'v) list" where
  "map_put k v m = (k, v) # filter (\<lambda>e. fst e \<noteq> k) m"

definition handlePeerParams :: "bytes \<Rightarrow> qconn \<Rightarrow> qerror option \<times> qconn" where
  "handlePeerParams data c =
     (case parseParams data (c_isClient c) of
        (_, Some err) \<Rightarrow> (Some err, c)
      | (p, None) \<Rightarrow>
          if \<not> tp_hasInitialSCID p \<or> tp_initialSCID p \<noteq> c_dcid c then
            (Some (transportErr errTransportParameter ''initial_source_connection_id does not match''), c)
          else if c_isClient c \<and> (\<not> tp_hasOriginalDCID p \<or> tp_originalDCID p \<noteq> c_odcid c) then
            (Some (transportErr errTransportParameter ''original_destination_connection_id does not match''), c)
          else if c_isClient c \<and> (tp_hasRetrySCID p \<noteq> (c_retrySCID c \<noteq> None) \<or>
               c_retrySCID c \<noteq> None \<and> tp_retrySCID p \<noteq> the (c_retrySCID c)) then
            (Some (transportErr errTransportParameter ''retry_source_connection_id does not match''), c)
          else
            (let c = (if c_isClient c
                      then c\<lparr>c_peerResetToken := tp_statelessResetToken p,
                             c_peerCIDs := map_put 0 \<lparr>pc_cid = c_dcid c, pc_token = tp_statelessResetToken p\<rparr> (c_peerCIDs c)\<rparr>
                      else c);
                 c = c\<lparr>c_peerParams := Some p, c_peerMaxData := tp_initialMaxData p,
                       c_peerMaxBidi := tp_maxStreamsBidi p, c_peerMaxUni := tp_maxStreamsUni p\<rparr>
             in (None, if tp_maxIdleTimeout p > 0 \<and> tp_maxIdleTimeout p < c_idleTimeout c
                       then c\<lparr>c_idleTimeout := tp_maxIdleTimeout p\<rparr> else c)))"

definition onHandshakeComplete :: "qconn \<Rightarrow> qerror option \<times> qconn" where
  "onHandshakeComplete c =
     (if c_peerParams c = None then (Some (transportErr errTransportParameter ''no transport parameters''), c)
      else
        (let c = c\<lparr>c_handshakeComplete := True\<rparr>;
             (err, c) =
               (if \<not> c_isClient c then
                  (let c = confirmHandshake (c\<lparr>c_handshakeDonePending := True\<rparr>) in
                   if \<not> cf_SessionTicketsDisabled (c_config c) then
                     (case tls_do SendSessionTicket c of (f, c) \<Rightarrow> (map_option tlsError f, c))
                   else (None, c))
                else (None, c))
         in if err \<noteq> None then (err, c) else (None, c\<lparr>c_events := c_events c @ [OnHandshake]\<rparr>)))"

text \<open>One turn of \<open>processTLSEvents\<close> for the event \<open>e\<close>, which has been taken out.\<close>

definition tls_turn :: "crypto \<Rightarrow> tls_event \<Rightarrow> qconn \<Rightarrow> qerror option \<times> qconn" where
  "tls_turn cr e c =
     (case e of
        QUICSetReadSecret l suite secret \<Rightarrow>
          (case level_space l of
             None \<Rightarrow> (None, c)
           | Some sp \<Rightarrow> (None, upd_space sp (\<lambda>s. s\<lparr>n_rx := Some (newKeys cr suite secret)\<rparr>) c))
      | QUICSetWriteSecret l suite secret \<Rightarrow>
          (case level_space l of
             None \<Rightarrow> (None, c)
           | Some sp \<Rightarrow> (None, upd_space sp (\<lambda>s. s\<lparr>n_tx := Some (newKeys cr suite secret)\<rparr>) c))
      | QUICWriteData l data \<Rightarrow>
          (case level_space l of
             None \<Rightarrow> (None, c)
           | Some sp \<Rightarrow>
               if n_discarded (c_spaces c sp) then (None, c)
               else (None, upd_space sp (\<lambda>s. s\<lparr>n_cryptoSend := sb_write data (n_cryptoSend s)\<rparr>) c))
      | QUICTransportParameters data \<Rightarrow> handlePeerParams data c
      | QUICTransportParametersRequired \<Rightarrow>
          (None, snd (tls_do (SetTransportParameters (encode (c_local c))) c))
      | QUICHandshakeDone \<Rightarrow> onHandshakeComplete c
      | QUICOtherEvent \<Rightarrow> (None, c))"

text \<open>Events waiting and to come: what the loop uses up.\<close>

definition tls_left :: "qconn \<Rightarrow> nat" where
  "tls_left c = length (t_events (c_tls c)) + sum_list (map (length \<circ> snd) (t_answers (c_tls c)))"

lemma tls_do_left [simp]: "tls_left (snd (tls_do call c)) = tls_left c"
  by (auto simp: tls_do_def tls_left_def Let_def split: list.splits)

lemma discardSpace_tls [simp]: "c_tls (discardSpace sp c) = c_tls c"
  by (simp add: discardSpace_def Let_def upd_space_def)

lemma confirmHandshake_tls [simp]: "c_tls (confirmHandshake c) = c_tls c"
  by (simp add: confirmHandshake_def)

lemma tls_left_cong: "c_tls c = c_tls c' \<Longrightarrow> tls_left c = tls_left c'"
  by (simp add: tls_left_def)

lemma tls_left_updates [simp]:
  "tls_left (c\<lparr>c_events := evs\<rparr>) = tls_left c" "tls_left (confirmHandshake c) = tls_left c"
  "tls_left (c\<lparr>c_handshakeComplete := h\<rparr>) = tls_left c" "tls_left (c\<lparr>c_handshakeDonePending := d\<rparr>) = tls_left c"
  "tls_left (upd_space sp f c) = tls_left c"
  by (simp_all add: tls_left_def upd_space_def)

lemma tls_do_left_eq: "tls_do call c = (f, c') \<Longrightarrow> tls_left c' = tls_left c"
  using tls_do_left [of call c] by simp

lemma onHandshakeComplete_left: "tls_left (snd (onHandshakeComplete c)) = tls_left c"
  by (auto simp: onHandshakeComplete_def Let_def dest!: tls_do_left_eq split: prod.splits)

lemma handlePeerParams_tls [simp]: "c_tls (snd (handlePeerParams data c)) = c_tls c"
  by (simp add: handlePeerParams_def Let_def split: prod.split option.split)

lemma tls_turn_left: "tls_left (snd (tls_turn cr e c)) = tls_left c"
  by (cases e) (auto simp: tls_turn_def onHandshakeComplete_left upd_space_def intro: tls_left_cong split: option.splits)

function processTLSEvents :: "crypto \<Rightarrow> qconn \<Rightarrow> qerror option \<times> qconn" where
  "processTLSEvents cr c =
     (case t_events (c_tls c) of
        [] \<Rightarrow> (None, c)
      | e # rest \<Rightarrow>
          (case tls_turn cr e (c\<lparr>c_tls := (c_tls c)\<lparr>t_events := rest\<rparr>\<rparr>) of
             (Some err, c') \<Rightarrow> (Some err, c')
           | (None, c') \<Rightarrow> processTLSEvents cr c'))"
  by pat_completeness auto

lemma tls_turn_measure:
  assumes "t_events (c_tls c) = e # rest" "(None, c') = tls_turn cr e (c\<lparr>c_tls := (c_tls c)\<lparr>t_events := rest\<rparr>\<rparr>)"
  shows "tls_left c' < tls_left c"
proof -
  have "tls_left c' = tls_left (c\<lparr>c_tls := (c_tls c)\<lparr>t_events := rest\<rparr>\<rparr>)"
    using tls_turn_left by (metis assms(2) snd_conv)
  then show ?thesis using assms(1) by (simp add: tls_left_def)
qed

termination processTLSEvents
  by (relation "measure (\<lambda>(cr, c). tls_left c)") (auto intro: tls_turn_measure)

declare processTLSEvents.simps [simp del]

section \<open>Handshake data\<close>

definition pending_crypto :: "space \<Rightarrow> qconn \<Rightarrow> nat" where
  "pending_crypto sp c = length (segments (n_cryptoRecv (c_spaces c sp)))"

lemma pending_crypto_cong: "c_spaces c = c_spaces c' \<Longrightarrow> pending_crypto sp c = pending_crypto sp c'"
  by (simp add: pending_crypto_def)

lemma discardSpace_pending: "pending_crypto sp (discardSpace sp' c) \<le> pending_crypto sp c"
  by (simp add: pending_crypto_def discardSpace_def Let_def upd_space_def zeroSpace_def noRecv_def)

lemma confirmHandshake_pending: "pending_crypto sp (confirmHandshake c) \<le> pending_crypto sp c"
  using discardSpace_pending [of sp spaceHandshake "c\<lparr>c_handshakeConfirmed := True\<rparr>"]
  by (simp add: confirmHandshake_def pending_crypto_def)

lemma tls_do_spaces: "tls_do call c = (f, c') \<Longrightarrow> c_spaces c' = c_spaces c"
  by (auto simp: tls_do_def Let_def split: list.splits)

lemma onHandshakeComplete_pending: "pending_crypto sp (snd (onHandshakeComplete c)) \<le> pending_crypto sp c"
proof -
  have "pending_crypto sp (confirmHandshake (c\<lparr>c_handshakeComplete := True, c_handshakeDonePending := True\<rparr>)) \<le>
      pending_crypto sp c"
    by (rule order_trans [OF confirmHandshake_pending]) (simp add: pending_crypto_def)
  then show ?thesis
    by (auto simp: onHandshakeComplete_def Let_def pending_crypto_def dest!: tls_do_spaces split: prod.splits)
qed

lemma tls_turn_pending: "pending_crypto sp (snd (tls_turn cr e c)) \<le> pending_crypto sp c"
proof (cases e)
  case (QUICTransportParameters data)
  have "c_spaces (snd (handlePeerParams data c)) = c_spaces c"
    by (simp add: handlePeerParams_def Let_def split: prod.split option.split)
  then show ?thesis by (simp add: QUICTransportParameters tls_turn_def pending_crypto_def)
next
  case QUICTransportParametersRequired
  then show ?thesis using tls_do_spaces [of "SetTransportParameters (encode (c_local c))" c]
    by (auto simp: tls_turn_def pending_crypto_def intro: eq_refl) (metis order_refl prod.collapse)
next
  case QUICHandshakeDone
  then show ?thesis by (simp add: tls_turn_def onHandshakeComplete_pending)
qed (auto simp: tls_turn_def pending_crypto_def upd_space_def split: option.splits)

lemma processTLSEvents_pending: "pending_crypto sp (snd (processTLSEvents cr c)) \<le> pending_crypto sp c"
proof (induction cr c rule: processTLSEvents.induct)
  case (1 cr c)
  show ?case
  proof (cases "t_events (c_tls c)")
    case Nil
    then show ?thesis by (simp add: processTLSEvents.simps [of cr c])
  next
    case (Cons e rest)
    let ?c = "c\<lparr>c_tls := (c_tls c)\<lparr>t_events := rest\<rparr>\<rparr>"
    obtain err c' where t: "tls_turn cr e ?c = (err, c')" by force
    then have le: "pending_crypto sp c' \<le> pending_crypto sp c"
      using tls_turn_pending [of sp cr e ?c] by (simp add: pending_crypto_def)
    show ?thesis
    proof (cases err)
      case None
      with "1.IH" [OF Cons t [symmetric]] le Cons t show ?thesis
        by (simp add: processTLSEvents.simps [of cr c])
    qed (use Cons t le in \<open>simp add: processTLSEvents.simps [of cr c]\<close>)
  qed
qed

text \<open>The loop of \<open>handleCrypto\<close>: hand the data in order to TLS and do what it asks for.\<close>

function crypto_loop :: "crypto \<Rightarrow> space \<Rightarrow> qconn \<Rightarrow> qerror option \<times> qconn" where
  "crypto_loop cr sp c =
     (case rb_pop (n_cryptoRecv (c_spaces c sp)) of
        (None, r) \<Rightarrow> (None, upd_space sp (\<lambda>s. s\<lparr>n_cryptoRecv := r\<rparr>) c)
      | (Some chunk, r) \<Rightarrow>
          (case tls_do (HandleData (space_level sp) chunk) (upd_space sp (\<lambda>s. s\<lparr>n_cryptoRecv := r\<rparr>) c) of
             (Some f, c1) \<Rightarrow> (Some (tlsError f), c1)
           | (None, c1) \<Rightarrow>
               (case processTLSEvents cr c1 of
                  (Some err, c2) \<Rightarrow> (Some err, c2)
                | (None, c2) \<Rightarrow> if n_discarded (c_spaces c2 sp) then (None, c2) else crypto_loop cr sp c2)))"
  by pat_completeness auto

lemma crypto_turn_measure:
  assumes "rb_pop (n_cryptoRecv (c_spaces c sp)) = (Some chunk, r)"
    and "tls_do call (upd_space sp (\<lambda>s. s\<lparr>n_cryptoRecv := r\<rparr>) c) = (f, c1)" "processTLSEvents cr c1 = (err, c2)"
  shows "pending_crypto sp c2 < pending_crypto sp c"
proof -
  have "pending_crypto sp c2 \<le> pending_crypto sp c1"
    using processTLSEvents_pending [of sp cr c1] assms(3) by simp
  also have "\<dots> = length (segments r)"
    using tls_do_spaces [OF assms(2)] by (simp add: pending_crypto_def upd_space_def)
  also have "\<dots> < pending_crypto sp c"
    using rb_pop_shrinks [OF assms(1)] by (simp add: pending_crypto_def)
  finally show ?thesis .
qed

termination crypto_loop
  by (relation "measure (\<lambda>(cr, sp, c). pending_crypto sp c)")
    (auto intro: crypto_turn_measure [OF sym sym sym])

declare crypto_loop.simps [simp del]

definition handleCrypto :: "crypto \<Rightarrow> space \<Rightarrow> u64 \<Rightarrow> bytes \<Rightarrow> qconn \<Rightarrow> qerror option \<times> qconn" where
  "handleCrypto cr sp off data c =
     (if off + of_nat (length data) > rb_offset (n_cryptoRecv (c_spaces c sp)) + maxCryptoBuffer then
        (Some (transportErr errCryptoBufferExceeds ''too much out-of-order handshake data''), c)
      else crypto_loop cr sp (upd_space sp (\<lambda>s. s\<lparr>n_cryptoRecv := rb_push off data (n_cryptoRecv s)\<rparr>) c))"

section \<open>Acknowledgements\<close>

definition appendAck :: "bytes \<Rightarrow> space \<Rightarrow> time \<Rightarrow> qconn \<Rightarrow> bytes" where
  "appendAck b sp now c =
     (let s = c_spaces c sp; r = n_recv s; largest = last r;
          delay = (if sp = spaceApp
                   then drop_bit (unat (tp_ackDelayExponent (c_local c)))
                          (word_of_int (go_quot (time_Sub now (n_largestRecvTime s)) 1000))
                   else 0);
          b = AppendVarint (b @ [frameAck]) (hi largest);
          b = AppendVarint b delay;
          b = AppendVarint b (of_nat (length r - 1));
          b = AppendVarint b (hi largest - lo largest)
      in fst (foldl (\<lambda>(b, prev) a. (AppendVarint (AppendVarint b (prev - hi a - 2)) (hi a - lo a), lo a))
                (b, lo largest) (rev (butlast r))))"

text \<open>The loop over the further ranges of an ACK frame; \<open>None\<close> is the malformed frame.\<close>

primrec ack_ranges :: "nat \<Rightarrow> u64 \<Rightarrow> reader \<Rightarrow> (pnRange list \<times> reader) option" where
  "ack_ranges 0 smallest r = Some ([], r)"
| "ack_ranges (Suc n) smallest r =
     (let (gap, r) = reader_varint r; (len, r) = reader_varint r in
      if bad r \<or> smallest < gap + 2 \<or> smallest - gap - 2 < len then None
      else
        (let h = smallest - gap - 2; l = h - len in
         case ack_ranges n l r of
           None \<Rightarrow> None
         | Some (rs, r) \<Rightarrow> Some (\<lparr>lo = l, hi = h\<rparr> # rs, r)))"

text \<open>The ranges an ACK frame lists, largest first, its delay and the reader behind it.\<close>

definition read_ack :: "bool \<Rightarrow> reader \<Rightarrow> (pnRange list \<times> u64 \<times> reader) option" where
  "read_ack ecn r =
     (let (largest, r) = reader_varint r; (delay, r) = reader_varint r;
          (count, r) = reader_varint r; (first, r) = reader_varint r
      in if bad r \<or> first > largest \<or> count > 65536 then None
         else
           (case ack_ranges (unat count) (largest - first) r of
              None \<Rightarrow> None
            | Some (rs, r) \<Rightarrow>
                (let r = (if ecn then snd (reader_varint (snd (reader_varint (snd (reader_varint r))))) else r) in
                 if bad r then None else Some (\<lparr>lo = largest - first, hi = largest\<rparr> # rs, delay, r))))"

text \<open>On a malformed frame the reader is of no more use: the connection is closed.\<close>

definition handleAckFrame :: "space \<Rightarrow> bool \<Rightarrow> time \<Rightarrow> reader \<Rightarrow> qconn \<Rightarrow> qerror option \<times> reader \<times> qconn" where
  "handleAckFrame sp ecn now r c =
     (case read_ack ecn r of
        None \<Rightarrow> (Some (transportErr errFrameEncoding ''malformed ACK''), r, c)
      | Some (ranges, delay, r') \<Rightarrow>
          (let ex = (case c_peerParams c of None \<Rightarrow> 3 | Some p \<Rightarrow> tp_ackDelayExponent p);
               ackDelay = sint (push_bit (unat ex) delay * 1000);
               (err, c) = onAckReceived sp ranges ackDelay now c
           in (err, r', c)))"

section \<open>Connection IDs and path challenges\<close>

definition queuePathResponse :: "bytes \<Rightarrow> qconn \<Rightarrow> qconn" where
  "queuePathResponse data c =
     (let ps = c_pathResponses c;
          ps = (if length ps \<ge> maxPathResponses then drop (length ps - maxPathResponses + 1) ps else ps)
      in c\<lparr>c_pathResponses := ps @ [data]\<rparr>)"

text \<open>Retiring what the peer wants retired, and moving on when that includes the one in use.\<close>

definition retire_prior :: "quic_env \<Rightarrow> u64 \<Rightarrow> qconn \<Rightarrow> qconn" where
  "retire_prior env prior c =
     (let gone = filter (\<lambda>s. s < prior) (qe_range env (map fst (c_peerCIDs c)));
          c = c\<lparr>c_retiredPrior := prior, c_peerCIDs := filter (\<lambda>e. \<not> fst e < prior) (c_peerCIDs c),
                c_retireCIDs := c_retireCIDs c @ gone\<rparr>
      in if c_dcidSeq c < prior then
           (let nxt = foldl min (NOT 0) (map fst (c_peerCIDs c)) in
            if nxt \<noteq> NOT 0 then
              (let e = the (map_of (c_peerCIDs c) nxt)
               in c\<lparr>c_dcidSeq := nxt, c_dcid := pc_cid e, c_peerResetToken := pc_token e\<rparr>)
            else c)
         else c)"

definition handleNewConnectionID :: "quic_env \<Rightarrow> reader \<Rightarrow> qconn \<Rightarrow> qerror option \<times> reader \<times> qconn" where
  "handleNewConnectionID env r c =
     (let (seq, r) = reader_varint r; (retirePrior, r) = reader_varint r; (n, r) = reader_byte r;
          (cid, r) = reader_bytes (ucast n) r;
          (token, r) = reader_bytes (of_nat statelessResetTokenLen) r
      in if bad r then (None, r, c)
         else if n = 0 \<or> unat n > maxCIDLen \<or> retirePrior > seq then
           (Some (transportErr errFrameEncoding ''malformed NEW_CONNECTION_ID''), r, c)
         else if c_dcid c = [] then
           (Some (transportErr errProtocolViolation ''NEW_CONNECTION_ID with a zero-length connection ID''), r, c)
         else if seq < c_retiredPrior c then (None, r, c\<lparr>c_retireCIDs := c_retireCIDs c @ [seq]\<rparr>)
         else
           (case map_of (c_peerCIDs c) seq of
              Some old \<Rightarrow>
                if pc_cid old \<noteq> cid then
                  (Some (transportErr errProtocolViolation ''connection ID sequence number reused''), r, c)
                else (None, r, c)
            | None \<Rightarrow>
                (let c = c\<lparr>c_peerCIDs := map_put seq \<lparr>pc_cid = cid, pc_token = Some token\<rparr> (c_peerCIDs c)\<rparr>;
                     c = (if retirePrior > c_retiredPrior c then retire_prior env retirePrior c else c)
                 in if of_nat (length (c_peerCIDs c)) > tp_activeCIDLimit (c_local c)
                    then (Some (transportErr errConnectionIDLimit ''too many connection IDs''), r, c)
                    else (None, r, c))))"

section \<open>Frames\<close>

text \<open>A frame about a stream: find it, and hand it on unless it is finished.\<close>

definition with_stream ::
  "u64 \<Rightarrow> bool \<Rightarrow> (u64 \<Rightarrow> qconn \<Rightarrow> qerror option \<times> qconn) \<Rightarrow> qconn \<Rightarrow> qerror option \<times> qconn" where
  "with_stream sid recvSide f c =
     (case peerStream sid recvSide c of
        (Inl e, c) \<Rightarrow> (Some e, c)
      | (Inr None, c) \<Rightarrow> (None, c)
      | (Inr (Some s), c) \<Rightarrow> f s c)"

definition handle_stream :: "u64 \<Rightarrow> reader \<Rightarrow> qconn \<Rightarrow> qerror option \<times> reader \<times> qconn" where
  "handle_stream typ r c =
     (let (sid, r) = reader_varint r;
          (off, r) = (if typ AND 0x04 \<noteq> 0 then reader_varint r else (0, r));
          (data, r) = (if typ AND 0x02 \<noteq> 0
                       then (let (n, r) = reader_varint r in reader_bytes n r)
                       else (rb r, r\<lparr>rb := []\<rparr>))
      in if bad r then (None, r, c)
         else
           (case with_stream sid True (\<lambda>s. onStreamFrame s off data (typ AND 0x01 \<noteq> 0)) c of
              (err, c) \<Rightarrow> (err, r, c)))"

definition raise_maxData :: "quic_env \<Rightarrow> u64 \<Rightarrow> qconn \<Rightarrow> qconn" where
  "raise_maxData env mx c =
     (if mx > c_peerMaxData c then
        fold (\<lambda>sid c. let (ok, c) = sendable sid c in if ok then queueStream sid c else c)
          (qe_range env (c_streams c)) (c\<lparr>c_peerMaxData := mx\<rparr>)
      else c)"

definition handle_maxStreams :: "bool \<Rightarrow> u64 \<Rightarrow> qconn \<Rightarrow> qerror option \<times> qconn" where
  "handle_maxStreams uni mx c =
     (if mx > 2 ^ 60 then (Some (transportErr errFrameEncoding ''MAX_STREAMS too large''), c)
      else if uni then
        (if mx > c_peerMaxUni c
         then (None, c\<lparr>c_peerMaxUni := mx, c_events := c_events c @ [OnStreamsAvailable]\<rparr>) else (None, c))
      else
        (if mx > c_peerMaxBidi c
         then (None, c\<lparr>c_peerMaxBidi := mx, c_events := c_events c @ [OnStreamsAvailable]\<rparr>) else (None, c)))"

definition handle_close :: "bool \<Rightarrow> reader \<Rightarrow> qconn \<Rightarrow> reader \<times> qconn" where
  "handle_close app r c =
     (let (code, r) = reader_varint r;
          r = (if app then r else snd (reader_varint r));
          (n, r) = reader_varint r; (reason, r) = reader_bytes n r
      in if bad r then (r, c)
         else (r, terminateLocked (if app then ApplicationError code reason True
                                   else TransportError code reason True) c))"

text \<open>
  The body of \<open>handleFrames\<close> for a frame of type \<open>typ\<close>: the error, the reader behind the frame and the
  connection. A frame that turns out malformed leaves \<open>bad\<close> set, which the caller sees to.
\<close>

definition handle_frame ::
  "quic_env \<Rightarrow> space \<Rightarrow> time \<Rightarrow> u64 \<Rightarrow> reader \<Rightarrow> qconn \<Rightarrow> qerror option \<times> reader \<times> qconn" where
  "handle_frame env sp now typ r c =
     (if typ = ucast framePadding then (None, r\<lparr>rb := dropWhile (\<lambda>x. x = 0) (rb r)\<rparr>, c)
      else if typ = ucast framePing then (None, r, c)
      else if typ = ucast frameAck \<or> typ = ucast frameAckECN then
        handleAckFrame sp (typ = ucast frameAckECN) now r c
      else if typ = ucast frameResetStream then
        (let (sid, r) = reader_varint r; (code, r) = reader_varint r; (size, r) = reader_varint r in
         if bad r then (None, r, c)
         else (case with_stream sid True (\<lambda>s. onResetStream s code size) c of (err, c) \<Rightarrow> (err, r, c)))
      else if typ = ucast frameStopSending then
        (let (sid, r) = reader_varint r; (code, r) = reader_varint r in
         if bad r then (None, r, c)
         else (case with_stream sid False (\<lambda>s c. (None, onStopSending s code c)) c of (err, c) \<Rightarrow> (err, r, c)))
      else if typ = ucast frameCrypto then
        (let (off, r) = reader_varint r; (n, r) = reader_varint r; (data, r) = reader_bytes n r in
         if bad r then (None, r, c)
         else (case handleCrypto (qe_crypto env) sp off data c of (err, c) \<Rightarrow> (err, r, c)))
      else if typ = ucast frameNewToken then
        (let (n, r) = reader_varint r; (token, r) = reader_bytes n r in
         if \<not> c_isClient c then (Some (transportErr errProtocolViolation ''NEW_TOKEN from a client''), r, c)
         else if \<not> bad r \<and> token = [] then (Some (transportErr errFrameEncoding ''empty NEW_TOKEN''), r, c)
         else (None, r, c))
      else if typ \<ge> ucast frameStream \<and> typ \<le> ucast frameStream OR 7 then handle_stream typ r c
      else if typ = ucast frameMaxData then
        (let (mx, r) = reader_varint r in (None, r, raise_maxData env mx c))
      else if typ = ucast frameMaxStreamData then
        (let (sid, r) = reader_varint r; (mx, r) = reader_varint r in
         if bad r then (None, r, c)
         else
           (case with_stream sid False
                   (\<lambda>s c. (None, if mx > s_sendMax (c_store c s)
                                 then queueStream s (upd_stream s (\<lambda>x. x\<lparr>s_sendMax := mx\<rparr>) c) else c)) c of
              (err, c) \<Rightarrow> (err, r, c)))
      else if typ = ucast frameMaxStreamsBidi \<or> typ = ucast frameMaxStreamsUni then
        (let (mx, r) = reader_varint r; (err, c) = handle_maxStreams (typ = ucast frameMaxStreamsUni) mx c
         in (err, r, c))
      else if typ = ucast frameDataBlocked then (None, snd (reader_varint r), c)
      else if typ = ucast frameStreamDataBlocked then (None, snd (reader_varint (snd (reader_varint r))), c)
      else if typ = ucast frameStreamsBlockedBidi \<or> typ = ucast frameStreamsBlockedUni then
        (None, snd (reader_varint r), c)
      else if typ = ucast frameNewConnectionID then handleNewConnectionID env r c
      else if typ = ucast frameRetireConnectionID then (None, snd (reader_varint r), c)
      else if typ = ucast framePathChallenge then
        (let (data, r) = reader_bytes 8 r in (None, r, if bad r then c else queuePathResponse data c))
      else if typ = ucast framePathResponse then (None, snd (reader_bytes 8 r), c)
      else if typ = ucast frameConnectionClose \<or> typ = ucast frameConnectionCloseApp then
        (case handle_close (typ = ucast frameConnectionCloseApp) r c of (r, c) \<Rightarrow> (None, r, c))
      else if typ = ucast frameHandshakeDone then
        (if \<not> c_isClient c then (Some (transportErr errProtocolViolation ''HANDSHAKE_DONE from a client''), r, c)
         else (None, r, confirmHandshake c))
      else (Some (transportErr errFrameEncoding ''unknown frame type''), r, c))"

definition frame_elicits :: "u64 \<Rightarrow> bool" where
  "frame_elicits typ \<longleftrightarrow>
     typ \<notin> {ucast framePadding, ucast frameAck, ucast frameAckECN, ucast frameConnectionClose, ucast frameConnectionCloseApp}"

definition handshake_frame :: "u64 \<Rightarrow> bool" where
  "handshake_frame typ \<longleftrightarrow>
     typ \<in> {ucast framePadding, ucast framePing, ucast frameAck, ucast frameAckECN, ucast frameCrypto, ucast frameConnectionClose}"

text \<open>Every frame leaves at most what was there.\<close>

lemma reader_le:
  "reader_varint r = (v, r') \<Longrightarrow> length (rb r') \<le> length (rb r)"
  "reader_bytes n r = (b, r') \<Longrightarrow> length (rb r') \<le> length (rb r)"
  "reader_byte r = (x, r') \<Longrightarrow> length (rb r') \<le> length (rb r)"
  using reader_shrinks(1) [of r] reader_shrinks(2) [of n r] reader_shrinks(3) [of r] by simp_all

lemma ack_ranges_le: "ack_ranges n sm r = Some (rs, r') \<Longrightarrow> length (rb r') \<le> length (rb r)"
proof (induction n arbitrary: sm r rs)
  case (Suc n)
  obtain g ra where 1: "reader_varint r = (g, ra)" by force
  obtain l rc where 2: "reader_varint ra = (l, rc)" by force
  from Suc.prems obtain rs' where "ack_ranges n (sm - g - 2 - l) rc = Some (rs', r')"
    by (auto simp: 1 2 Let_def split: if_splits option.splits)
  from Suc.IH [OF this] reader_le(1) [OF 1] reader_le(1) [OF 2] show ?case by linarith
qed simp

lemma read_ack_le: "read_ack ecn r = Some (rs, d, r') \<Longrightarrow> length (rb r') \<le> length (rb r)"
proof -
  assume a: "read_ack ecn r = Some (rs, d, r')"
  obtain la ra where 1: "reader_varint r = (la, ra)" by force
  obtain de rb' where 2: "reader_varint ra = (de, rb')" by force
  obtain n rc where 3: "reader_varint rb' = (n, rc)" by force
  obtain f rd where 4: "reader_varint rc = (f, rd)" by force
  from a obtain rs' re where 5: "ack_ranges (unat n) (la - f) rd = Some (rs', re)"
    and r': "r' = (if ecn then snd (reader_varint (snd (reader_varint (snd (reader_varint re))))) else re)"
    by (auto simp: read_ack_def 1 2 3 4 Let_def split: if_splits option.splits)
  have "length (rb r') \<le> length (rb re)"
    using reader_shrinks(1) [of re] reader_shrinks(1) [of "snd (reader_varint re)"]
      reader_shrinks(1) [of "snd (reader_varint (snd (reader_varint re)))"] by (simp add: r')
  with ack_ranges_le [OF 5] reader_le(1) [OF 1] reader_le(1) [OF 2] reader_le(1) [OF 3] reader_le(1) [OF 4]
  show ?thesis by linarith
qed

lemma handleAckFrame_le: "length (rb (fst (snd (handleAckFrame sp ecn now r c)))) \<le> length (rb r)"
  by (auto simp: handleAckFrame_def Let_def dest: read_ack_le split: option.split prod.split)

lemma handleNewConnectionID_le: "length (rb (fst (snd (handleNewConnectionID env r c)))) \<le> length (rb r)"
proof -
  obtain q ra where 1: "reader_varint r = (q, ra)" by force
  obtain p rb' where 2: "reader_varint ra = (p, rb')" by force
  obtain n rc where 3: "reader_byte rb' = (n, rc)" by force
  obtain i rd where 4: "reader_bytes (ucast n) rc = (i, rd)" by force
  obtain t re where 5: "reader_bytes (of_nat statelessResetTokenLen) rd = (t, re)" by force
  have "fst (snd (handleNewConnectionID env r c)) = re"
    by (simp add: handleNewConnectionID_def 1 2 3 4 5 Let_def split: option.split)
  with reader_le(1) [OF 1] reader_le(1) [OF 2] reader_le(3) [OF 3] reader_le(2) [OF 4] reader_le(2) [OF 5]
  show ?thesis by simp
qed

lemma handle_stream_le: "length (rb (fst (snd (handle_stream typ r c)))) \<le> length (rb r)"
proof -
  obtain sid ra where 1: "reader_varint r = (sid, ra)" by force
  define x where "x = (if typ AND 0x04 \<noteq> 0 then reader_varint ra else (0, ra))"
  define y where "y = (if typ AND 0x02 \<noteq> 0 then (let (n, r) = reader_varint (snd x) in reader_bytes n r)
    else (rb (snd x), (snd x)\<lparr>rb := []\<rparr>))"
  have "length (rb (snd x)) \<le> length (rb ra)" unfolding x_def using reader_shrinks(1) [of ra] by simp
  moreover have "length (rb (snd y)) \<le> length (rb (snd x))"
    unfolding y_def using reader_shrinks(1) [of "snd x"]
      reader_shrinks(2) [of "fst (reader_varint (snd x))" "snd (reader_varint (snd x))"]
    by (simp add: case_prod_beta)
  moreover have "fst (snd (handle_stream typ r c)) = snd y"
    unfolding handle_stream_def Let_def 1 prod.case
    by (simp add: x_def [symmetric] case_prod_beta) (simp add: y_def Let_def case_prod_beta)
  ultimately show ?thesis using reader_le(1) [OF 1] by simp
qed

lemma handle_close_le: "length (rb (fst (handle_close app r c))) \<le> length (rb r)"
proof -
  obtain q ra where 1: "reader_varint r = (q, ra)" by force
  define rb' where "rb' = (if app then ra else snd (reader_varint ra))"
  obtain n rc where 3: "reader_varint rb' = (n, rc)" by force
  obtain t rd where 4: "reader_bytes n rc = (t, rd)" by force
  have "length (rb rb') \<le> length (rb ra)" unfolding rb'_def using reader_shrinks(1) by simp
  moreover have "fst (handle_close app r c) = rd"
    by (simp add: handle_close_def 1 rb'_def [symmetric] 3 4 Let_def)
  ultimately show ?thesis using reader_le(1) [OF 1] reader_le(1) [OF 3] reader_le(2) [OF 4] by simp
qed

lemma reader_chains:
  "length (rb (snd (reader_varint (snd (reader_varint r))))) \<le> length (rb r)"
  "length (rb (snd (reader_varint (snd (reader_varint (snd (reader_varint r))))))) \<le> length (rb r)"
  "length (rb (snd (reader_bytes n (snd (reader_varint r))))) \<le> length (rb r)"
  "length (rb (snd (reader_bytes n (snd (reader_varint (snd (reader_varint r))))))) \<le> length (rb r)"
  using reader_shrinks(1) [of r] reader_shrinks(1) [of "snd (reader_varint r)"]
    reader_shrinks(1) [of "snd (reader_varint (snd (reader_varint r)))"]
    reader_shrinks(2) [of n "snd (reader_varint r)"]
    reader_shrinks(2) [of n "snd (reader_varint (snd (reader_varint r)))"]
  by linarith+

lemma handle_frame_le: "length (rb (fst (snd (handle_frame env sp now typ r c)))) \<le> length (rb r)"
  unfolding handle_frame_def Let_def case_prod_beta
  by (simp add: handleAckFrame_le handleNewConnectionID_le handle_stream_le handle_close_le
      length_dropWhile_le reader_shrinks reader_chains split: if_split)

text \<open>The loop of \<open>handleFrames\<close>; the flag says whether a frame so far asks for an acknowledgement.\<close>

function frames_loop ::
  "quic_env \<Rightarrow> space \<Rightarrow> time \<Rightarrow> bool \<Rightarrow> reader \<Rightarrow> qconn \<Rightarrow> (qerror + bool) \<times> qconn" where
  "frames_loop env sp now el r c =
     (if rb r = [] \<or> c_closed c then (Inr el, c)
      else
        (let (typ, ra) = reader_varint r in
         if bad ra then (Inl (transportErr errFrameEncoding ''truncated frame type''), c)
         else if sp \<noteq> spaceApp \<and> \<not> handshake_frame typ then
           (Inl (transportErr errProtocolViolation ''frame not allowed in handshake packets''), c)
         else
           (case handle_frame env sp now typ ra c of
              (Some err, rc, c') \<Rightarrow> (Inl err, c')
            | (None, rc, c') \<Rightarrow>
                if bad rc then (Inl (transportErr errFrameEncoding ''malformed frame''), c')
                else frames_loop env sp now (el \<or> frame_elicits typ) rc c')))"
  by pat_completeness auto

lemma frame_turn_shrinks:
  assumes "reader_varint r = (typ, ra)" "\<not> bad ra" "handle_frame env sp now typ ra c = (err, rc, c')"
  shows "length (rb rc) < length (rb r)"
  using reader_varint_less [OF assms(1,2)] handle_frame_le [of env sp now "typ" ra c] assms(3) by simp

termination frames_loop
  by (relation "measure (\<lambda>(env, sp, now, el, r, c). length (rb r))")
    (auto intro: frame_turn_shrinks [OF sym _ sym])

declare frames_loop.simps [simp del]

definition handleFrames :: "quic_env \<Rightarrow> space \<Rightarrow> bytes \<Rightarrow> time \<Rightarrow> qconn \<Rightarrow> (qerror + bool) \<times> qconn" where
  "handleFrames env sp payload now c =
     (if payload = [] then (Inl (transportErr errProtocolViolation ''packet without frames''), c)
      else frames_loop env sp now False \<lparr>rb = payload, bad = False\<rparr> c)"

end
