(* ===== verification/Quic_Send.thy ===== *)
theory Quic_Send
  imports Quic_Frames
begin

text \<open>
  Building and sending packets, \<open>src/go/http3/internal/quic/send.go\<close>, and the timer of \<open>conn.go\<close>. The
  payload under construction, the record of what it carries and the connection go through the
  functions together.
\<close>

section \<open>Control frames\<close>

definition ctl_mark :: "sf_kind \<Rightarrow> u64 \<Rightarrow> sentFrame" where
  "ctl_mark k off = \<lparr>f_kind = k, f_fin = False, f_stream = 0, f_off = off, f_n = 0\<rparr>"

definition fits :: "int \<Rightarrow> bytes \<Rightarrow> nat \<Rightarrow> bool" where
  "fits mx b n \<longleftrightarrow> int (length b + n) \<le> mx"

text \<open>A frame of a type byte and at most one number, sent when it is pending and fits.\<close>

definition ctl_frame :: "bool \<Rightarrow> byte \<Rightarrow> u64 option \<Rightarrow> sf_kind \<Rightarrow> (qconn \<Rightarrow> qconn) \<Rightarrow> int \<Rightarrow> build \<Rightarrow> build" where
  "ctl_frame pend typ v k clear mx st =
     (let (b, p, c) = st in
      if pend \<and> fits mx b (1 + (case v of None \<Rightarrow> 0 | Some n \<Rightarrow> VarintLen n))
      then (case v of None \<Rightarrow> b @ [typ] | Some n \<Rightarrow> AppendVarint (b @ [typ]) n, sp_add (ctl_mark k 0) p, clear c)
      else st)"

fun path_frames :: "int \<Rightarrow> bytes \<Rightarrow> sentPacket \<Rightarrow> bytes list \<Rightarrow> bytes \<times> sentPacket \<times> bytes list" where
  "path_frames mx b p [] = (b, p, [])"
| "path_frames mx b p (d # ds) =
     (if fits mx b 9 then path_frames mx (b @ [framePathResponse] @ d) (p\<lparr>p_ackEliciting := True\<rparr>) ds
      else (b, p, d # ds))"

fun retire_frames :: "int \<Rightarrow> bytes \<Rightarrow> sentPacket \<Rightarrow> u64 list \<Rightarrow> bytes \<times> sentPacket \<times> u64 list" where
  "retire_frames mx b p [] = (b, p, [])"
| "retire_frames mx b p (q # qs) =
     (if fits mx b (1 + VarintLen q)
      then retire_frames mx (AppendVarint (b @ [frameRetireConnectionID]) q) (sp_add (ctl_mark sfRetireCID q) p) qs
      else (b, p, q # qs))"

definition appendControlFrames :: "int \<Rightarrow> build \<Rightarrow> build" where
  "appendControlFrames mx st =
     (let (b, p, c) = st;
          st = ctl_frame (c_handshakeDonePending c) frameHandshakeDone None sfHandshakeDone
                 (\<lambda>c. c\<lparr>c_handshakeDonePending := False\<rparr>) mx st;
          st = ctl_frame (c_maxDataPending c) frameMaxData (Some (c_recvMaxData c)) sfMaxData
                 (\<lambda>c. c\<lparr>c_maxDataPending := False\<rparr>) mx st;
          st = ctl_frame (c_maxStreamsBidiPending c) frameMaxStreamsBidi (Some (c_maxBidi c)) sfMaxStreamsBidi
                 (\<lambda>c. c\<lparr>c_maxStreamsBidiPending := False\<rparr>) mx st;
          st = ctl_frame (c_maxStreamsUniPending c) frameMaxStreamsUni (Some (c_maxUni c)) sfMaxStreamsUni
                 (\<lambda>c. c\<lparr>c_maxStreamsUniPending := False\<rparr>) mx st;
          (b, p, c) = st;
          (b, p, ds) = path_frames mx b p (c_pathResponses c);
          (b, p, qs) = retire_frames mx b p (c_retireCIDs c);
          c = c\<lparr>c_pathResponses := ds, c_retireCIDs := qs\<rparr>
      in if c_pingPending c \<and> fits mx b 1
         then (b @ [framePing], p\<lparr>p_ackEliciting := True\<rparr>, c\<lparr>c_pingPending := False\<rparr>)
         else (b, p, c))"

section \<open>Handshake data\<close>

definition crypto_frame :: "u64 \<Rightarrow> bytes \<Rightarrow> bytes \<Rightarrow> bytes" where
  "crypto_frame off data b = AppendVarint (AppendVarint (b @ [frameCrypto]) off) (of_nat (length data)) @ data"

definition crypto_mark :: "u64 \<Rightarrow> bytes \<Rightarrow> sentFrame" where
  "crypto_mark off data = \<lparr>f_kind = sfCrypto, f_fin = False, f_stream = 0, f_off = off, f_n = of_nat (length data)\<rparr>"

lemma crypto_frame_grows: "length b < length (crypto_frame off data b)"
  by (simp add: crypto_frame_def)

text \<open>\<open>appendCrypto\<close> on the send buffer of a space.\<close>

function crypto_frames :: "int \<Rightarrow> bytes \<Rightarrow> sentPacket \<Rightarrow> qsendBuffer \<Rightarrow> bytes \<times> sentPacket \<times> qsendBuffer" where
  "crypto_frames mx b p cs0 =
     (let (has, cs) = hasLost cs0 in
      if \<not> has \<and> nextoff cs \<ge> sb_end cs then (b, p, cs)
      else
        (let off0 = (if has then max (sp_off (hd (lost cs))) (base cs) else nextoff cs);
             avail = mx - int (length b) - 1 - int (VarintLen off0) - 2
         in if avail \<le> 0 then (b, p, cs)
            else
              (let ((off, data), cs') = (if has then popLost (word_of_int avail) cs else popNew (word_of_int avail) cs)
               in crypto_frames mx (crypto_frame off data b) (sp_add (crypto_mark off data) p) cs')))"
  by pat_completeness auto
termination
proof (relation "measure (\<lambda>(mx, b, p, cs). nat (mx - int (length b)))", goal_cases)
  case (2 mx b p cs0 x has cs off0 avail y od cs' off data)
  then show ?case using crypto_frame_grows [of b] by (auto simp: zless_nat_conj)
qed simp

declare crypto_frames.simps [simp del]

definition appendCrypto :: "space \<Rightarrow> int \<Rightarrow> build \<Rightarrow> build" where
  "appendCrypto sp mx st =
     (let (b, p, c) = st; (b, p, cs) = crypto_frames mx b p (n_cryptoSend (c_spaces c sp))
      in (b, p, upd_space sp (\<lambda>s. s\<lparr>n_cryptoSend := cs\<rparr>) c))"

section \<open>Streams in turn\<close>

text \<open>What adding frames to a payload leaves alone.\<close>

lemma upd_stream_other [simp]:
  "c_sendQueue (upd_stream sid f c) = c_sendQueue c" "c_spaces (upd_stream sid f c) = c_spaces c"
  "c_cc (upd_stream sid f c) = c_cc c" "c_closed (upd_stream sid f c) = c_closed c"
  "c_isClient (upd_stream sid f c) = c_isClient c"
  by (simp_all add: upd_stream_def)

text \<open>The parts of a connection that adding stream frames does not touch.\<close>

definition send_frame :: "qconn \<Rightarrow> u64 list \<times> (space \<Rightarrow> pnSpace) \<times> newReno \<times> bool \<times> bool" where
  "send_frame c = (c_sendQueue c, c_spaces c, c_cc c, c_closed c, c_isClient c)"

lemma send_frame_simps [simp]:
  "send_frame (upd_stream sid f c) = send_frame c" "send_frame (c\<lparr>c_sentData := n\<rparr>) = send_frame c"
  by (simp_all add: send_frame_def)

lemma stream_hasLost_frame [simp]: "send_frame (snd (stream_hasLost sid c)) = send_frame c"
  by (simp add: stream_hasLost_def case_prod_beta)

lemma sendable_frame [simp]: "send_frame (snd (sendable sid c)) = send_frame c"
  by (simp add: sendable_def Let_def case_prod_beta)

lemma appendStreamFrame_frame [simp]:
  "send_frame (snd (snd (appendStreamFrame sid off data st))) = send_frame (snd (snd st))"
  by (simp add: appendStreamFrame_def Let_def case_prod_beta)

lemma append_pending_frame [simp]:
  "send_frame (snd (snd (append_pending pend fr clr k mx sid st))) = send_frame (snd (snd st))"
  by (simp add: append_pending_def Let_def case_prod_beta)

text \<open>Invariants of the two loops of \<open>Stream.appendFrames\<close>.\<close>

definition lost_step :: "int \<Rightarrow> u64 \<Rightarrow> build \<Rightarrow> build \<Rightarrow> bool" where
  "lost_step mx sid st st' \<longleftrightarrow>
     (let (b, p, c) = st; sb = s_send (c_store c sid); avail = stream_avail mx b sid (sp_off (hd (lost sb)));
          ((off, data), sb') = popLost (word_of_int avail) sb
      in lost sb \<noteq> [] \<and> base sb < sp_end (hd (lost sb)) \<and> 0 < avail \<and>
         st' = appendStreamFrame sid off data (b, p, upd_stream sid (\<lambda>s. s\<lparr>s_send := sb'\<rparr>) c))"

definition new_step :: "int \<Rightarrow> u64 \<Rightarrow> build \<Rightarrow> build \<Rightarrow> bool" where
  "new_step mx sid st st' \<longleftrightarrow>
     (let (b, p, c) = st; sb = s_send (c_store c sid); credit = sendCredit sid c;
          avail = stream_avail mx b sid (nextoff sb);
          ((off, data), sb') = popNew (min (word_of_int avail) credit) sb;
          c1 = upd_stream sid (\<lambda>s. s\<lparr>s_send := sb'\<rparr>) c;
          c1 = c1\<lparr>c_sentData := c_sentData c1 + of_nat (length data)\<rparr>
      in nextoff sb < sb_end sb \<and> credit \<noteq> 0 \<and> 0 < avail \<and> st' = appendStreamFrame sid off data (b, p, c1))"

lemma hasLost_front:
  assumes "stream_hasLost sid c = (True, c1)"
  shows "lost (s_send (c_store c1 sid)) \<noteq> [] \<and> base (s_send (c_store c1 sid)) < sp_end (hd (lost (s_send (c_store c1 sid))))"
proof -
  let ?sb = "s_send (c_store c sid)"
  let ?l = "dropWhile (\<lambda>s. sp_end s \<le> base ?sb) (lost ?sb)"
  have sb: "s_send (c_store c1 sid) = ?sb\<lparr>lost := ?l\<rparr>" and ne: "?l \<noteq> []"
    using assms by (auto simp: stream_hasLost_def hasLost_def Let_def upd_stream_def)
  from hd_dropWhile [OF ne] have "base ?sb < sp_end (hd ?l)" by (simp only: not_le)
  with ne show ?thesis unfolding sb by (simp del: dropWhile_eq_Nil_conv)
qed

lemma lost_frames_invariant:
  assumes "lost_frames mx sid b p c = (stop, st')" and "I (b, p, c)"
    and "\<And>b p c. I (b, p, c) \<Longrightarrow> I (b, p, snd (stream_hasLost sid c))"
    and "\<And>st st'. I st \<Longrightarrow> lost_step mx sid st st' \<Longrightarrow> I st'"
  shows "I st'"
  using assms
proof (induction mx sid b p c arbitrary: stop st' rule: lost_frames.induct)
  case (1 mx sid b p c)
  obtain has c1 where h: "stream_hasLost sid c = (has, c1)" by force
  have I1: "I (b, p, c1)" using "1.prems"(3) [OF "1.prems"(2)] h by simp
  let ?sb = "s_send (c_store c1 sid)" and ?av = "stream_avail mx b sid (sp_off (hd (lost (s_send (c_store c1 sid)))))"
  show ?case
  proof (cases "has \<and> \<not> ?av \<le> 0")
    case False
    then show ?thesis using I1 "1.prems"(1) by (auto simp: lost_frames.simps [of mx sid b p c] h Let_def split: if_splits)
  next
    case True
    obtain off data sb' where pl: "popLost (word_of_int ?av) ?sb = ((off, data), sb')" by (metis prod.collapse)
    obtain b' p' c' where a: "appendStreamFrame sid off data (b, p, upd_stream sid (\<lambda>s. s\<lparr>s_send := sb'\<rparr>) c1) = (b', p', c')"
      by (metis prod.collapse)
    have "lost_step mx sid (b, p, c1) (b', p', c')"
      using hasLost_front [of sid c c1] h True by (simp add: lost_step_def Let_def pl a)
    then have "I (b', p', c')" using "1.prems"(4) I1 by blast
    moreover have "lost_frames mx sid b' p' c' = (stop, st')"
      using "1.prems"(1) True by (simp add: lost_frames.simps [of mx sid b p c] h Let_def pl a)
    ultimately show ?thesis
      using "1.IH" [OF refl h [symmetric] refl _ refl _ refl pl [symmetric] refl a [symmetric] refl] True "1.prems"(3,4)
      by blast
  qed
qed

lemma new_frames_invariant:
  assumes "new_frames mx sid b p c = (stop, st')" and "I (b, p, c)"
    and "\<And>st st'. I st \<Longrightarrow> new_step mx sid st st' \<Longrightarrow> I st'"
  shows "I st'"
  using assms
proof (induction mx sid b p c arbitrary: stop st' rule: new_frames.induct)
  case (1 mx sid b p c)
  let ?sb = "s_send (c_store c sid)" and ?av = "stream_avail mx b sid (nextoff (s_send (c_store c sid)))"
  show ?case
  proof (cases "nextoff ?sb < sb_end ?sb \<and> \<not> (sendCredit sid c = 0 \<or> ?av \<le> 0)")
    case False
    then show ?thesis using "1.prems"(1,2)
      by (auto simp: new_frames.simps [of mx sid b p c] Let_def split: if_splits)
  next
    case True
    obtain off data sb' where pl: "popNew (min (word_of_int ?av) (sendCredit sid c)) ?sb = ((off, data), sb')"
      by (metis prod.collapse)
    let ?c = "upd_stream sid (\<lambda>s. s\<lparr>s_send := sb'\<rparr>) c"
    let ?c = "?c\<lparr>c_sentData := c_sentData ?c + of_nat (length data)\<rparr>"
    obtain b' p' c' where a: "appendStreamFrame sid off data (b, p, ?c) = (b', p', c')"
      by (metis prod.collapse)
    have "new_step mx sid (b, p, c) (b', p', c')"
      using True by (simp add: new_step_def Let_def pl a)
    then have "I (b', p', c')" using "1.prems"(3) "1.prems"(2) by blast
    moreover have "new_frames mx sid b' p' c' = (stop, st')"
      using "1.prems"(1) True by (simp add: new_frames.simps [of mx sid b p c] Let_def pl a)
    ultimately show ?thesis
      using "1.IH" [OF refl _ refl refl _ refl pl [symmetric] refl refl refl a [symmetric] refl] True "1.prems"(3)
      by blast
  qed
qed

lemma lost_step_frame: "lost_step mx sid st st' \<Longrightarrow> send_frame (snd (snd st')) = send_frame (snd (snd st))"
  by (auto simp: lost_step_def Let_def case_prod_beta)

lemma new_step_frame: "new_step mx sid st st' \<Longrightarrow> send_frame (snd (snd st')) = send_frame (snd (snd st))"
  by (auto simp: new_step_def Let_def case_prod_beta)

text \<open>
  \<open>Stream.appendFrames\<close> as a sequence of steps: looking for lost ranges, one frame without data, one
  frame of lost or new data, the empty frame that ends the stream.
\<close>

definition fin_step :: "int \<Rightarrow> u64 \<Rightarrow> build \<Rightarrow> build \<Rightarrow> bool" where
  "fin_step mx sid st st' \<longleftrightarrow>
     (let (b, p, c) = st; s = c_store c sid
      in s_finQueued s \<and> \<not> s_finSent s \<and> 0 \<le> stream_avail mx b sid (nextoff (s_send s)) + 1 \<and>
         st' = appendStreamFrame sid (nextoff (s_send s)) [] st)"

inductive frame_step :: "int \<Rightarrow> u64 \<Rightarrow> build \<Rightarrow> build \<Rightarrow> bool" for mx sid where
  look: "frame_step mx sid (b, p, c) (b, p, snd (stream_hasLost sid c))"
| stop: "frame_step mx sid st (append_pending s_stopPending (\<lambda>s. appendStopSending [] sid (s_stopCode s))
           (\<lambda>s. s\<lparr>s_stopPending := False\<rparr>) sfStopSending mx sid st)"
| maxdata: "frame_step mx sid st (append_pending s_maxDataPending (\<lambda>s. appendMaxStreamData [] sid (s_recvMax s))
           (\<lambda>s. s\<lparr>s_maxDataPending := False\<rparr>) sfMaxStreamData mx sid st)"
| reset: "frame_step mx sid st (append_pending s_resetPending
           (\<lambda>s. appendResetStream [] sid (s_resetCode s) (s_finalSize s))
           (\<lambda>s. s\<lparr>s_resetPending := False\<rparr>) sfResetStream mx sid st)"
| lost_data: "lost_step mx sid st st' \<Longrightarrow> frame_step mx sid st st'"
| new_data: "new_step mx sid st st' \<Longrightarrow> frame_step mx sid st st'"
| fin: "fin_step mx sid st st' \<Longrightarrow> frame_step mx sid st st'"

lemma stream_appendFrames_steps: "(frame_step mx sid)\<^sup>*\<^sup>* st (stream_appendFrames mx sid st)"
proof -
  let ?R = "(frame_step mx sid)\<^sup>*\<^sup>*"
  define st1 where "st1 = append_pending s_stopPending (\<lambda>s. appendStopSending [] sid (s_stopCode s))
    (\<lambda>s. s\<lparr>s_stopPending := False\<rparr>) sfStopSending mx sid st"
  define st2 where "st2 = append_pending s_maxDataPending (\<lambda>s. appendMaxStreamData [] sid (s_recvMax s))
    (\<lambda>s. s\<lparr>s_maxDataPending := False\<rparr>) sfMaxStreamData mx sid st1"
  define st3 where "st3 = append_pending s_resetPending (\<lambda>s. appendResetStream [] sid (s_resetCode s) (s_finalSize s))
    (\<lambda>s. s\<lparr>s_resetPending := False\<rparr>) sfResetStream mx sid st2"
  have "frame_step mx sid st st1" "frame_step mx sid st1 st2" "frame_step mx sid st2 st3"
    unfolding st3_def st2_def st1_def by (rule frame_step.stop frame_step.maxdata frame_step.reset)+
  then have "?R st st3" by (meson rtranclp.rtrancl_into_rtrancl rtranclp.rtrancl_refl)
  obtain b p c where e3: "st3 = (b, p, c)" by (metis prod.collapse)
  obtain stop4 st4 where e4: "lost_frames mx sid b p c = (stop4, st4)" by (metis prod.collapse)
  have "?R st3 st4" unfolding e3
    by (rule lost_frames_invariant [OF e4]) (auto intro: rtranclp.rtrancl_into_rtrancl frame_step.intros)
  obtain b' p' c' where f4: "st4 = (b', p', c')" by (metis prod.collapse)
  obtain stop5 st5 where e5: "new_frames mx sid b' p' c' = (stop5, st5)" by (metis prod.collapse)
  have "?R st4 st5" unfolding f4
    by (rule new_frames_invariant [OF e5]) (auto intro: rtranclp.rtrancl_into_rtrancl frame_step.intros)
  obtain b'' p'' c'' where f5: "st5 = (b'', p'', c'')" by (metis prod.collapse)
  have "stream_appendFrames mx sid st \<in> {st3, st4, st5} \<or> fin_step mx sid st5 (stream_appendFrames mx sid st)"
    unfolding stream_appendFrames_def st1_def [symmetric] st2_def [symmetric] st3_def [symmetric] Let_def
    by (simp add: e3 e4 f4 e5 f5 fin_step_def Let_def)
  moreover have "?R st st4" "?R st st5"
    using \<open>?R st st3\<close> \<open>?R st3 st4\<close> \<open>?R st4 st5\<close> by (blast intro: rtranclp_trans)+
  ultimately show ?thesis
    using \<open>?R st st3\<close> by (metis empty_iff insert_iff rtranclp.rtrancl_into_rtrancl frame_step.fin)
qed

lemma stream_appendFrames_invariant:
  assumes "I st" and "\<And>st st'. I st \<Longrightarrow> frame_step mx sid st st' \<Longrightarrow> I st'"
  shows "I (stream_appendFrames mx sid st)"
  using stream_appendFrames_steps [of mx sid st] by (induction rule: rtranclp_induct) (use assms in auto)

lemma frame_step_frame: "frame_step mx sid st st' \<Longrightarrow> send_frame (snd (snd st')) = send_frame (snd (snd st))"
  by (induction rule: frame_step.induct) (auto simp: lost_step_frame new_step_frame fin_step_def Let_def case_prod_beta)

lemma stream_appendFrames_frame [simp]:
  "send_frame (snd (snd (stream_appendFrames mx sid st))) = send_frame (snd (snd st))"
  by (rule stream_appendFrames_invariant [where I = "\<lambda>st'. send_frame (snd (snd st')) = send_frame (snd (snd st))"])
    (auto dest: frame_step_frame)

text \<open>
  The loop of \<open>appendStreams\<close>, \<open>i\<close> the position in the queue: a turn adds the frames of one stream and
  says whether it has more to send.
\<close>

definition stream_turn :: "int \<Rightarrow> u64 \<Rightarrow> build \<Rightarrow> bool \<times> build" where
  "stream_turn mx sid st =
     (let (b, p, c) = (if \<not> s_done (c_store (snd (snd st)) sid) then stream_appendFrames mx sid st else st);
          (ok, c) = (if s_done (c_store c sid) then (False, c) else sendable sid c)
      in (ok, (b, p, c)))"

lemma stream_turn_frame: "send_frame (snd (snd (snd (stream_turn mx sid st)))) = send_frame (snd (snd st))"
  by (simp add: stream_turn_def Let_def case_prod_beta)

lemma stream_turn_queue: "stream_turn mx sid st = (ok, (b, p, c')) \<Longrightarrow> c_sendQueue c' = c_sendQueue (snd (snd st))"
  using stream_turn_frame [of mx sid st] by (simp add: send_frame_def)

definition dequeue :: "nat \<Rightarrow> u64 \<Rightarrow> qconn \<Rightarrow> qconn" where
  "dequeue i sid c =
     (upd_stream sid (\<lambda>s. s\<lparr>s_queued := False\<rparr>) c)
       \<lparr>c_sendQueue := take i (c_sendQueue c) @ drop (i + 1) (c_sendQueue c)\<rparr>"

function streams_loop :: "int \<Rightarrow> nat \<Rightarrow> build \<Rightarrow> nat \<times> build" where
  "streams_loop mx i st =
     (let c = snd (snd st) in
      if \<not> (i < length (c_sendQueue c) \<and> mx - int (length (fst st)) > 16) then (i, st)
      else
        (let sid = c_sendQueue c ! i; (ok, (b, p, c')) = stream_turn mx sid st in
         if \<not> ok then streams_loop mx i (b, p, dequeue i sid c') else streams_loop mx (i + 1) (b, p, c')))"
  by pat_completeness auto
termination
  by (relation "measure (\<lambda>(mx, i, st). length (c_sendQueue (snd (snd st))) - i)")
    (auto simp: dequeue_def dest!: stream_turn_queue [OF sym])

declare streams_loop.simps [simp del]

definition appendStreams :: "int \<Rightarrow> build \<Rightarrow> build" where
  "appendStreams mx st =
     (let (i, (b, p, c)) = streams_loop mx 0 st; q = c_sendQueue c in
      if length q > 1 \<and> i > 0 then (b, p, c\<lparr>c_sendQueue := tl q @ [hd q]\<rparr>) else (b, p, c))"

definition appendFrames :: "space \<Rightarrow> int \<Rightarrow> build \<Rightarrow> build" where
  "appendFrames sp mx st =
     (let st = (if sp = spaceApp then appendControlFrames mx st else st);
          st = appendCrypto sp mx st
      in if sp = spaceApp then appendStreams mx st else st)"

section \<open>Packets\<close>

definition ackDue :: "pnSpace \<Rightarrow> time \<Rightarrow> bool" where
  "ackDue s now \<longleftrightarrow> n_ackPending s \<and> (n_ackNow s \<or> n_ackDeadline s \<noteq> 0 \<and> \<not> now < n_ackDeadline s)"

text \<open>
  The payload of a packet: the acknowledgement when there is one and it takes at most half, the
  frames congestion control allows, a PING when a probe would carry nothing else.
\<close>

definition packet_payload :: "space \<Rightarrow> int \<Rightarrow> bool \<Rightarrow> time \<Rightarrow> qconn \<Rightarrow> bool \<times> build" where
  "packet_payload sp mx mayElicit now c =
     (let s = c_spaces c sp; ack = appendAck [] sp now c;
          withAck = (n_ackPending s \<and> n_recv s \<noteq> [] \<and> int (length ack) \<le> mx div 2);
          st = (if withAck then ack else [], newSentPacket (n_nextPN s), c);
          (b, p, c) = (if mayElicit then appendFrames sp mx st else st)
      in if n_probes s > 0 \<and> \<not> p_ackEliciting p \<and> int (length b) < mx
         then (withAck, (b @ [framePing], p\<lparr>p_ackEliciting := True\<rparr>, c))
         else (withAck, (b, p, c)))"

definition buildPacket :: "space \<Rightarrow> int \<Rightarrow> bool \<Rightarrow> time \<Rightarrow> qconn \<Rightarrow> packetPlan option \<times> qconn" where
  "buildPacket sp room mayElicit now c =
     (let s = c_spaces c sp; pl = pnLen (n_nextPN s) (n_largestAcked s);
          mx = room - int (headerLen c sp pl) - int aeadOverhead
      in if mx < 16 then (None, c)
         else
           (let due = ackDue s now;
                (withAck, (payload, p, c)) = packet_payload sp mx mayElicit now c
            in if \<not> p_ackEliciting p \<and> \<not> (withAck \<and> due) then (None, c)
               else
                 (let c = (if withAck
                           then upd_space sp (\<lambda>s. s\<lparr>n_ackPending := False, n_ackNow := False, n_unackedEliciting := 0,
                                  n_ackDeadline := 0\<rparr>) c else c);
                      c = (if p_ackEliciting p \<and> n_probes (c_spaces c sp) > 0
                           then upd_space sp (\<lambda>s. s\<lparr>n_probes := n_probes s - 1\<rparr>) c else c);
                      short = 4 - int pl - int (length payload);
                      c = upd_space sp (\<lambda>s. s\<lparr>n_nextPN := n_nextPN s + 1\<rparr>) c
                  in (Some \<lparr>pl_space = sp, pl_pn = n_nextPN s, pl_pnLen = pl,
                            pl_payload = payload @ replicate (nat short) 0, pl_sp = p, pl_padded = (short > 0)\<rparr>, c))))"

section \<open>Datagrams\<close>

text \<open>One turn over the spaces: the plans so far, their size and the connection.\<close>

definition build_turn :: "bool \<Rightarrow> time \<Rightarrow> packetPlan list \<times> nat \<times> qconn \<Rightarrow> space \<Rightarrow> packetPlan list \<times> nat \<times> qconn" where
  "build_turn congestionOK now st sp =
     (let (plans, size, c) = st; s = c_spaces c sp in
      if n_tx s = None \<or> n_discarded s then st
      else
        (case buildPacket sp (int maxDatagram - int size) (congestionOK \<or> n_probes s > 0) now c of
           (None, c) \<Rightarrow> (plans, size, c)
         | (Some plan, c) \<Rightarrow> (plans @ [plan], size + packetSize c plan, c)))"

definition mark_padded :: "packetPlan list \<Rightarrow> packetPlan list" where
  "mark_padded plans = butlast plans @ [(last plans)\<lparr>pl_padded := True\<rparr>]"

definition record_sent :: "time \<Rightarrow> packetPlan \<Rightarrow> qconn \<Rightarrow> qconn" where
  "record_sent now p c =
     onPacketSent (pl_space p)
       ((pl_sp p)\<lparr>p_time := now, p_size := packetSize c p, p_inFlight := (p_ackEliciting (pl_sp p) \<or> pl_padded p)\<rparr>) c"

definition buildDatagram :: "time \<Rightarrow> qconn \<Rightarrow> bytes option \<times> qconn" where
  "buildDatagram now c =
     (if atAmplificationLimit c then (None, c)
      else
        (let (plans, size, c) = foldl (build_turn (canSend (c_cc c)) now) ([], 0, c) all_spaces in
         if plans = [] then (None, c)
         else
           (let pad = (\<exists>p \<in> set plans. pl_space p = spaceInitial \<and> (c_isClient c \<or> p_ackEliciting (pl_sp p)));
                plans = (if pad \<and> size < minInitialDatagram
                         then mark_padded (pad_last (minInitialDatagram - size) plans) else plans);
                out = foldl (conn_sealPlan c) [] plans
            in (Some out, fold (record_sent now) plans c))))"

section \<open>The timer\<close>

definition idleDeadline :: "qconn \<Rightarrow> time" where
  "idleDeadline c = c_lastActivity c + max (c_idleTimeout c) (wrap64 (3 * rtt_pto (c_rtt c)))"

definition keepAliveAt :: "qconn \<Rightarrow> time" where
  "keepAliveAt c =
     max (c_lastActivity c) (n_lastAckElicitingSent (c_spaces c spaceApp)) + cf_KeepAlivePeriod (c_config c)"

definition earliest :: "time \<Rightarrow> time \<Rightarrow> time" where
  "earliest t deadline = (if t \<noteq> 0 \<and> t < deadline then t else deadline)"

definition armTimerLocked :: "time \<Rightarrow> qconn \<Rightarrow> qconn" where
  "armTimerLocked now c =
     (if c_closed c then c
      else
        (let d = idleDeadline c;
             d = (if \<not> c_handshakeComplete c then earliest (c_created c + cf_HandshakeTimeout (c_config c)) d else d);
             d = earliest (c_lossDeadline c) d;
             s = c_spaces c spaceApp;
             d = (if n_ackPending s \<and> \<not> n_ackNow s then earliest (n_ackDeadline s) d else d);
             d = (if cf_KeepAlivePeriod (c_config c) > 0 \<and> c_handshakeComplete c then earliest (keepAliveAt c) d else d)
         in c\<lparr>c_timer := Some (now + max (time_Sub d now) 0)\<rparr>))"

section \<open>Sending what there is\<close>

text \<open>\<open>None\<close> stands for a loop that goes on for ever.\<close>

partial_function (option) send_loop :: "time \<Rightarrow> qconn \<Rightarrow> qconn option" where
  "send_loop now c =
     (if c_closed c then Some c
      else
        (case buildDatagram now c of
           (None, c') \<Rightarrow> Some c'
         | (Some d, c') \<Rightarrow>
             send_loop now (c'\<lparr>c_bytesSent := c_bytesSent c' + of_nat (length d), c_out := c_out c' @ [d]\<rparr>)))"

definition flushLocked :: "time \<Rightarrow> qconn \<Rightarrow> qconn option" where
  "flushLocked now c =
     map_option (\<lambda>c. if c_closed c then c else armTimerLocked now (setLossDetectionTimer now c)) (send_loop now c)"

section \<open>What holds across sending\<close>

lemma path_frames_drop: "\<exists>i. snd (snd (path_frames mx b p ds)) = drop i ds"
proof (induction mx b p ds rule: path_frames.induct)
  case (2 mx b p d ds)
  show ?case
  proof (cases "fits mx b 9")
    case True
    with 2 obtain i where "snd (snd (path_frames mx (b @ [framePathResponse] @ d) (p\<lparr>p_ackEliciting := True\<rparr>) ds)) = drop i ds"
      by blast
    then show ?thesis using True by (intro exI [of _ "Suc i"]) simp
  qed (auto intro: exI [of _ 0])
qed simp

text \<open>
  A relation between connections that is kept by the single updates building a payload consists of is
  kept by building it, one kept by those of a packet as well by building packets, one kept by recording
  them by building a datagram, and one kept by sending it by \<open>flushLocked\<close>. The laws list those updates;
  their instances are the invariants of the connection.
\<close>

locale payload_relation =
  fixes R :: "qconn \<Rightarrow> qconn \<Rightarrow> bool"
  assumes R_refl: "R c c"
    and R_trans: "R a b \<Longrightarrow> R b c \<Longrightarrow> R a c"
    and R_frame: "frame_step mx sid st st' \<Longrightarrow> R (snd (snd st)) (snd (snd st'))"
    and R_sendable: "R c (snd (sendable sid c))"
    and R_dequeue: "R c (dequeue i sid c)"
    and R_queue: "R c (c\<lparr>c_sendQueue := q\<rparr>)"
    and R_control: "R c (c\<lparr>c_handshakeDonePending := False\<rparr>)" "R c (c\<lparr>c_maxDataPending := False\<rparr>)"
      "R c (c\<lparr>c_maxStreamsBidiPending := False\<rparr>)" "R c (c\<lparr>c_maxStreamsUniPending := False\<rparr>)"
      "R c (c\<lparr>c_pathResponses := drop i (c_pathResponses c), c_retireCIDs := qs\<rparr>)" "R c (c\<lparr>c_pingPending := False\<rparr>)"
    and R_crypto: "crypto_frames mx out0 p (n_cryptoSend (c_spaces c sp)) = (out1, p', cs) \<Longrightarrow>
      R c (upd_space sp (\<lambda>s. s\<lparr>n_cryptoSend := cs\<rparr>) c)"
begin

lemma R_stream_frames: "R (snd (snd st)) (snd (snd (stream_appendFrames mx sid st)))"
  by (rule stream_appendFrames_invariant [where I = "\<lambda>st'. R (snd (snd st)) (snd (snd st'))"])
    (auto intro: R_refl R_trans R_frame)

lemma R_stream_turn: "R (snd (snd st)) (snd (snd (snd (stream_turn mx sid st))))"
  by (auto simp: stream_turn_def Let_def case_prod_beta intro: R_refl R_trans R_sendable R_stream_frames)

lemma R_streams_loop: "R (snd (snd st)) (snd (snd (snd (streams_loop mx i st))))"
proof (induction mx i st rule: streams_loop.induct)
  case (1 mx i st)
  let ?c = "snd (snd st)" and ?sid = "c_sendQueue (snd (snd st)) ! i"
  obtain ok b p c' where t: "stream_turn mx ?sid st = (ok, (b, p, c'))" by (metis prod.collapse)
  have v: "R ?c c'" using R_stream_turn [of st mx ?sid] t by simp
  have d: "R ?c (dequeue i ?sid c')" by (rule R_trans [OF v R_dequeue])
  show ?case
  proof (cases "i < length (c_sendQueue ?c) \<and> mx - int (length (fst st)) > 16")
    case False
    then show ?thesis by (simp add: streams_loop.simps [of mx i st] Let_def R_refl)
  next
    case in_range: True
    show ?thesis
    proof (cases ok)
      case True
      then show ?thesis
        using "1.IH"(2) [OF refl _ refl t [symmetric] refl refl] in_range R_trans [OF v]
        by (simp add: streams_loop.simps [of mx i st] Let_def t)
    next
      case False
      then show ?thesis
        using "1.IH"(1) [OF refl _ refl t [symmetric] refl refl] in_range R_trans [OF d]
        by (simp add: streams_loop.simps [of mx i st] Let_def t)
    qed
  qed
qed

lemma R_ctl_frame:
  "(\<And>c. R c (clear c)) \<Longrightarrow> R c0 (snd (snd st)) \<Longrightarrow> R c0 (snd (snd (ctl_frame pend ty v k clear mx st)))"
  by (auto simp: ctl_frame_def Let_def case_prod_beta intro: R_trans)

lemma R_appendControlFrames: "R (snd (snd st)) (snd (snd (appendControlFrames mx st)))"
proof -
  let ?c0 = "snd (snd st)"
  define st1 where "st1 = ctl_frame (c_handshakeDonePending ?c0) frameHandshakeDone None sfHandshakeDone
    (\<lambda>c. c\<lparr>c_handshakeDonePending := False\<rparr>) mx st"
  define st2 where "st2 = ctl_frame (c_maxDataPending ?c0) frameMaxData (Some (c_recvMaxData ?c0)) sfMaxData
    (\<lambda>c. c\<lparr>c_maxDataPending := False\<rparr>) mx st1"
  define st3 where "st3 = ctl_frame (c_maxStreamsBidiPending ?c0) frameMaxStreamsBidi (Some (c_maxBidi ?c0)) sfMaxStreamsBidi
    (\<lambda>c. c\<lparr>c_maxStreamsBidiPending := False\<rparr>) mx st2"
  define st4 where "st4 = ctl_frame (c_maxStreamsUniPending ?c0) frameMaxStreamsUni (Some (c_maxUni ?c0)) sfMaxStreamsUni
    (\<lambda>c. c\<lparr>c_maxStreamsUniPending := False\<rparr>) mx st3"
  have 4: "R ?c0 (snd (snd st4))"
    unfolding st4_def st3_def st2_def st1_def by (intro R_ctl_frame R_control R_refl)
  obtain b p c where f: "st4 = (b, p, c)" by (metis prod.collapse)
  obtain b1 p1 ds where pf: "path_frames mx b p (c_pathResponses c) = (b1, p1, ds)" by (metis prod.collapse)
  obtain b2 p2 qs where rf: "retire_frames mx b1 p1 (c_retireCIDs c) = (b2, p2, qs)" by (metis prod.collapse)
  obtain i where i: "ds = drop i (c_pathResponses c)" using path_frames_drop [of mx b p "c_pathResponses c"] pf by auto
  let ?c1 = "c\<lparr>c_pathResponses := ds, c_retireCIDs := qs\<rparr>"
  have 5: "R ?c0 ?c1" using 4 R_trans [OF _ R_control(5)] unfolding i by (simp add: f)
  have "appendControlFrames mx st =
    (if c_pingPending ?c1 \<and> fits mx b2 1 then (b2 @ [framePing], p2\<lparr>p_ackEliciting := True\<rparr>, ?c1\<lparr>c_pingPending := False\<rparr>)
     else (b2, p2, ?c1))"
    unfolding appendControlFrames_def Let_def case_prod_beta st1_def [symmetric] st2_def [symmetric] st3_def [symmetric]
      st4_def [symmetric] by (simp add: f pf rf)
  then show ?thesis using 5 R_trans [OF 5 R_control(6)] by simp
qed

lemma R_appendStreams: "R (snd (snd st)) (snd (snd (appendStreams mx st)))"
  using R_streams_loop [of st mx 0] R_trans [OF R_streams_loop [of st mx 0] R_queue]
  by (simp add: appendStreams_def Let_def case_prod_beta)

lemma R_appendCrypto: "R (snd (snd st)) (snd (snd (appendCrypto sp mx st)))"
proof -
  obtain b p c where st: "st = (b, p, c)" by (metis prod.collapse)
  obtain b' p' cs where f: "crypto_frames mx b p (n_cryptoSend (c_spaces c sp)) = (b', p', cs)" by (metis prod.collapse)
  show ?thesis using R_crypto [OF f] by (simp add: st appendCrypto_def f)
qed

lemma R_appendFrames: "R (snd (snd st)) (snd (snd (appendFrames sp mx st)))"
proof -
  define st1 where "st1 = (if sp = spaceApp then appendControlFrames mx st else st)"
  have 1: "R (snd (snd st)) (snd (snd st1))" by (simp add: st1_def R_refl R_appendControlFrames)
  have 2: "R (snd (snd st)) (snd (snd (appendCrypto sp mx st1)))" by (rule R_trans [OF 1 R_appendCrypto])
  then show ?thesis
    using R_trans [OF 2 R_appendStreams] by (cases "sp = spaceApp") (simp_all add: appendFrames_def Let_def st1_def)
qed

lemma R_packet_payload: "R c (snd (snd (snd (packet_payload sp mx el now c))))"
  using R_appendFrames [of "(b, p, c)" for b p] by (simp add: packet_payload_def Let_def case_prod_beta R_refl)

end

locale build_relation = payload_relation +
  assumes R_acked: "R c (upd_space sp (\<lambda>s. s\<lparr>n_ackPending := False, n_ackNow := False, n_unackedEliciting := 0,
      n_ackDeadline := 0\<rparr>) c)"
    and R_probe: "R c (upd_space sp (\<lambda>s. s\<lparr>n_probes := n_probes s - 1\<rparr>) c)"
    and R_number: "R c (upd_space sp (\<lambda>s. s\<lparr>n_nextPN := n_nextPN s + 1\<rparr>) c)"
begin

lemma R_buildPacket: "R c (snd (buildPacket sp room el now c))"
proof -
  have 1: "R c (if a then upd_space sp (\<lambda>s. s\<lparr>n_ackPending := False, n_ackNow := False, n_unackedEliciting := 0,
      n_ackDeadline := 0\<rparr>) c' else c')" if "R c c'" for a c'
    using that R_trans [OF that R_acked] by simp
  have 2: "R c (if a then upd_space sp (\<lambda>s. s\<lparr>n_probes := n_probes s - 1\<rparr>) c' else c')" if "R c c'" for a c'
    using that R_trans [OF that R_probe] by simp
  show ?thesis
    unfolding buildPacket_def Let_def case_prod_beta
    by (simp only: if_distrib [of snd] snd_conv)
      (simp only: R_refl R_packet_payload R_trans [OF 2 [OF 1 [OF R_packet_payload]] R_number] if_split simp_thms)
qed

lemma R_build_turn: "R (snd (snd st)) (snd (snd (build_turn ok now st sp)))"
proof -
  let ?c = "snd (snd st)"
  let ?b = "buildPacket sp (int maxDatagram - int (fst (snd st))) (ok \<or> n_probes (c_spaces ?c sp) > 0) now ?c"
  have "R ?c (snd ?b)" by (rule R_buildPacket)
  then show ?thesis by (simp add: build_turn_def Let_def case_prod_beta R_refl split: option.split)
qed

lemma R_build_turns: "R (snd (snd st)) (snd (snd (foldl (build_turn ok now) st sps)))"
proof (induction sps arbitrary: st)
  case (Cons sp sps)
  show ?case using R_trans [OF R_build_turn Cons.IH] by simp
qed (simp add: R_refl)

end

locale datagram_relation = build_relation +
  assumes R_sent: "R c (onPacketSent sp p c)"
begin

lemma R_record_sent: "R c (fold (record_sent now) ps c)"
proof (induction ps arbitrary: c)
  case (Cons p ps)
  have "R c (record_sent now p c)" by (simp add: record_sent_def R_sent)
  from R_trans [OF this Cons.IH] show ?case by simp
qed (simp add: R_refl)

lemma R_buildDatagram: "R c (snd (buildDatagram now c))"
proof -
  obtain plans sz c1 where t: "foldl (build_turn (canSend (c_cc c)) now) ([], 0, c) all_spaces = (plans, sz, c1)"
    by (metis prod.collapse)
  have v: "R c c1" using R_build_turns [of "([], 0, c)" "canSend (c_cc c)" now all_spaces] t by simp
  show ?thesis using v R_trans [OF v R_record_sent] by (simp add: buildDatagram_def t Let_def R_refl)
qed

end

locale send_relation = datagram_relation +
  assumes R_out: "R c (c\<lparr>c_bytesSent := n, c_out := out\<rparr>)"
    and R_timer: "R c (setLossDetectionTimer now c)" "R c (armTimerLocked now c)"
begin

lemma R_send_loop:
  assumes "send_loop now c = Some c'"
  shows "R c c'"
proof (rule send_loop.raw_induct [OF _ assms, where P = "\<lambda>_ c c'. R c c'"])
  fix fl n c d
  assume hyp: "\<And>n c d. fl n c = Some d \<Longrightarrow> R c d"
    and body: "(if c_closed c then Some c
      else case buildDatagram n c of (None, c') \<Rightarrow> Some c'
        | (Some d, c') \<Rightarrow> fl n (c'\<lparr>c_bytesSent := c_bytesSent c' + of_nat (length d), c_out := c_out c' @ [d]\<rparr>)) = Some d"
  obtain dg c1 where b: "buildDatagram n c = (dg, c1)" by force
  have e: "R c c1" using R_buildDatagram [of c n] b by simp
  show "R c d"
  proof (cases "c_closed c \<or> dg = None")
    case True
    then show ?thesis using body e b R_refl by (auto split: if_splits)
  next
    case False
    then obtain out where out: "dg = Some out" by auto
    let ?c = "c1\<lparr>c_bytesSent := c_bytesSent c1 + of_nat (length out), c_out := c_out c1 @ [out]\<rparr>"
    have "R c ?c" by (rule R_trans [OF e R_out])
    moreover have "R ?c d" by (rule hyp) (use body False b out in simp)
    ultimately show ?thesis by (rule R_trans)
  qed
qed

lemma R_flushLocked: "flushLocked now c = Some c' \<Longrightarrow> R c c'"
proof -
  assume "flushLocked now c = Some c'"
  then obtain c1 where "send_loop now c = Some c1"
    "c' = (if c_closed c1 then c1 else armTimerLocked now (setLossDetectionTimer now c1))"
    by (auto simp: flushLocked_def)
  then show ?thesis
    using R_send_loop [of now c c1] R_trans [OF R_trans [OF _ R_timer(1)] R_timer(2), of c c1] by simp
qed

end

end
