(* ===== verification/Quic_Invariants.thy ===== *)
theory Quic_Invariants
  imports Quic_Send
begin

text \<open>
  What every operation of a QUIC connection keeps. \<open>evolves c c'\<close> collects it: handler calls are only
  added, closing happens once and queues the one \<open>OnClose\<close>, the bytes in flight follow the packets in
  flight, packets kept back for their keys are only let go, a discarded space stays discarded. The
  relation is reflexive and transitive, so that an operation evolves a connection when its parts do.
\<close>

section \<open>The relation\<close>

definition is_OnClose :: "qevent \<Rightarrow> bool" where
  "is_OnClose e \<longleftrightarrow> (\<exists>err. e = OnClose err)"

lemma is_OnClose_simps [simp]:
  "is_OnClose (OnClose err)" "\<not> is_OnClose OnHandshake" "\<not> is_OnClose (OnStreamData sid d f)"
  "\<not> is_OnClose (OnStreamReset sid code)" "\<not> is_OnClose (OnStopSending sid code)" "\<not> is_OnClose OnStreamsAvailable"
  by (simp_all add: is_OnClose_def)

definition closes :: "qevent list \<Rightarrow> nat" where
  "closes es = length (filter is_OnClose es)"

lemma closes_simps [simp]: "closes [] = 0" "closes (es @ fs) = closes es + closes fs"
  "closes (e # es) = (if is_OnClose e then 1 else 0) + closes es"
  by (simp_all add: closes_def)

text \<open>Bytes in flight less the sizes of the packets in flight.\<close>

definition in_flight_all :: "qconn \<Rightarrow> u64" where
  "in_flight_all c = sum_list (map (\<lambda>sp. in_flight (n_sent (c_spaces c sp))) all_spaces)"

definition balance :: "qconn \<Rightarrow> u64" where
  "balance c = bytesInFlight (c_cc c) - in_flight_all c"

definition closes_once :: "qconn \<Rightarrow> qconn \<Rightarrow> bool" where
  "closes_once c c' \<longleftrightarrow>
     (if c_closed c then c_closed c' \<and> c_events c' = c_events c
      else \<exists>es. closes es = 0 \<and>
        (if c_closed c' then \<exists>err. c_events c' = c_events c @ es @ [OnClose err] else c_events c' = c_events c @ es))"

text \<open>\<open>evolves_by k\<close> allows the balance to move by \<open>k\<close>, for the steps inside an operation.\<close>

definition evolves_by :: "u64 \<Rightarrow> qconn \<Rightarrow> qconn \<Rightarrow> bool" where
  "evolves_by k c c' \<longleftrightarrow>
     closes_once c c' \<and> balance c' = balance c + k \<and>
     (c_buffered c' = c_buffered c \<or> c_buffered c' = []) \<and>
     (\<forall>sp. n_discarded (c_spaces c sp) \<longrightarrow> n_discarded (c_spaces c' sp)) \<and>
     c_isClient c' = c_isClient c \<and> c_config c' = c_config c \<and> c_scid c' = c_scid c"

definition evolves :: "qconn \<Rightarrow> qconn \<Rightarrow> bool" where
  "evolves c c' \<longleftrightarrow> evolves_by 0 c c'"

lemma closes_once_openI:
  "\<not> c_closed c \<Longrightarrow> c_closed c' = c_closed c \<Longrightarrow> c_events c' = c_events c @ es \<Longrightarrow> closes es = 0 \<Longrightarrow> closes_once c c'"
  unfolding closes_once_def by auto

lemma closes_once_closeI:
  "\<not> c_closed c \<Longrightarrow> c_closed c' \<Longrightarrow> c_events c' = c_events c @ es @ [OnClose err] \<Longrightarrow> closes es = 0 \<Longrightarrow> closes_once c c'"
  unfolding closes_once_def by auto

lemma closes_onceE [consumes 1, case_names still goes_on closes]:
  assumes "closes_once c c'"
  obtains (still) "c_closed c" "c_closed c'" "c_events c' = c_events c"
  | (goes_on) es where "\<not> c_closed c" "\<not> c_closed c'" "c_events c' = c_events c @ es" "closes es = 0"
  | (closes) es err where "\<not> c_closed c" "c_closed c'" "c_events c' = c_events c @ es @ [OnClose err]" "closes es = 0"
  using assms unfolding closes_once_def by (auto split: if_splits)

lemma closes_once_trans:
  assumes ab: "closes_once a b" and bc: "closes_once b c"
  shows "closes_once a c"
  using ab
proof (cases rule: closes_onceE)
  case still
  then show ?thesis using bc by (simp add: closes_once_def)
next
  case (goes_on es)
  note A = goes_on
  show ?thesis
    using bc
  proof (cases rule: closes_onceE)
    case (goes_on fs)
    then show ?thesis using A by (intro closes_once_openI [of a c "es @ fs"]) simp_all
  next
    case (closes fs err)
    then show ?thesis using A by (intro closes_once_closeI [of a c "es @ fs" err]) simp_all
  qed (use A in simp)
next
  case (closes es err)
  then have "c_events c = c_events b" "c_closed c" using bc by (simp_all add: closes_once_def)
  then show ?thesis using closes by (intro closes_once_closeI [of a c es err]) simp_all
qed

lemma closes_once_same: "c_events c' = c_events c \<Longrightarrow> c_closed c' = c_closed c \<Longrightarrow> closes_once c c'"
  by (simp add: closes_once_def)

lemma closes_once_refl [simp]: "closes_once c c"
  by (rule closes_once_same) simp_all

lemma evolves_refl [simp]: "evolves_by 0 c c" "evolves c c"
  by (simp_all add: evolves_def evolves_by_def)

lemma evolves_by_trans: "evolves_by j a b \<Longrightarrow> evolves_by k b c \<Longrightarrow> evolves_by (j + k) a c"
  using closes_once_trans [of a b c] by (simp add: evolves_by_def add.assoc) (elim conjE disjE, simp_all)

lemma evolves_trans [trans]: "evolves a b \<Longrightarrow> evolves b c \<Longrightarrow> evolves a c"
  using evolves_by_trans [of 0 a b 0 c] by (simp add: evolves_def)

lemma evolves_by_0: "evolves c c' \<Longrightarrow> evolves_by 0 c c'"
  by (simp add: evolves_def)

text \<open>The parts the relation looks at.\<close>

definition ev_view where
  "ev_view c =
     (c_events c, c_closed c, c_cc c, \<lambda>sp. (n_sent (c_spaces c sp), n_discarded (c_spaces c sp)), c_buffered c,
      c_isClient c, c_config c, c_scid c)"

lemma ev_view_fields:
  assumes "ev_view c' = ev_view c"
  shows "c_events c' = c_events c" "c_closed c' = c_closed c" "c_cc c' = c_cc c"
    "n_sent (c_spaces c' sp) = n_sent (c_spaces c sp)" "n_discarded (c_spaces c' sp) = n_discarded (c_spaces c sp)"
    "c_buffered c' = c_buffered c" "c_isClient c' = c_isClient c" "c_config c' = c_config c" "c_scid c' = c_scid c"
  using assms by (simp_all add: ev_view_def fun_eq_iff)

lemma evolves_view: "ev_view c' = ev_view c \<Longrightarrow> evolves c c'"
  using ev_view_fields [of c' c] by (simp add: evolves_def evolves_by_def closes_once_same balance_def in_flight_all_def)

lemma evolves_after: "evolves c c' \<Longrightarrow> ev_view c'' = ev_view c' \<Longrightarrow> evolves c c''"
  using evolves_trans evolves_view by blast

lemma evolves_before: "ev_view c = ev_view b \<Longrightarrow> evolves c c' \<Longrightarrow> evolves b c'"
  using evolves_trans [of b c c'] evolves_view [of c b] by simp

lemma evolves_event: "\<not> c_closed c \<Longrightarrow> \<not> is_OnClose e \<Longrightarrow> evolves c (c\<lparr>c_events := c_events c @ [e]\<rparr>)"
  by (simp add: evolves_def evolves_by_def closes_once_def balance_def in_flight_all_def)

lemma evolves_fold: "(\<And>x c. x \<in> set xs \<Longrightarrow> evolves c (f x c)) \<Longrightarrow> evolves c (fold f xs c)"
proof (induction xs arbitrary: c)
  case (Cons x xs)
  have "evolves c (f x c)" using Cons.prems by simp
  moreover have "evolves (f x c) (fold f xs (f x c))" using Cons by simp
  ultimately show ?case using evolves_trans by simp
qed simp

lemma view_fold: "(\<And>x c. x \<in> set xs \<Longrightarrow> ev_view (f x c) = ev_view c) \<Longrightarrow> ev_view (fold f xs c) = ev_view c"
  by (induction xs arbitrary: c) auto

section \<open>Operations the relation does not see\<close>

lemma view_upd_stream [simp]: "ev_view (upd_stream sid f c) = ev_view c"
  by (simp add: ev_view_def upd_stream_def)

lemma view_upd_space:
  "(\<And>s. n_sent (f s) = n_sent s \<and> n_discarded (f s) = n_discarded s) \<Longrightarrow> ev_view (upd_space sp f c) = ev_view c"
  by (auto simp: ev_view_def upd_space_def fun_eq_iff)

text \<open>Assignments to other fields.\<close>

lemma view_updates [simp]:
  "ev_view (c\<lparr>c_store := a1\<rparr>) = ev_view c" "ev_view (c\<lparr>c_streams := a2\<rparr>) = ev_view c"
  "ev_view (c\<lparr>c_sendQueue := a2\<rparr>) = ev_view c" "ev_view (c\<lparr>c_openedBidi := a3\<rparr>) = ev_view c"
  "ev_view (c\<lparr>c_openedUni := a3\<rparr>) = ev_view c" "ev_view (c\<lparr>c_peerOpenedBidi := a3\<rparr>) = ev_view c"
  "ev_view (c\<lparr>c_peerOpenedUni := a3\<rparr>) = ev_view c" "ev_view (c\<lparr>c_peerDoneBidi := a3\<rparr>) = ev_view c"
  "ev_view (c\<lparr>c_peerDoneUni := a3\<rparr>) = ev_view c" "ev_view (c\<lparr>c_maxBidi := a3\<rparr>) = ev_view c"
  "ev_view (c\<lparr>c_maxUni := a3\<rparr>) = ev_view c" "ev_view (c\<lparr>c_maxStreamsBidiPending := a4\<rparr>) = ev_view c"
  "ev_view (c\<lparr>c_maxStreamsUniPending := a4\<rparr>) = ev_view c" "ev_view (c\<lparr>c_out := a5\<rparr>) = ev_view c"
  "ev_view (c\<lparr>c_recvConsumed := a3\<rparr>) = ev_view c" "ev_view (c\<lparr>c_recvMaxData := a3\<rparr>) = ev_view c"
  "ev_view (c\<lparr>c_maxDataPending := a4\<rparr>) = ev_view c" "ev_view (c\<lparr>c_recvData := a3\<rparr>) = ev_view c"
  "ev_view (c\<lparr>c_handshakeDonePending := a4\<rparr>) = ev_view c" "ev_view (c\<lparr>c_retireCIDs := a2\<rparr>) = ev_view c"
  "ev_view (c\<lparr>c_handshakeConfirmed := a4\<rparr>) = ev_view c" "ev_view (c\<lparr>c_handshakeComplete := a4\<rparr>) = ev_view c"
  "ev_view (c\<lparr>c_ptoCount := a6\<rparr>) = ev_view c" "ev_view (c\<lparr>c_rtt := a7\<rparr>) = ev_view c"
  by (simp_all add: ev_view_def)

lemma view_updates2 [simp]:
  "ev_view (c\<lparr>c_sentSinceRecv := a4\<rparr>) = ev_view c" "ev_view (c\<lparr>c_lastActivity := a8\<rparr>) = ev_view c"
  "ev_view (c\<lparr>c_tls := a9\<rparr>) = ev_view c" "ev_view (c\<lparr>c_peerResetToken := b1\<rparr>) = ev_view c"
  "ev_view (c\<lparr>c_peerCIDs := b2\<rparr>) = ev_view c" "ev_view (c\<lparr>c_peerParams := b3\<rparr>) = ev_view c"
  "ev_view (c\<lparr>c_peerMaxData := a3\<rparr>) = ev_view c" "ev_view (c\<lparr>c_peerMaxBidi := a3\<rparr>) = ev_view c"
  "ev_view (c\<lparr>c_peerMaxUni := a3\<rparr>) = ev_view c" "ev_view (c\<lparr>c_idleTimeout := a8\<rparr>) = ev_view c"
  "ev_view (c\<lparr>c_pathResponses := a5\<rparr>) = ev_view c" "ev_view (c\<lparr>c_retiredPrior := a3\<rparr>) = ev_view c"
  "ev_view (c\<lparr>c_dcidSeq := a3\<rparr>) = ev_view c" "ev_view (c\<lparr>c_dcid := b4\<rparr>) = ev_view c"
  "ev_view (c\<lparr>c_pingPending := a4\<rparr>) = ev_view c" "ev_view (c\<lparr>c_sentData := a3\<rparr>) = ev_view c"
  "ev_view (c\<lparr>c_lossDeadline := a8\<rparr>) = ev_view c" "ev_view (c\<lparr>c_timer := b5\<rparr>) = ev_view c"
  "ev_view (c\<lparr>c_bytesSent := a3\<rparr>) = ev_view c" "ev_view (c\<lparr>c_bytesRecv := a3\<rparr>) = ev_view c"
  "ev_view (c\<lparr>c_nextRx := b6\<rparr>) = ev_view c" "ev_view (c\<lparr>c_prevRx := b6\<rparr>) = ev_view c"
  "ev_view (c\<lparr>c_keyPhase := a4\<rparr>) = ev_view c" "ev_view (c\<lparr>c_phaseStart := a3\<rparr>) = ev_view c"
  "ev_view (c\<lparr>c_heardPeer := a4\<rparr>) = ev_view c" "ev_view (c\<lparr>c_addressValidated := a4\<rparr>) = ev_view c"
  "ev_view (c\<lparr>c_token := b4\<rparr>) = ev_view c" "ev_view (c\<lparr>c_retrySCID := b1\<rparr>) = ev_view c"
  "ev_view (c\<lparr>c_closeWhenDone := b7\<rparr>) = ev_view c" "ev_view (c\<lparr>c_odcid := b4\<rparr>) = ev_view c"
  "ev_view (c\<lparr>c_local := b8\<rparr>) = ev_view c"
  by (simp_all add: ev_view_def)

lemma view_streams [simp]:
  "ev_view (queueStream sid c) = ev_view c" "ev_view (newStream sid c) = ev_view c"
  "ev_view (count_done sid c) = ev_view c" "ev_view (resetLocked sid code c) = ev_view c"
  "ev_view (stopSendingLocked sid code c) = ev_view c" "ev_view (consumed sid off c) = ev_view c"
  "ev_view (snd (count_recv sid off c)) = ev_view c" "ev_view (snd (stream_hasLost sid c)) = ev_view c"
  "ev_view (onDataLost sid off n fin c) = ev_view c" "ev_view (onResetLost sid c) = ev_view c"
  "ev_view (onMaxDataLost sid c) = ev_view c" "ev_view (onStopSendingLost sid c) = ev_view c"
  by (simp_all add: queueStream_def newStream_def count_done_def resetLocked_def stopSendingLocked_def
      consumed_def count_recv_def stream_hasLost_def onDataLost_def onResetLost_def onMaxDataLost_def
      onStopSendingLost_def Let_def case_prod_beta)

lemma view_sendable [simp]: "ev_view (snd (sendable sid c)) = ev_view c"
  by (simp add: sendable_def Let_def case_prod_beta)

lemma view_peerStream [simp]: "ev_view (snd (peerStream sid recvSide c)) = ev_view c"
proof -
  have "ev_view (open_upto opened seq sid c) = ev_view c" for opened seq c
    unfolding open_upto_def by (rule view_fold) simp
  then show ?thesis by (simp add: peerStream_def Let_def)
qed

lemma view_openStream [simp]: "ev_view (snd (openStream bidi c)) = ev_view c"
  by (simp add: openStream_def Let_def)

lemma view_writeLocked [simp]: "ev_view (snd (writeLocked sid p fin c)) = ev_view c"
  by (simp add: writeLocked_def Let_def)

lemma view_sendClose [simp]: "ev_view (sendClose err c) = ev_view c"
proof -
  have "ev_view (fold (\<lambda>sp. upd_space sp (\<lambda>s. s\<lparr>n_nextPN := n_nextPN s + 1\<rparr>)) sps c) = ev_view c" for sps c
    by (rule view_fold) (simp add: view_upd_space)
  then show ?thesis by (simp add: sendClose_def Let_def)
qed

section \<open>Closing\<close>

lemma evolves_terminate: "evolves c (terminateLocked err c)"
  by (simp add: terminateLocked_def evolves_def evolves_by_def closes_once_def balance_def in_flight_all_def)

lemma evolves_close: "evolves c (closeLocked err c)"
  using evolves_before [OF view_sendClose evolves_terminate] by (simp add: closeLocked_def)

lemma evolves_closeIfDone: "evolves c (closeIfDoneLocked c)"
  by (simp add: closeIfDoneLocked_def evolves_close split: option.split)

lemma evolves_maybeFinish: "evolves c (maybeFinish sid c)"
proof -
  define c1 where "c1 = (upd_stream sid (\<lambda>s. s\<lparr>s_done := True\<rparr>) c)"
  define c2 where "c2 = c1\<lparr>c_streams := filter (\<lambda>i. i \<noteq> sid) (c_streams c1)\<rparr>"
  have v: "ev_view c2 = ev_view c" by (simp add: c2_def c1_def)
  have e: "evolves c (closeIfDoneLocked c2)" by (rule evolves_before [OF v evolves_closeIfDone])
  have "maybeFinish sid c \<in> {c, closeIfDoneLocked c2, count_done sid (closeIfDoneLocked c2)}"
    by (simp add: maybeFinish_def Let_def c1_def c2_def)
  then show ?thesis using e evolves_after [OF e] by auto
qed

section \<open>Streams\<close>

lemma evolves_deliver: "\<not> c_closed c \<Longrightarrow> evolves c (deliver sid d fin c)"
  unfolding deliver_def Let_def
  by (rule evolves_before [OF view_streams(6)], rule evolves_event) (simp_all add: ev_view_fields [OF view_streams(6)])

lemma closed_deliver [simp]: "c_closed (deliver sid d fin c) = c_closed c"
  by (simp add: deliver_def Let_def ev_view_fields [OF view_streams(6)])

lemma evolves_deliver_loop: "\<not> c_closed c \<Longrightarrow> evolves c (deliver_loop sid c) \<and> \<not> c_closed (deliver_loop sid c)"
proof (induction sid c rule: deliver_loop.induct)
  case (1 sid c)
  obtain d r where p: "rb_pop (s_recv (c_store c sid)) = (d, r)" by force
  let ?c = "upd_stream sid (\<lambda>s. s\<lparr>s_recv := r\<rparr>) c"
  show ?case
  proof (cases d)
    case None
    then show ?thesis using "1.prems" by (simp add: deliver_loop.simps [of sid c] p evolves_view)
  next
    case (Some chunk)
    have "evolves c (deliver sid chunk False ?c)"
      by (rule evolves_before [OF view_upd_stream evolves_deliver]) (simp add: "1.prems")
    with "1.IH" [OF p [symmetric] Some] "1.prems" Some show ?thesis
      by (simp add: deliver_loop.simps [of sid c] p evolves_trans)
  qed
qed

lemma evolves_onDataAcked: "evolves c (onDataAcked sid off n fin c)"
  by (simp add: onDataAcked_def evolves_before [OF view_upd_stream evolves_maybeFinish])

lemma evolves_onResetAcked: "evolves c (onResetAcked sid c)"
  unfolding onResetAcked_def by (rule evolves_before [OF view_upd_stream evolves_maybeFinish])

lemma evolves_onStreamFrame:
  assumes "\<not> c_closed c"
  shows "evolves c (snd (onStreamFrame sid off data fin c))"
proof -
  let ?e = "off + of_nat (length data)"
  define c1 where "c1 = (if fin then upd_stream sid (\<lambda>s. s\<lparr>s_recvFin := sint ?e\<rparr>) c else c)"
  have v1: "ev_view c1 = ev_view c" by (simp add: c1_def)
  obtain over c2 where cr: "count_recv sid ?e c1 = (over, c2)" by force
  then have v2: "ev_view c2 = ev_view c" using view_streams(7) [of sid ?e c1] v1 by simp
  define c3 where "c3 = deliver_loop sid (upd_stream sid (\<lambda>s. s\<lparr>s_recv := rb_push off data (s_recv s)\<rparr>) c2)"
  let ?u = "upd_stream sid (\<lambda>s. s\<lparr>s_recv := rb_push off data (s_recv s)\<rparr>) c2"
  have "\<not> c_closed ?u" using assms ev_view_fields [OF v2] by simp
  then have 3: "evolves ?u c3 \<and> \<not> c_closed c3" unfolding c3_def by (rule evolves_deliver_loop)
  then have e3: "evolves c c3" using evolves_before [of ?u c c3] by (simp add: v2)
  define c4 where "c4 = maybeFinish sid (deliver sid [] True (upd_stream sid (\<lambda>s. s\<lparr>s_recvDone := True\<rparr>) c3))"
  have e4: "evolves c c4" unfolding c4_def
    by (rule evolves_trans [OF evolves_trans [OF evolves_after [OF e3 view_upd_stream] evolves_deliver] evolves_maybeFinish])
      (use 3 in simp)
  define c5 where "c5 = maybeFinish sid (upd_stream sid (\<lambda>s. s\<lparr>s_recvDone := True\<rparr>) (consumed sid ?e c2))"
  have e5: "evolves c c5" unfolding c5_def
    by (rule evolves_before [OF _ evolves_maybeFinish]) (simp add: v2)
  have e1: "evolves c c1" "evolves c c2" "evolves c (consumed sid ?e c2)"
    by (rule evolves_view, simp add: v1 v2)+
  show ?thesis
    unfolding onStreamFrame_def Let_def c1_def [symmetric] cr prod.case c3_def [symmetric] c4_def [symmetric] c5_def [symmetric]
    using e1 e3 e4 e5 by simp
qed

lemma evolves_onResetStream:
  assumes "\<not> c_closed c"
  shows "evolves c (snd (onResetStream sid code fs c))"
proof -
  obtain over c2 where cr: "count_recv sid fs c = (over, c2)" by force
  then have v2: "ev_view c2 = ev_view c" using view_streams(7) [of sid fs c] by simp
  define c3 where "c3 = consumed sid fs (upd_stream sid (\<lambda>s. s\<lparr>s_recvFin := sint fs\<rparr>) c2)"
  have v3: "ev_view c3 = ev_view c" by (simp add: c3_def v2)
  define c4 where "c4 = upd_stream sid (\<lambda>s. s\<lparr>s_peerReset := True, s_maxDataPending := False,
    s_recv := noRecv\<lparr>rb_offset := rb_offset (s_recv s)\<rparr>\<rparr>) c3"
  have v4: "ev_view c4 = ev_view c" by (simp add: c4_def v3)
  have "evolves c (c4\<lparr>c_events := c_events c4 @ [OnStreamReset sid code]\<rparr>)"
    by (rule evolves_before [OF v4 evolves_event]) (simp_all add: assms ev_view_fields [OF v4])
  from evolves_trans [OF this evolves_maybeFinish] evolves_before [OF v4 evolves_maybeFinish]
  have "evolves c (maybeFinish sid (if \<not> s_stopSent (c_store c3 sid)
      then c4\<lparr>c_events := c_events c4 @ [OnStreamReset sid code]\<rparr> else c4))" by simp
  moreover have "evolves c c2" "evolves c c3" by (rule evolves_view, simp add: v2 v3)+
  ultimately show ?thesis
    unfolding onResetStream_def Let_def cr prod.case c3_def [symmetric] c4_def [symmetric] by simp
qed

lemma evolves_onStopSending:
  assumes "\<not> c_closed c"
  shows "evolves c (onStopSending sid code c)"
proof -
  have "evolves c ((resetLocked sid code c)\<lparr>c_events := c_events (resetLocked sid code c) @ [OnStopSending sid code]\<rparr>)"
    by (rule evolves_before [OF view_streams(4) evolves_event]) (simp_all add: assms ev_view_fields [OF view_streams(4)])
  then show ?thesis by (simp add: onStopSending_def Let_def)
qed

section \<open>Recovery\<close>

lemma in_flight_simps [simp]:
  "in_flight [] = 0" "in_flight (p # ps) = (if p_inFlight p then of_nat (p_size p) else 0) + in_flight ps"
  "in_flight (ps @ qs) = in_flight ps + in_flight qs"
  by (simp_all add: in_flight_def)

lemma drop_in_flight:
  "foldl (\<lambda>cc p. if p_inFlight p then cc\<lparr>bytesInFlight := bytesInFlight cc - of_nat (p_size p)\<rparr> else cc) cc ps =
     cc\<lparr>bytesInFlight := bytesInFlight cc - in_flight ps\<rparr>"
  by (induction ps arbitrary: cc) (simp_all add: algebra_simps)

lemma in_flight_all_upd:
  "in_flight_all (upd_space sp f c) =
     in_flight_all c - in_flight (n_sent (c_spaces c sp)) + in_flight (n_sent (f (c_spaces c sp)))"
  by (cases sp) (simp_all add: in_flight_all_def upd_space_def all_spaces_def algebra_simps)

lemma in_flight_all_cong: "c_spaces c' = c_spaces c \<Longrightarrow> in_flight_all c' = in_flight_all c"
  by (simp add: in_flight_all_def)

lemma upd_space_other [simp]:
  "c_cc (upd_space sp f c) = c_cc c" "c_events (upd_space sp f c) = c_events c" "c_closed (upd_space sp f c) = c_closed c"
  "c_buffered (upd_space sp f c) = c_buffered c" "c_isClient (upd_space sp f c) = c_isClient c"
  "c_config (upd_space sp f c) = c_config c" "c_scid (upd_space sp f c) = c_scid c"
  by (simp_all add: upd_space_def)

lemma evolves_by_upd_space:
  assumes "n_discarded (c_spaces c sp) \<Longrightarrow> n_discarded (f (c_spaces c sp))"
  shows "evolves_by (in_flight (n_sent (c_spaces c sp)) - in_flight (n_sent (f (c_spaces c sp)))) c (upd_space sp f c)"
  using assms by (simp add: evolves_by_def closes_once_def balance_def in_flight_all_upd) (simp add: upd_space_def)

lemma evolves_by_cc:
  "evolves_by (bytesInFlight cc - bytesInFlight (c_cc c)) c (c\<lparr>c_cc := cc\<rparr>)"
  by (simp add: evolves_by_def closes_once_def balance_def in_flight_all_def)

lemma evolves_discardSpace: "evolves c (discardSpace sp c)"
proof (cases "n_discarded (c_spaces c sp)")
  case False
  let ?s = "c_spaces c sp"
  define c1 where "c1 = c\<lparr>c_cc := (c_cc c)\<lparr>bytesInFlight := bytesInFlight (c_cc c) - in_flight (n_sent ?s)\<rparr>\<rparr>"
  define c2 where "c2 = upd_space sp (\<lambda>s. zeroSpace\<lparr>n_discarded := True, n_largestAcked := n_largestAcked s\<rparr>) c1"
  have "evolves_by (- in_flight (n_sent ?s)) c c1"
    unfolding c1_def using evolves_by_cc [of "(c_cc c)\<lparr>bytesInFlight := bytesInFlight (c_cc c) - in_flight (n_sent ?s)\<rparr>" c] by simp
  moreover have "evolves_by (in_flight (n_sent ?s)) c1 c2"
    unfolding c2_def using evolves_by_upd_space [of c1 sp "\<lambda>s. zeroSpace\<lparr>n_discarded := True, n_largestAcked := n_largestAcked s\<rparr>"]
    by (simp add: zeroSpace_def c1_def)
  ultimately have "evolves c c2" using evolves_by_trans by (fastforce simp: evolves_def)
  moreover have "discardSpace sp c = c2\<lparr>c_ptoCount := 0\<rparr>"
    using False by (simp add: discardSpace_def Let_def drop_in_flight c2_def c1_def)
  ultimately show ?thesis using evolves_after by simp
qed (simp add: discardSpace_def)

lemma evolves_confirmHandshake: "evolves c (confirmHandshake c)"
  by (simp add: confirmHandshake_def evolves_before [OF _ evolves_discardSpace])

lemma evolves_onPacketSent: "evolves c (onPacketSent sp p c)"
proof -
  define c1 where "c1 = upd_space sp (\<lambda>s. s\<lparr>n_sent := n_sent s @ [p]\<rparr>) c"
  define c2 where "c2 = (if p_ackEliciting p then
      (let c = upd_space sp (\<lambda>s. s\<lparr>n_lastAckElicitingSent := p_time p,
                 n_ackElicitingInFlight := n_ackElicitingInFlight s + 1\<rparr>) c1
       in if \<not> c_sentSinceRecv c then c\<lparr>c_sentSinceRecv := True, c_lastActivity := p_time p\<rparr> else c) else c1)"
  define c3 where "c3 = (if p_inFlight p
      then c2\<lparr>c_cc := (c_cc c2)\<lparr>bytesInFlight := bytesInFlight (c_cc c2) + of_nat (p_size p)\<rparr>\<rparr> else c2)"
  have "evolves_by (- (if p_inFlight p then of_nat (p_size p) else 0)) c c1"
    unfolding c1_def using evolves_by_upd_space [of c sp "\<lambda>s. s\<lparr>n_sent := n_sent s @ [p]\<rparr>"] by simp
  moreover have "ev_view c2 = ev_view c1" by (simp add: c2_def Let_def view_upd_space)
  moreover have "evolves_by (if p_inFlight p then of_nat (p_size p) else 0) c2 c3"
    unfolding c3_def using evolves_by_cc [of "(c_cc c2)\<lparr>bytesInFlight := bytesInFlight (c_cc c2) + of_nat (p_size p)\<rparr>" c2]
    by (simp add: evolves_by_0)
  ultimately have "evolves c c3"
    using evolves_by_trans [OF evolves_by_trans [OF _ evolves_by_0 [OF evolves_view]]] by (fastforce simp: evolves_def)
  then show ?thesis
    unfolding onPacketSent_def c1_def [symmetric] Let_def
    unfolding c2_def [unfolded Let_def, symmetric] c3_def [symmetric]
    using evolves_trans [OF _ evolves_discardSpace] by simp
qed

lemma view_frameLost [simp]: "ev_view (frameLost sp f c) = ev_view c"
  by (cases "f_kind f") (simp_all add: frameLost_def view_upd_space)

lemma evolves_frameAcked: "evolves c (frameAcked sp f c)"
  by (cases "f_kind f")
    (simp_all add: frameAcked_def evolves_onDataAcked evolves_onResetAcked evolves_view view_upd_space)

lemma loss_scan_in_flight:
  "loss_scan la t d ps lt = (l, k, lt') \<Longrightarrow> in_flight ps = in_flight l + in_flight k"
proof (induction ps arbitrary: lt l k)
  case (Cons p ps)
  then show ?case by (fastforce simp: Let_def split: prod.splits if_splits)
qed simp

lemma ack_scan_in_flight: "ack_scan rs ps = (a, k) \<Longrightarrow> in_flight ps = in_flight a + in_flight k"
proof (induction ps arbitrary: rs a k)
  case (Cons p ps)
  obtain a' k' where "ack_scan (dropWhile (\<lambda>r. hi r < p_pn p) rs) ps = (a', k')" by force
  with Cons show ?case by (auto simp: Let_def split: if_splits)
qed simp

lemma evolves_by_fold:
  assumes "\<And>p c. evolves_by (- (if p_inFlight p then of_nat (p_size p) else 0)) c (f p c)"
  shows "evolves_by (- in_flight ps) c (fold f ps c)"
proof (induction ps arbitrary: c)
  case Nil
  show ?case by simp
next
  case (Cons p ps)
  from evolves_by_trans [OF assms Cons.IH, of p c] show ?case by (simp add: algebra_simps)
qed

lemma evolves_by_packet_lost:
  "evolves_by (- (if p_inFlight p then of_nat (p_size p) else 0)) c (packet_lost sp p c)"
proof -
  define c1 where "c1 = (if p_ackEliciting p
    then upd_space sp (\<lambda>s. s\<lparr>n_ackElicitingInFlight := n_ackElicitingInFlight s - 1\<rparr>) c else c)"
  define c2 where "c2 = (if p_inFlight p
    then c1\<lparr>c_cc := (c_cc c1)\<lparr>bytesInFlight := bytesInFlight (c_cc c1) - of_nat (p_size p)\<rparr>\<rparr> else c1)"
  have "ev_view c1 = ev_view c" by (simp add: c1_def view_upd_space)
  then have "evolves_by 0 c c1" by (intro evolves_by_0 evolves_view)
  moreover have "evolves_by (- (if p_inFlight p then of_nat (p_size p) else 0)) c1 c2"
    unfolding c2_def using evolves_by_cc [of "(c_cc c1)\<lparr>bytesInFlight := bytesInFlight (c_cc c1) - of_nat (p_size p)\<rparr>" c1]
    by (simp add: evolves_by_0)
  moreover have "evolves_by 0 c2 (fold (frameLost sp) (p_frames p) c2)"
    by (intro evolves_by_0 evolves_view view_fold) simp
  ultimately show ?thesis
    unfolding packet_lost_def Let_def c1_def [symmetric] c2_def [symmetric]
    using evolves_by_trans [OF evolves_by_trans] by fastforce
qed

lemma evolves_by_packet_acked:
  "evolves_by (- (if p_inFlight p then of_nat (p_size p) else 0)) c (packet_acked sp p c)"
proof -
  define c1 where "c1 = (if p_ackEliciting p
    then upd_space sp (\<lambda>s. s\<lparr>n_ackElicitingInFlight := n_ackElicitingInFlight s - 1\<rparr>) c else c)"
  define c2 where "c2 = (if p_inFlight p then c1\<lparr>c_cc := cc_onAcked p (c_cc c1)\<rparr> else c1)"
  have "ev_view c1 = ev_view c" by (simp add: c1_def view_upd_space)
  then have "evolves_by 0 c c1" by (intro evolves_by_0 evolves_view)
  moreover have "bytesInFlight (cc_onAcked p cc) = bytesInFlight cc - of_nat (p_size p)" for cc
    by (simp add: cc_onAcked_def Let_def)
  then have "evolves_by (- (if p_inFlight p then of_nat (p_size p) else 0)) c1 c2"
    unfolding c2_def using evolves_by_cc [of "cc_onAcked p (c_cc c1)" c1] by (simp add: evolves_by_0)
  moreover have "evolves_by 0 c2 (fold (frameAcked sp) (p_frames p) c2)"
    by (intro evolves_by_0 evolves_fold evolves_frameAcked)
  ultimately show ?thesis
    unfolding packet_acked_def Let_def c1_def [symmetric] c2_def [symmetric]
    using evolves_by_trans [OF evolves_by_trans] by fastforce
qed

lemma evolves_detectLost: "evolves c (detectLost sp now c)"
proof -
  define c1 where "c1 = upd_space sp (\<lambda>s. s\<lparr>n_lossTime := 0\<rparr>) c"
  have "ev_view c1 = ev_view c" by (simp add: c1_def view_upd_space)
  then have e1: "evolves c c1" by (rule evolves_view)
  define s where "s = c_spaces c1 sp"
  define d where "d = loss_delay (c_rtt c1)"
  obtain l k lt where sc: "loss_scan (word_of_int (n_largestAcked s)) (now - d) d (n_sent s) 0 = (l, k, lt)"
    by (metis prod.collapse)
  define c2 where "c2 = upd_space sp (\<lambda>s. s\<lparr>n_lossTime := lt, n_sent := k\<rparr>) c1"
  have e2: "evolves_by (in_flight l) c1 c2"
    unfolding c2_def using evolves_by_upd_space [of c1 sp "\<lambda>s. s\<lparr>n_lossTime := lt, n_sent := k\<rparr>"]
      loss_scan_in_flight [OF sc] by (simp add: s_def)
  have "evolves_by (- in_flight l) c2 (fold (packet_lost sp) l c2)"
    by (rule evolves_by_fold [OF evolves_by_packet_lost])
  from evolves_by_trans [OF e2 this] have e3: "evolves c1 (fold (packet_lost sp) l c2)" by (simp add: evolves_def)
  have e4: "evolves c3 (c3\<lparr>c_cc := onCongestion t now (c_cc c3)\<rparr>)" for c3 t
  proof -
    have "bytesInFlight (onCongestion t now (c_cc c3)) = bytesInFlight (c_cc c3)"
      by (simp add: onCongestion_def Let_def)
    then show ?thesis using evolves_by_cc [of "onCongestion t now (c_cc c3)" c3] by (simp add: evolves_def)
  qed
  have "l = [] \<Longrightarrow> evolves c1 c2" using e2 by (simp add: evolves_def)
  then show ?thesis
    unfolding detectLost_def Let_def c1_def [symmetric] s_def [symmetric] d_def [symmetric] sc prod.case c2_def [symmetric]
    using e1 evolves_trans [OF e1 e3] evolves_trans [OF evolves_trans [OF e1 e3] e4] evolves_trans [OF e1] by simp
qed

lemma evolves_onAckReceived: "evolves c (snd (onAckReceived sp ranges ackDelay now c))"
proof -
  let ?s = "c_spaces c sp"
  obtain a k where sc: "ack_scan (rev ranges) (n_sent ?s) = (a, k)" by force
  define la where "la = (if sint (hi (hd ranges)) > n_largestAcked ?s then sint (hi (hd ranges)) else n_largestAcked ?s)"
  define c1 where "c1 = upd_space sp (\<lambda>s. s\<lparr>n_largestAcked := la, n_sent := k\<rparr>) c"
  have e1: "evolves_by (in_flight a) c c1"
    unfolding c1_def using evolves_by_upd_space [of c sp "\<lambda>s. s\<lparr>n_largestAcked := la, n_sent := k\<rparr>"]
      ack_scan_in_flight [OF sc] by simp
  have two: "evolves_by (- in_flight a) c2 (fold (packet_acked sp) a (detectLost sp now c2))" for c2
    using evolves_by_trans [OF evolves_by_0 [OF evolves_detectLost [of c2 sp now]]
        evolves_by_fold [where f = "packet_acked sp" and ps = a, OF evolves_by_packet_acked]]
    by simp
  have fin: "evolves c2 (if cond then confirmHandshake c2 else c2)"
    "evolves c2 (if cond then c2\<lparr>c_ptoCount := 0\<rparr> else c2)" for c2 cond
    by (simp_all add: evolves_confirmHandshake evolves_view)
  have all: "evolves_by (- in_flight a) c1 c3 \<Longrightarrow> evolves c c3" for c3
    using evolves_by_trans [OF e1] by (fastforce simp: evolves_def)
  have v: "ev_view (if cond then c1\<lparr>c_rtt := r\<rparr> else c1) = ev_view c1" for cond r by simp
  have mid: "evolves c (fold (packet_acked sp) a (detectLost sp now (if cond then c1\<lparr>c_rtt := r\<rparr> else c1)))" for cond r
    by (rule all) (use evolves_by_trans [OF evolves_by_0 [OF evolves_view [OF v]] two] in simp)
  have "a = [] \<Longrightarrow> evolves c c1" using e1 by (simp add: evolves_def)
  then show ?thesis
    unfolding onAckReceived_def Let_def la_def [symmetric] sc prod.case c1_def [symmetric]
    using evolves_trans [OF evolves_trans [OF mid fin(1)] fin(2)] by simp
qed

section \<open>The handshake\<close>

lemma view_tls_do [simp]: "ev_view (snd (tls_do call c)) = ev_view c"
  by (simp add: tls_do_def Let_def split: list.split)

lemma view_handlePeerParams [simp]: "ev_view (snd (handlePeerParams data c)) = ev_view c"
  by (simp add: handlePeerParams_def Let_def split: prod.split option.split)

lemma closed_confirmHandshake [simp]: "c_closed (confirmHandshake c) = c_closed c"
  by (simp add: confirmHandshake_def discardSpace_def Let_def)

lemma closed_tls_do [simp]: "c_closed (snd (tls_do call c)) = c_closed c"
  using ev_view_fields [OF view_tls_do] by blast

lemma closed_onHandshakeComplete [simp]: "c_closed (snd (onHandshakeComplete c)) = c_closed c"
  by (simp add: onHandshakeComplete_def Let_def case_prod_beta)

lemma closed_tls_turn [simp]: "c_closed (snd (tls_turn cr e c)) = c_closed c"
  using ev_view_fields [OF view_handlePeerParams]
  by (cases e) (simp_all add: tls_turn_def split: option.split)

lemma evolves_onHandshakeComplete:
  assumes "\<not> c_closed c"
  shows "evolves c (snd (onHandshakeComplete c))"
proof -
  let ?c = "c\<lparr>c_handshakeComplete := True\<rparr>"
  define c1 where "c1 = confirmHandshake (?c\<lparr>c_handshakeDonePending := True\<rparr>)"
  have e1: "evolves c c1" unfolding c1_def by (rule evolves_before [OF _ evolves_confirmHandshake]) simp
  have e2: "evolves c (snd (tls_do SendSessionTicket c1))" by (rule evolves_after [OF e1]) simp
  have e0: "evolves c ?c" by (rule evolves_view) simp
  have ev: "evolves c c2 \<Longrightarrow> c_closed c2 = c_closed c \<Longrightarrow> evolves c (c2\<lparr>c_events := c_events c2 @ [OnHandshake]\<rparr>)" for c2
    by (rule evolves_trans [OF _ evolves_event]) (simp_all add: assms)
  have "c_closed c1 = c_closed c" by (simp add: c1_def)
  then show ?thesis
    using e0 e1 e2 ev [OF e0] ev [OF e1] ev [OF e2]
    by (simp add: onHandshakeComplete_def Let_def c1_def case_prod_beta)
qed

lemma evolves_tls_turn: "\<not> c_closed c \<Longrightarrow> evolves c (snd (tls_turn cr e c))"
  by (cases e)
    (simp_all add: tls_turn_def evolves_onHandshakeComplete evolves_view view_upd_space split: option.split)

lemma evolves_processTLSEvents:
  "\<not> c_closed c \<Longrightarrow> evolves c (snd (processTLSEvents cr c)) \<and> \<not> c_closed (snd (processTLSEvents cr c))"
proof (induction cr c rule: processTLSEvents.induct)
  case (1 cr c)
  show ?case
  proof (cases "t_events (c_tls c)")
    case Nil
    then show ?thesis using "1.prems" by (simp add: processTLSEvents.simps [of cr c])
  next
    case (Cons e rest)
    let ?c = "c\<lparr>c_tls := (c_tls c)\<lparr>t_events := rest\<rparr>\<rparr>"
    obtain err c' where t: "tls_turn cr e ?c = (err, c')" by force
    then have ev: "evolves c c'" using evolves_before [OF _ evolves_tls_turn [of ?c cr e], of c] "1.prems" by simp
    have cl: "\<not> c_closed c'" using closed_tls_turn [of cr e ?c] t "1.prems" by simp
    show ?thesis
    proof (cases err)
      case None
      with "1.IH" [OF Cons t [symmetric]] cl Cons t show ?thesis
        by (simp add: processTLSEvents.simps [of cr c] evolves_trans [OF ev])
    qed (use Cons t ev cl in \<open>simp add: processTLSEvents.simps [of cr c]\<close>)
  qed
qed

lemma evolves_crypto_loop: "\<not> c_closed c \<Longrightarrow> evolves c (snd (crypto_loop cr sp c))"
proof (induction cr sp c rule: crypto_loop.induct)
  case (1 cr sp c)
  obtain d r where p: "rb_pop (n_cryptoRecv (c_spaces c sp)) = (d, r)" by force
  let ?c = "upd_space sp (\<lambda>s. s\<lparr>n_cryptoRecv := r\<rparr>) c"
  have v: "ev_view ?c = ev_view c" by (simp add: view_upd_space)
  show ?case
  proof (cases d)
    case None
    then show ?thesis using v by (simp add: crypto_loop.simps [of cr sp c] p evolves_view)
  next
    case (Some chunk)
    obtain f c1 where t: "tls_do (HandleData (space_level sp) chunk) ?c = (f, c1)" by force
    then have v1: "ev_view c1 = ev_view c" using view_tls_do [of "HandleData (space_level sp) chunk" ?c] v by simp
    obtain err c2 where q: "processTLSEvents cr c1 = (err, c2)" by force
    have "\<not> c_closed c1" using ev_view_fields [OF v1] "1.prems" by simp
    from evolves_processTLSEvents [OF this, of cr] have cl: "\<not> c_closed c2" and "evolves c1 c2" using q by simp_all
    then have e2: "evolves c c2" using evolves_before [OF v1] by simp
    have go: "f = None \<Longrightarrow> err = None \<Longrightarrow> \<not> n_discarded (c_spaces c2 sp) \<Longrightarrow> evolves c (snd (crypto_loop cr sp c2))"
      using "1.IH" [OF p [symmetric] Some t [symmetric] _ q [symmetric]] cl evolves_trans [OF e2] by blast
    show ?thesis
      using go e2 evolves_view [OF v1]
      by (simp add: crypto_loop.simps [of cr sp c] p Some t q split: option.split)
  qed
qed

lemma evolves_handleCrypto: "\<not> c_closed c \<Longrightarrow> evolves c (snd (handleCrypto cr sp off data c))"
  by (simp add: handleCrypto_def evolves_before [OF view_upd_space evolves_crypto_loop])

section \<open>Frames\<close>

lemma evolves_handleAckFrame: "evolves c (snd (snd (handleAckFrame sp ecn now r c)))"
  by (simp add: handleAckFrame_def Let_def case_prod_beta evolves_onAckReceived split: option.split)

lemma view_queuePathResponse [simp]: "ev_view (queuePathResponse d c) = ev_view c"
  by (simp add: queuePathResponse_def Let_def)

lemma view_retire_prior [simp]: "ev_view (retire_prior env prior c) = ev_view c"
  by (simp add: retire_prior_def Let_def)

lemma view_handleNewConnectionID [simp]: "ev_view (snd (snd (handleNewConnectionID env r c))) = ev_view c"
  by (simp add: handleNewConnectionID_def Let_def case_prod_beta split: option.split)

lemma evolves_with_stream:
  assumes "\<And>s c. \<not> c_closed c \<Longrightarrow> evolves c (snd (f s c))" and "\<not> c_closed c"
  shows "evolves c (snd (with_stream sid recvSide f c))"
proof -
  obtain x c1 where p: "peerStream sid recvSide c = (x, c1)" by force
  then have v: "ev_view c1 = ev_view c" using view_peerStream [of sid recvSide c] by simp
  then have "\<not> c_closed c1" using assms(2) ev_view_fields [OF v] by simp
  then show ?thesis using evolves_before [OF v assms(1)] evolves_view [OF v]
    by (simp add: with_stream_def p split: sum.split option.split)
qed

lemma evolves_handle_stream: "\<not> c_closed c \<Longrightarrow> evolves c (snd (snd (handle_stream typ r c)))"
  unfolding handle_stream_def Let_def case_prod_beta
  using evolves_with_stream [OF evolves_onStreamFrame] by simp

lemma view_raise_maxData [simp]: "ev_view (raise_maxData env mx c) = ev_view c"
proof -
  have "ev_view (fold (\<lambda>sid c. let (ok, c) = sendable sid c in if ok then queueStream sid c else c) xs c) = ev_view c" for xs c
    by (rule view_fold) (simp add: case_prod_beta)
  then show ?thesis by (simp add: raise_maxData_def)
qed

lemma evolves_handle_maxStreams:
  assumes "\<not> c_closed c"
  shows "evolves c (snd (handle_maxStreams uni mx c))"
proof -
  have "evolves c (c\<lparr>c_peerMaxUni := mx, c_events := c_events c @ [OnStreamsAvailable]\<rparr>)"
    "evolves c (c\<lparr>c_peerMaxBidi := mx, c_events := c_events c @ [OnStreamsAvailable]\<rparr>)"
    using assms evolves_before [OF _ evolves_event [of "c\<lparr>c_peerMaxUni := mx\<rparr>" OnStreamsAvailable], of c]
      evolves_before [OF _ evolves_event [of "c\<lparr>c_peerMaxBidi := mx\<rparr>" OnStreamsAvailable], of c] by simp_all
  then show ?thesis by (simp add: handle_maxStreams_def)
qed

lemma evolves_handle_close: "evolves c (snd (handle_close app r c))"
  by (simp add: handle_close_def Let_def case_prod_beta evolves_terminate)

lemma evolves_if:
  "evolves c (snd (snd x)) \<Longrightarrow> evolves c (snd (snd y)) \<Longrightarrow> evolves c (snd (snd (if b then x else y)))"
  by simp

lemma evolves_stream_frames:
  assumes "\<not> c_closed c"
  shows "evolves c (snd (with_stream sid recvSide (\<lambda>s. onResetStream s code fsize) c))"
  "evolves c (snd (with_stream sid recvSide (\<lambda>s c. (None, onStopSending s code c)) c))"
  "evolves c (snd (with_stream sid recvSide (\<lambda>s c. (None, if mx > s_sendMax (c_store c s)
     then queueStream s (upd_stream s (\<lambda>x. x\<lparr>s_sendMax := mx\<rparr>) c) else c)) c))"
  by (rule evolves_with_stream, simp add: evolves_onResetStream evolves_onStopSending evolves_view, rule assms)+

lemma evolves_handle_frame:
  assumes "\<not> c_closed c"
  shows "evolves c (snd (snd (handle_frame env sp now typ r c)))"
  unfolding handle_frame_def
  by (intro evolves_if)
    (simp_all only: Let_def case_prod_beta fst_conv snd_conv evolves_refl evolves_handleAckFrame evolves_handleCrypto [OF assms]
      evolves_handle_stream [OF assms] evolves_handle_close evolves_handle_maxStreams [OF assms] evolves_confirmHandshake
      evolves_stream_frames [OF assms] evolves_view [OF view_raise_maxData] evolves_view [OF view_queuePathResponse]
      evolves_view [OF view_handleNewConnectionID] if_distrib [of snd] if_distrib [of "evolves c"] if_cancel simp_thms)

lemma evolves_frames_loop: "evolves c (snd (frames_loop env sp now el r c))"
proof (induction env sp now el r c rule: frames_loop.induct)
  case (1 env sp now el r c)
  obtain t ra where t: "reader_varint r = (t, ra)" by force
  obtain err rc c' where h: "handle_frame env sp now t ra c = (err, rc, c')" by (metis prod.collapse)
  have e: "\<not> c_closed c \<Longrightarrow> evolves c c'" using evolves_handle_frame [of c env sp now t ra] h by simp
  show ?case
  proof (cases "rb r = [] \<or> c_closed c \<or> bad ra \<or> sp \<noteq> spaceApp \<and> \<not> handshake_frame t \<or> err \<noteq> None \<or> bad rc")
    case True
    then show ?thesis using e by (auto simp: frames_loop.simps [of env sp now el r c] t h split: option.split)
  next
    case False
    then have "evolves c' (snd (frames_loop env sp now (el \<or> frame_elicits t) rc c'))"
      using "1.IH" [OF _ t [symmetric] refl _ _ h [symmetric] _ refl] by blast
    with False evolves_trans [OF e this] show ?thesis by (simp add: frames_loop.simps [of env sp now el r c] t h)
  qed
qed

lemma evolves_handleFrames: "evolves c (snd (handleFrames env sp payload now c))"
  by (simp add: handleFrames_def evolves_frames_loop)

section \<open>Sending\<close>

lemma view_appendStreamFrame [simp]:
  "ev_view (snd (snd (appendStreamFrame sid off data st))) = ev_view (snd (snd st))"
  by (simp add: appendStreamFrame_def Let_def case_prod_beta)

lemma view_append_pending [simp]:
  "ev_view (snd (snd (append_pending pend fr clr k mx sid st))) = ev_view (snd (snd st))"
  by (simp add: append_pending_def Let_def case_prod_beta)

lemma view_frame_step: "frame_step mx sid st st' \<Longrightarrow> ev_view (snd (snd st')) = ev_view (snd (snd st))"
  by (induction rule: frame_step.induct)
    (auto simp: lost_step_def new_step_def fin_step_def Let_def case_prod_beta)

lemma view_dequeue [simp]: "ev_view (dequeue i sid c) = ev_view c"
  by (simp add: dequeue_def)

lemma view_armTimerLocked [simp]: "ev_view (armTimerLocked now c) = ev_view c"
  by (simp add: armTimerLocked_def Let_def)

lemma view_setLossDetectionTimer [simp]: "ev_view (setLossDetectionTimer now c) = ev_view c"
  by (simp add: setLossDetectionTimer_def)

interpretation ev_send: send_relation evolves
proof (unfold_locales, goal_cases)
  case (2 a b c)
  then show ?case by (rule evolves_trans)
qed (simp_all add: evolves_view view_frame_step view_upd_space evolves_onPacketSent)

lemmas evolves_flushLocked = ev_send.R_flushLocked

lemma view_probe_other [simp]: "ev_view (probe_other i c) = ev_view c"
  by (simp add: probe_other_def Let_def case_prod_beta view_upd_space)

lemma view_probe [simp]: "ev_view (probe sp c) = ev_view c"
proof -
  have "ev_view (fold (\<lambda>p. fold (frameLost sp) (p_frames p)) ps c) = ev_view c" for sp c and ps :: "sentPacket list"
    by (intro view_fold) simp
  then show ?thesis by (simp add: probe_def Let_def view_upd_space)
qed

lemma evolves_onLossDetectionTimeout: "evolves c (onLossDetectionTimeout now c)"
  by (simp add: onLossDetectionTimeout_def case_prod_beta Let_def evolves_detectLost evolves_view view_upd_space)

end
