(* ===== verification/Quic_Conn.thy ===== *)
theory Quic_Conn
  imports Quic_Invariants
begin

text \<open>
  A QUIC connection as its user and its socket see it, \<open>src/go/http3/internal/quic/conn.go\<close>: datagrams
  that arrive, the timer, opening, writing, resetting and closing, each as one critical section.
  \<open>None\<close> is a call that does not return, which only the loop of \<open>flushLocked\<close> can be the reason for.
\<close>

section \<open>Packets that arrive\<close>

definition packetSpace :: "nat \<Rightarrow> space" where
  "packetSpace t =
     (if t = packetInitial then spaceInitial else if t = packetHandshake then spaceHandshake else spaceApp)"

definition keysFor :: "nat \<Rightarrow> qconn \<Rightarrow> keys option" where
  "keysFor t c = (let s = c_spaces c (packetSpace t) in if n_discarded s then None else n_rx s)"

definition isStatelessReset :: "bytes \<Rightarrow> qconn \<Rightarrow> bool" where
  "isStatelessReset d c =
     (if length d < 21 \<or> hd d AND 0x80 \<noteq> 0 \<or> c_peerResetToken c = None then False
      else drop (length d - statelessResetTokenLen) d = the (c_peerResetToken c))"

text \<open>The keys a packet is opened with, and whether they are those of the next phase.\<close>

definition open_keys :: "crypto \<Rightarrow> space \<Rightarrow> bool \<Rightarrow> u64 \<Rightarrow> qconn \<Rightarrow> (keys \<times> bool) \<times> qconn" where
  "open_keys cr sp phase pn c =
     (let rx = the (n_rx (c_spaces c sp)) in
      if sp = spaceApp \<and> phase \<noteq> c_keyPhase c then
        (if c_prevRx c \<noteq> None \<and> pn < c_phaseStart c then ((the (c_prevRx c), False), c)
         else
           (let c = (if c_nextRx c = None then c\<lparr>c_nextRx := Some (keys_next cr rx)\<rparr> else c)
            in ((the (c_nextRx c), True), c)))
      else ((rx, False), c))"

definition update_keys :: "crypto \<Rightarrow> space \<Rightarrow> bool \<Rightarrow> u64 \<Rightarrow> qconn \<Rightarrow> qconn" where
  "update_keys cr sp phase pn c =
     (let s = c_spaces c sp;
          c1 = upd_space sp (\<lambda>s. s\<lparr>n_rx := c_nextRx c, n_tx := map_option (keys_next cr) (n_tx s)\<rparr>) c
      in c1\<lparr>c_prevRx := n_rx s, c_nextRx := None, c_keyPhase := phase, c_phaseStart := pn\<rparr>)"

text \<open>What an authentic packet leads to once it is known to be new.\<close>

definition note_ack :: "space \<Rightarrow> u64 \<Rightarrow> int \<Rightarrow> bool \<Rightarrow> time \<Rightarrow> qconn \<Rightarrow> qconn" where
  "note_ack sp pn largest el now c =
     (let c = (if sint pn \<ge> largest then upd_space sp (\<lambda>s. s\<lparr>n_largestRecvTime := now\<rparr>) c else c) in
      if el then
        (let c = upd_space sp (\<lambda>s. s\<lparr>n_ackPending := True, n_unackedEliciting := n_unackedEliciting s + 1\<rparr>) c;
             s = c_spaces c sp
         in if sp \<noteq> spaceApp \<or> n_unackedEliciting s \<ge> 2 \<or> sint pn \<noteq> largest + 1
            then upd_space sp (\<lambda>s. s\<lparr>n_ackNow := True\<rparr>) c
            else if n_ackDeadline s = 0
            then upd_space sp (\<lambda>s. s\<lparr>n_ackDeadline := now + tp_maxAckDelay (c_local c)\<rparr>) c
            else c)
      else c)"

definition process_packet :: "quic_env \<Rightarrow> pkt_header \<Rightarrow> u64 \<Rightarrow> int \<Rightarrow> bytes \<Rightarrow> time \<Rightarrow> qconn \<Rightarrow> qconn" where
  "process_packet env h pn largest payload now c =
     (let sp = packetSpace (htyp h);
          c = (if c_isClient c \<and> \<not> c_heardPeer c \<and> htyp h \<noteq> packet1RTT
               then c\<lparr>c_heardPeer := True, c_dcid := scid h,
                      c_peerCIDs := map_put 0 \<lparr>pc_cid = scid h, pc_token = None\<rparr> (c_peerCIDs c)\<rparr> else c);
          c = (if \<not> c_isClient c \<and> sp = spaceHandshake \<and> \<not> c_addressValidated c
               then discardSpace spaceInitial (c\<lparr>c_addressValidated := True\<rparr>) else c);
          c = c\<lparr>c_lastActivity := now, c_sentSinceRecv := False\<rparr>
      in case handleFrames env sp payload now c of
           (Inl err, c) \<Rightarrow> closeLocked err c
         | (Inr el, c) \<Rightarrow>
             if c_closed c \<or> n_discarded (c_spaces c sp) then c else note_ack sp pn largest el now c)"

text \<open>What a packet that opened leads to: \<open>b0\<close> is its first byte without protection.\<close>

definition opened_packet ::
  "quic_env \<Rightarrow> pkt_header \<Rightarrow> byte \<Rightarrow> bool \<Rightarrow> u64 \<Rightarrow> int \<Rightarrow> bytes \<Rightarrow> time \<Rightarrow> qconn \<Rightarrow> qconn" where
  "opened_packet env h b0 updating pn largest payload now c =
     (let sp = packetSpace (htyp h) in
      if updating \<and> \<not> c_handshakeConfirmed c then
        closeLocked (transportErr errKeyUpdate ''key update before the handshake was confirmed'') c
      else
        (let c = (if updating then update_keys (qe_crypto env) sp (b0 AND 0x04 \<noteq> 0) pn c else c);
             reserved = (if b0 AND 0x80 \<noteq> 0 then 0x0c else 0x18)
         in if b0 AND reserved \<noteq> 0 then
              closeLocked (transportErr errProtocolViolation ''reserved header bits set'') c
            else
              (let (fresh, recv) = rangeSet_add pn (n_recv (c_spaces c sp));
                   c = upd_space sp (\<lambda>s. s\<lparr>n_recv := recv\<rparr>) c
               in if \<not> fresh then c else process_packet env h pn largest payload now c)))"

text \<open>\<open>handlePacket\<close>; the flag says whether the packet was authentic.\<close>

definition handlePacket :: "quic_env \<Rightarrow> bytes \<Rightarrow> pkt_header \<Rightarrow> time \<Rightarrow> qconn \<Rightarrow> bool \<times> qconn" where
  "handlePacket env pkt h now c =
     (let sp = packetSpace (htyp h); s = c_spaces c sp in
      if htyp h = packet0RTT then (False, c)
      else if n_discarded s then (False, c)
      else if n_rx s = None then
        (False, if sp \<noteq> spaceInitial \<and> length (c_buffered c) < maxBufferedPackets
                then c\<lparr>c_buffered := c_buffered c @ [pkt]\<rparr> else c)
      else
        (let largest = (if n_recv s \<noteq> [] then sint (rangeSet_largest (n_recv s)) else -1) in
         case unprotect pkt (pnOffset h) (k_mask (the (n_rx s))) largest of
           None \<Rightarrow> (False, c)
         | Some ((pn, n), pkt) \<Rightarrow>
             (let ((k, updating), c) = open_keys (qe_crypto env) sp (pkt ! 0 AND 0x04 \<noteq> 0) pn c
              in case keys_open k pkt (pnOffset h + n) pn of
                   Inl _ \<Rightarrow> (False, c)
                 | Inr payload \<Rightarrow> (True, opened_packet env h (pkt ! 0) updating pn largest payload now c))))"

section \<open>Datagrams that arrive\<close>

definition handleVersionNegotiation :: "bytes \<Rightarrow> qconn \<Rightarrow> qconn" where
  "handleVersionNegotiation d c =
     (let (h, _) = parseHeader d 0; start = 7 + length (dcid h) + length (scid h);
          versions = map (\<lambda>i. take 4 (drop (start + 4 * i) d)) [0 ..< (length d - start) div 4]
      in if c_heardPeer c then c
         else if dcid h \<noteq> c_scid c \<or> scid h \<noteq> c_odcid c then c
         else if [0, 0, 0, 1] \<in> set versions then c
         else terminateLocked ErrVersionNegotiation c)"

definition retryKey :: bytes where
  "retryKey = [0xbe, 0x0c, 0x69, 0x0b, 0x9f, 0x66, 0x57, 0x5a, 0x1d, 0x76, 0x6b, 0x54, 0xe3, 0x68, 0xc8, 0x4e]"

definition retryNonce :: bytes where
  "retryNonce = [0x46, 0x15, 0x99, 0xd3, 0x5d, 0x63, 0x2b, 0xf2, 0x23, 0x98, 0x25, 0xbb]"

definition retryTag :: "crypto \<Rightarrow> bytes \<Rightarrow> bytes \<Rightarrow> bytes" where
  "retryTag cr odcid packet =
     gcm_Seal cr retryKey retryNonce [] ([of_nat (length odcid)] @ odcid @ packet)"

definition handleRetry :: "crypto \<Rightarrow> bytes \<Rightarrow> pkt_header \<Rightarrow> qconn \<Rightarrow> qconn" where
  "handleRetry cr pkt h c =
     (if \<not> c_isClient c \<or> c_heardPeer c \<or> c_retrySCID c \<noteq> None \<or> length (htoken h) \<le> 16 then c
      else if retryTag cr (c_odcid c) (take (length pkt - 16) pkt) \<noteq> drop (length pkt - 16) pkt \<or> scid h = c_dcid c then c
      else
        (let c = c\<lparr>c_retrySCID := Some (scid h), c_dcid := scid h, c_token := take (length (htoken h) - 16) (htoken h)\<rparr>;
             s = c_spaces c spaceInitial;
             (tx, rx) = initialKeys cr (c_dcid c) True;
             c = c\<lparr>c_cc := foldl (\<lambda>cc p. if p_inFlight p
                              then cc\<lparr>bytesInFlight := bytesInFlight cc - of_nat (p_size p)\<rparr> else cc) (c_cc c) (n_sent s)\<rparr>;
             c = upd_space spaceInitial (\<lambda>s. s\<lparr>n_tx := Some tx, n_rx := Some rx,
                   n_ackElicitingInFlight := n_ackElicitingInFlight s - int (length (filter p_ackEliciting (n_sent s))),
                   n_sent := [], n_cryptoSend := onLost 0 (nextoff (n_cryptoSend s)) (n_cryptoSend s)\<rparr>) c
         in c\<lparr>c_ptoCount := 0\<rparr>))"

text \<open>One pass over the packets kept back: those that have keys now are handled, the others kept.\<close>

definition retry_turn :: "quic_env \<Rightarrow> time \<Rightarrow> bool \<times> qconn \<Rightarrow> bytes \<Rightarrow> bool \<times> qconn" where
  "retry_turn env now st pkt =
     (let (progress, c) = st in
      case parseHeader pkt (length (c_scid c)) of
        (h, Some _) \<Rightarrow> (progress, c)
      | (h, None) \<Rightarrow>
          if keysFor (htyp h) c = None then (progress, c\<lparr>c_buffered := c_buffered c @ [pkt]\<rparr>)
          else (True, snd (handlePacket env pkt h now c)))"

definition retry_pass :: "quic_env \<Rightarrow> time \<Rightarrow> bytes list \<Rightarrow> qconn \<Rightarrow> bool \<times> qconn" where
  "retry_pass env now pending c = foldl (retry_turn env now) (False, c\<lparr>c_buffered := []\<rparr>) pending"

section \<open>A handled packet keeps the invariants\<close>

lemma view_open_keys: "ev_view (snd (open_keys cr sp phase pn c)) = ev_view c"
  by (simp add: open_keys_def Let_def)

lemma view_update_keys: "ev_view (update_keys cr sp phase pn c) = ev_view c"
  by (simp add: update_keys_def Let_def view_upd_space)

lemma view_note_ack: "ev_view (note_ack sp pn largest el now c) = ev_view c"
  by (simp add: note_ack_def Let_def view_upd_space)

lemma evolves_process_packet: "evolves c (process_packet env h pn largest payload now c)"
proof -
  let ?sp = "packetSpace (htyp h)"
  define c1 where "c1 = (if c_isClient c \<and> \<not> c_heardPeer c \<and> htyp h \<noteq> packet1RTT
               then c\<lparr>c_heardPeer := True, c_dcid := scid h,
                      c_peerCIDs := map_put 0 \<lparr>pc_cid = scid h, pc_token = None\<rparr> (c_peerCIDs c)\<rparr> else c)"
  define c2 where "c2 = (if \<not> c_isClient c1 \<and> ?sp = spaceHandshake \<and> \<not> c_addressValidated c1
               then discardSpace spaceInitial (c1\<lparr>c_addressValidated := True\<rparr>) else c1)"
  define c3 where "c3 = c2\<lparr>c_lastActivity := now, c_sentSinceRecv := False\<rparr>"
  obtain res c4 where h: "handleFrames env ?sp payload now c3 = (res, c4)" by force
  have "ev_view c1 = ev_view c" by (simp add: c1_def)
  moreover have "evolves c1 c2"
    unfolding c2_def using evolves_before [OF _ evolves_discardSpace, of "c1\<lparr>c_addressValidated := True\<rparr>" c1] by simp
  moreover have "evolves c3 c4" using evolves_handleFrames [of c3 env ?sp payload now] h by simp
  moreover have "ev_view c3 = ev_view c2" by (simp add: c3_def)
  ultimately have e: "evolves c c4" using evolves_before evolves_after evolves_trans by meson
  have "process_packet env h pn largest payload now c =
    (case res of Inl err \<Rightarrow> closeLocked err c4
     | Inr el \<Rightarrow> if c_closed c4 \<or> n_discarded (c_spaces c4 ?sp) then c4 else note_ack ?sp pn largest el now c4)"
    by (simp add: process_packet_def Let_def c1_def [symmetric] c2_def [symmetric] c3_def [symmetric] h split: sum.split)
  then show ?thesis
    using e evolves_trans [OF e evolves_close] evolves_after [OF e view_note_ack] by (simp split: sum.split)
qed

lemma evolves_opened_packet: "evolves c (opened_packet env h b0 updating pn largest payload now c)"
proof -
  let ?sp = "packetSpace (htyp h)"
  define c1 where "c1 = (if updating then update_keys (qe_crypto env) ?sp (b0 AND 0x04 \<noteq> 0) pn c else c)"
  have v1: "ev_view c1 = ev_view c" by (simp add: c1_def view_update_keys)
  obtain fresh recv where r: "rangeSet_add pn (n_recv (c_spaces c1 ?sp)) = (fresh, recv)" by force
  define c2 where "c2 = upd_space ?sp (\<lambda>s. s\<lparr>n_recv := recv\<rparr>) c1"
  have v2: "ev_view c2 = ev_view c" by (simp add: c2_def view_upd_space v1)
  show ?thesis
    unfolding opened_packet_def Let_def c1_def [symmetric] r prod.case c2_def [symmetric]
    by (simp add: evolves_close evolves_before [OF v1 evolves_close] evolves_view [OF v2]
        evolves_before [OF v2 evolves_process_packet])
qed

lemma evolves_handlePacket:
  assumes "n_rx (c_spaces c (packetSpace (htyp h))) \<noteq> None \<or> n_discarded (c_spaces c (packetSpace (htyp h)))"
  shows "evolves c (snd (handlePacket env pkt h now c))"
proof (cases "htyp h = packet0RTT \<or> n_discarded (c_spaces c (packetSpace (htyp h)))")
  case True
  then show ?thesis by (auto simp: handlePacket_def Let_def)
next
  case False
  let ?sp = "packetSpace (htyp h)" and ?cr = "qe_crypto env"
  from False assms obtain rx where rx: "n_rx (c_spaces c ?sp) = Some rx" by auto
  have "evolves c (snd (case keys_open k p q pn of Inl _ \<Rightarrow> (False, c1)
      | Inr payload \<Rightarrow> (True, opened_packet env h b0 up pn largest payload now c1)))"
    if "open_keys ?cr ?sp phase pn c = ((k, up), c1)" for phase pn k up c1 p q b0 largest
    using evolves_before [OF _ evolves_opened_packet, of c1 c] evolves_view [of c1 c]
      view_open_keys [of ?cr ?sp phase pn c] that by (simp split: sum.split)
  then show ?thesis
    using False by (simp add: handlePacket_def Let_def rx split: option.split prod.split)
qed

lemma keysFor_rx: "keysFor t c \<noteq> None \<Longrightarrow> n_rx (c_spaces c (packetSpace t)) \<noteq> None"
  by (simp add: keysFor_def Let_def split: if_splits)

section \<open>Packets that wait for their keys\<close>

text \<open>A pass that handles a packet leaves fewer of them, which is why \<open>retryBuffered\<close> comes to an end.\<close>

lemma retry_turn_shrinks:
  assumes "length (c_buffered c) + (if progress then 1 else 0) \<le> k"
  shows "length (c_buffered (snd (retry_turn env now (progress, c) pkt))) +
    (if fst (retry_turn env now (progress, c) pkt) then 1 else 0) \<le> Suc k"
proof -
  obtain h err where p: "parseHeader pkt (length (c_scid c)) = (h, err)" by force
  have "keysFor (htyp h) c \<noteq> None \<Longrightarrow>
    c_buffered (snd (handlePacket env pkt h now c)) \<in> {c_buffered c, []}"
    using evolves_handlePacket [of c h env pkt now] keysFor_rx [of "htyp h" c] by (auto simp: evolves_def evolves_by_def)
  then show ?thesis using assms by (auto simp: retry_turn_def p split: option.split)
qed

lemma retry_pass_shrinks:
  "length (c_buffered (snd (retry_pass env now pending c))) + (if fst (retry_pass env now pending c) then 1 else 0)
    \<le> length pending"
proof -
  have "length (c_buffered c) + (if progress then 1 else 0) \<le> k \<Longrightarrow>
    length (c_buffered (snd (foldl (retry_turn env now) (progress, c) pending))) +
    (if fst (foldl (retry_turn env now) (progress, c) pending) then 1 else 0) \<le> k + length pending" for progress c k
  proof (induction pending arbitrary: progress c k)
    case (Cons pkt pending)
    obtain pr c1 where t: "retry_turn env now (progress, c) pkt = (pr, c1)" by force
    show ?case using retry_turn_shrinks [OF Cons.prems, of env now pkt] Cons.IH [of c1 pr "Suc k"] by (simp add: t)
  qed simp
  from this [of "c\<lparr>c_buffered := []\<rparr>" False 0] show ?thesis by (simp add: retry_pass_def)
qed

function retryBuffered :: "quic_env \<Rightarrow> time \<Rightarrow> qconn \<Rightarrow> qconn" where
  "retryBuffered env now c =
     (if c_buffered c = [] \<or> c_closed c then c
      else
        (case retry_pass env now (c_buffered c) c of
           (progress, c') \<Rightarrow> if \<not> progress then c' else retryBuffered env now c'))"
  by pat_completeness auto
termination
proof (relation "measure (\<lambda>(env, now, c). length (c_buffered c))", goal_cases)
  case (2 env now c pr c')
  then show ?case using retry_pass_shrinks [of env now "c_buffered c" c] by (simp add: 2(2) [symmetric])
qed simp

declare retryBuffered.simps [simp del]

section \<open>A datagram\<close>

text \<open>
  The loop of \<open>handleDatagramLocked\<close>: whether the function returns at once, whether a packet was
  authentic, and the connection. Opening a packet works in place, but only a datagram that is one
  packet with a short header can be a stateless reset, and its last 16 bytes are then neither packet
  number nor plaintext, so that looking at the whole datagram afterwards sees them as they came.
\<close>

function packets_loop :: "quic_env \<Rightarrow> time \<Rightarrow> bool \<Rightarrow> bytes \<Rightarrow> qconn \<Rightarrow> (bool \<times> bool) \<times> qconn" where
  "packets_loop env now processed d c =
     (if d = [] \<or> c_closed c then ((False, processed), c)
      else
        (case parseHeader d (length (c_scid c)) of
           (h, Some err) \<Rightarrow>
             if err = errUnknownVersion
             then ((True, processed), if c_isClient c \<and> hversion h = 0 then handleVersionNegotiation d c else c)
             else ((False, processed), c)
         | (h, None) \<Rightarrow>
             if htyp h = packetRetry
             then ((True, processed), handleRetry (qe_crypto env) (take (hend h) d) h c)
             else if htyp h \<noteq> packet1RTT \<and> dcid h \<noteq> c_scid c \<and> (c_isClient c \<or> dcid h \<noteq> c_odcid c)
             then packets_loop env now processed (drop (hend h) d) c
             else
               (case handlePacket env (take (hend h) d) h now c of
                  (ok, c') \<Rightarrow> packets_loop env now (processed \<or> ok) (drop (hend h) d) c')))"
  by pat_completeness auto
termination
proof (relation "measure (\<lambda>(env, now, pr, d, c). length d)", goal_cases)
  case (2 env now processed d c h e)
  then show ?case using parseHeader_bounds [OF 2(2) [symmetric, unfolded 2(3)]] by simp
next
  case (3 env now processed d c h e ok c')
  then show ?case using parseHeader_bounds [OF 3(2) [symmetric, unfolded 3(3)]] by simp
qed simp

declare packets_loop.simps [simp del]

definition handleDatagramLocked :: "quic_env \<Rightarrow> bytes \<Rightarrow> time \<Rightarrow> qconn \<Rightarrow> qconn" where
  "handleDatagramLocked env d now c =
     (let c = c\<lparr>c_bytesRecv := c_bytesRecv c + of_nat (length d)\<rparr> in
      case packets_loop env now False d c of
        ((ret, processed), c) \<Rightarrow>
          if ret then c
          else if \<not> processed \<and> c_isClient c \<and> isStatelessReset d c then terminateLocked ErrStatelessReset c
          else retryBuffered env now c)"

end
