(* ===== verification/Quic_Api.thy ===== *)
theory Quic_Api
  imports Quic_Conn
begin

text \<open>
  The operations a QUIC connection offers to its socket, its timer and its user (\<open>conn.go\<close>,
  \<open>stream.go\<close>), each the critical section it is in the code, the dispatch of handler calls, and what
  holds in every state they lead to. \<open>None\<close> is a call that does not return, which only the loop of
  \<open>flushLocked\<close> could be the reason for.
\<close>

section \<open>Operations\<close>

definition HandleDatagram :: "quic_env \<Rightarrow> bytes \<Rightarrow> time \<Rightarrow> qconn \<Rightarrow> qconn option" where
  "HandleDatagram env d now c =
     (if \<not> c_closed c then flushLocked now (handleDatagramLocked env d now c) else Some c)"

definition Abort :: "qerror \<Rightarrow> qconn \<Rightarrow> qconn" where
  "Abort err c = terminateLocked err c"

definition quic_Close :: "u64 \<Rightarrow> bytes \<Rightarrow> qconn \<Rightarrow> qconn" where
  "quic_Close code reason c = closeLocked (ApplicationError code reason False) c"

definition CloseWhenDone :: "u64 \<Rightarrow> bytes \<Rightarrow> qconn \<Rightarrow> qconn" where
  "CloseWhenDone code reason c =
     (if \<not> c_closed c \<and> c_closeWhenDone c = None
      then closeIfDoneLocked (c\<lparr>c_closeWhenDone := Some (ApplicationError code reason False)\<rparr>) else c)"

definition quic_Write :: "u64 \<Rightarrow> bytes \<Rightarrow> bool \<Rightarrow> time \<Rightarrow> qconn \<Rightarrow> (qerror option \<times> qconn) option" where
  "quic_Write sid p fin now c =
     (case writeLocked sid p fin c of
        (None, c) \<Rightarrow> map_option (\<lambda>c. (None, c)) (flushLocked now c)
      | (Some err, c) \<Rightarrow> Some (Some err, c))"

definition quic_Reset :: "u64 \<Rightarrow> u64 \<Rightarrow> time \<Rightarrow> qconn \<Rightarrow> qconn option" where
  "quic_Reset sid code now c = (if \<not> c_closed c then flushLocked now (resetLocked sid code c) else Some c)"

definition StopSending :: "u64 \<Rightarrow> u64 \<Rightarrow> time \<Rightarrow> qconn \<Rightarrow> qconn option" where
  "StopSending sid code now c = (if \<not> c_closed c then flushLocked now (stopSendingLocked sid code c) else Some c)"

definition onTimer :: "time \<Rightarrow> qconn \<Rightarrow> qconn option" where
  "onTimer now c =
     (if c_closed c then Some c
      else if \<not> c_handshakeComplete c \<and> \<not> now < c_created c + cf_HandshakeTimeout (c_config c)
      then Some (terminateLocked ErrHandshakeTimeout c)
      else if \<not> now < idleDeadline c then Some (terminateLocked ErrIdleTimeout c)
      else
        (let c = (if c_lossDeadline c \<noteq> 0 \<and> \<not> now < c_lossDeadline c then onLossDetectionTimeout now c else c);
             c = (if cf_KeepAlivePeriod (c_config c) > 0 \<and> c_handshakeComplete c \<and> \<not> now < keepAliveAt c
                  then c\<lparr>c_pingPending := True\<rparr> else c)
         in flushLocked now c))"

text \<open>
  \<open>cid\<close> and \<open>ocid\<close> are what \<open>randomCID\<close> returns, \<open>created\<close> and \<open>now\<close> the two readings of the clock. A
  failure of TLS goes to the caller of \<open>Dial\<close> as it is.
\<close>

definition start_error :: "tls_failure \<Rightarrow> qerror" where
  "start_error f = (case f of AlertError _ msg \<Rightarrow> OtherError msg | OtherFailure msg \<Rightarrow> OtherError msg)"

definition client_conn :: "quic_env \<Rightarrow> qconfig \<Rightarrow> bytes \<Rightarrow> bytes \<Rightarrow> tls_conn \<Rightarrow> time \<Rightarrow> qconn" where
  "client_conn env config cid ocid tls created =
     (let c = (newConn config True cid tls created)\<lparr>c_odcid := ocid, c_dcid := ocid\<rparr>;
          (tx, rx) = initialKeys (qe_crypto env) ocid True;
          c = upd_space spaceInitial (\<lambda>s. s\<lparr>n_tx := Some tx, n_rx := Some rx\<rparr>) c
      in snd (tls_do (SetTransportParameters (encode (c_local c))) c))"

definition Dial ::
  "quic_env \<Rightarrow> qconfig \<Rightarrow> bytes \<Rightarrow> bytes \<Rightarrow> tls_conn \<Rightarrow> time \<Rightarrow> time \<Rightarrow> (qerror + qconn) option" where
  "Dial env config cid ocid tls created now =
     (if \<not> cf_hasTLSConfig config then Some (Inl (OtherError (ascii ''quic: Config.TLSConfig is required'')))
      else
        (case tls_do TLSStart (client_conn env config cid ocid tls created) of
           (Some f, _) \<Rightarrow> Some (Inl (start_error f))
         | (None, c) \<Rightarrow>
             (case processTLSEvents (qe_crypto env) c of
                (Some err, _) \<Rightarrow> Some (Inl err)
              | (None, c) \<Rightarrow> map_option Inr (flushLocked now c))))"

definition server_conn :: "quic_env \<Rightarrow> qconfig \<Rightarrow> bytes \<Rightarrow> tls_conn \<Rightarrow> time \<Rightarrow> pkt_header \<Rightarrow> qconn" where
  "server_conn env config cid tls created h =
     (let c = newConn config False cid tls created;
          c = c\<lparr>c_odcid := dcid h, c_dcid := scid h,
                c_peerCIDs := map_put 0 \<lparr>pc_cid = scid h, pc_token = None\<rparr> (c_peerCIDs c),
                c_local := (c_local c)\<lparr>tp_originalDCID := dcid h, tp_hasOriginalDCID := True, tp_disableMigration := True\<rparr>\<rparr>;
          c = (case cf_ResetKey config of
                 None \<Rightarrow> c
               | Some key \<Rightarrow> c\<lparr>c_local := (c_local c)\<lparr>tp_statelessResetToken := Some (reset_token (qe_crypto env) key cid)\<rparr>\<rparr>);
          (tx, rx) = initialKeys (qe_crypto env) (dcid h) False
      in upd_space spaceInitial (\<lambda>s. s\<lparr>n_tx := Some tx, n_rx := Some rx\<rparr>) c)"

definition Accept ::
  "quic_env \<Rightarrow> qconfig \<Rightarrow> bytes \<Rightarrow> tls_conn \<Rightarrow> time \<Rightarrow> bytes \<Rightarrow> time \<Rightarrow> qconn option option" where
  "Accept env config cid tls created datagram now =
     (case parseHeader datagram cidLen of
        (h, err) \<Rightarrow>
          if err \<noteq> None \<or> htyp h \<noteq> packetInitial \<or> length (dcid h) < 8 \<or> \<not> cf_hasTLSConfig config then Some None
          else
            (case tls_do TLSStart (server_conn env config cid tls created h) of
               (Some _, _) \<Rightarrow> Some None
             | (None, c) \<Rightarrow> map_option Some (HandleDatagram env datagram now c)))"

section \<open>What operations keep\<close>

text \<open>\<open>evolves\<close> without what it says about packets kept back, of which an operation may add some.\<close>

definition progresses :: "qconn \<Rightarrow> qconn \<Rightarrow> bool" where
  "progresses c c' \<longleftrightarrow>
     closes_once c c' \<and> balance c' = balance c \<and>
     (\<forall>sp. n_discarded (c_spaces c sp) \<longrightarrow> n_discarded (c_spaces c' sp)) \<and>
     c_isClient c' = c_isClient c \<and> c_config c' = c_config c \<and> c_scid c' = c_scid c"

lemma progresses_refl [simp]: "progresses c c"
  by (simp add: progresses_def)

lemma progresses_trans [trans]: "progresses a b \<Longrightarrow> progresses b c \<Longrightarrow> progresses a c"
  using closes_once_trans [of a b c] by (simp add: progresses_def)

lemma evolves_progresses: "evolves c c' \<Longrightarrow> progresses c c'"
  by (simp add: evolves_def evolves_by_def progresses_def)

lemma progresses_buffered [simp]: "progresses c (c\<lparr>c_buffered := b\<rparr>)"
  by (simp add: progresses_def balance_def in_flight_all_def closes_once_same)

lemma progresses_handlePacket: "progresses c (snd (handlePacket env pkt h now c))"
proof (cases "n_rx (c_spaces c (packetSpace (htyp h))) \<noteq> None \<or> n_discarded (c_spaces c (packetSpace (htyp h)))")
  case True
  then show ?thesis by (intro evolves_progresses evolves_handlePacket)
next
  case False
  then show ?thesis by (simp add: handlePacket_def Let_def)
qed

lemma progresses_retry_turn: "progresses (snd st) (snd (retry_turn env now st pkt))"
  by (simp add: retry_turn_def case_prod_beta progresses_handlePacket split: option.split)

lemma progresses_retry_pass: "progresses c (snd (retry_pass env now pending c))"
proof -
  have "progresses (snd st) (snd (foldl (retry_turn env now) st pending))" for st
  proof (induction pending arbitrary: st)
    case (Cons pkt pending)
    show ?case using progresses_trans [OF progresses_retry_turn Cons.IH] by simp
  qed simp
  from this [of "(False, c\<lparr>c_buffered := []\<rparr>)"] show ?thesis
    using progresses_trans [OF progresses_buffered [of c "[]"]] by (simp add: retry_pass_def)
qed

lemma progresses_retryBuffered: "progresses c (retryBuffered env now c)"
proof (induction env now c rule: retryBuffered.induct)
  case (1 env now c)
  obtain pr c' where r: "retry_pass env now (c_buffered c) c = (pr, c')" by force
  have "progresses c c'" using progresses_retry_pass [of c env now "c_buffered c"] r by simp
  then show ?case
    using "1.IH" [OF _ r [symmetric]] progresses_trans [of c c'] by (simp add: retryBuffered.simps [of env now c] r)
qed

lemma evolves_handleRetry: "evolves c (handleRetry cr pkt h c)"
proof -
  define c0 where "c0 = c\<lparr>c_retrySCID := Some (scid h), c_dcid := scid h, c_token := take (length (htoken h) - 16) (htoken h)\<rparr>"
  let ?s = "c_spaces c0 spaceInitial"
  obtain tx rx where k: "initialKeys cr (c_dcid c0) True = (tx, rx)" by force
  define f where "f = (\<lambda>s :: pnSpace. s\<lparr>n_tx := Some tx, n_rx := Some rx,
    n_ackElicitingInFlight := n_ackElicitingInFlight s - int (length (filter p_ackEliciting (n_sent s))),
    n_sent := [], n_cryptoSend := onLost 0 (nextoff (n_cryptoSend s)) (n_cryptoSend s)\<rparr>)"
  define c1 where "c1 = c0\<lparr>c_cc := (c_cc c0)\<lparr>bytesInFlight := bytesInFlight (c_cc c0) - in_flight (n_sent ?s)\<rparr>\<rparr>"
  have "evolves_by (- in_flight (n_sent ?s)) c0 c1"
    unfolding c1_def using evolves_by_cc [of "(c_cc c0)\<lparr>bytesInFlight := bytesInFlight (c_cc c0) - in_flight (n_sent ?s)\<rparr>" c0] by simp
  moreover have "evolves_by (in_flight (n_sent ?s)) c1 (upd_space spaceInitial f c1)"
    using evolves_by_upd_space [of c1 spaceInitial f] by (simp add: f_def c1_def)
  ultimately have "evolves c0 (upd_space spaceInitial f c1)" using evolves_by_trans by (fastforce simp: evolves_def)
  then have e: "evolves c ((upd_space spaceInitial f c1)\<lparr>c_ptoCount := 0\<rparr>)"
    using evolves_before [of c0 c] evolves_after by (simp add: c0_def)
  have "handleRetry cr pkt h c \<in> {c, (upd_space spaceInitial f c1)\<lparr>c_ptoCount := 0\<rparr>}"
    unfolding handleRetry_def Let_def c0_def [symmetric] k prod.case drop_in_flight
    by (simp add: f_def c1_def)
  then show ?thesis using e by auto
qed

lemma evolves_handleVersionNegotiation: "evolves c (handleVersionNegotiation d c)"
  by (simp add: handleVersionNegotiation_def Let_def case_prod_beta evolves_terminate)

lemma progresses_packets_loop: "progresses c (snd (packets_loop env now processed d c))"
proof (induction env now processed d c rule: packets_loop.induct)
  case (1 env now processed d c)
  obtain h err where p: "parseHeader d (length (c_scid c)) = (h, err)" by force
  obtain ok c' where t: "handlePacket env (take (hend h) d) h now c = (ok, c')" by force
  have "progresses c c'" using progresses_handlePacket [of c env "take (hend h) d" h now] t by simp
  then show ?case
    using "1.IH"(1) [OF _ p [symmetric]] "1.IH"(2) [OF _ p [symmetric] _ _ _ t [symmetric]] progresses_trans [of c c']
    by (auto simp: packets_loop.simps [of env now processed d c] p t evolves_progresses evolves_handleRetry
        evolves_handleVersionNegotiation split: option.split)
qed

lemma progresses_handleDatagramLocked: "progresses c (handleDatagramLocked env d now c)"
proof -
  let ?c = "c\<lparr>c_bytesRecv := c_bytesRecv c + of_nat (length d)\<rparr>"
  obtain ret processed c1 where l: "packets_loop env now False d ?c = ((ret, processed), c1)" by (metis prod.collapse)
  have "progresses ?c c1" using progresses_packets_loop [of ?c env now False d] l by simp
  moreover have "progresses c ?c" by (intro evolves_progresses evolves_view) simp
  ultimately have "progresses c c1" by (rule progresses_trans [rotated])
  then show ?thesis
    using progresses_trans [OF _ evolves_progresses [OF evolves_terminate]] progresses_trans [OF _ progresses_retryBuffered]
    by (simp add: handleDatagramLocked_def l)
qed

lemma evolves_onTimer: "onTimer now c = Some c' \<Longrightarrow> evolves c c'"
proof -
  assume t: "onTimer now c = Some c'"
  define c1 where "c1 = (if c_lossDeadline c \<noteq> 0 \<and> \<not> now < c_lossDeadline c then onLossDetectionTimeout now c else c)"
  define c2 where "c2 = (if cf_KeepAlivePeriod (c_config c1) > 0 \<and> c_handshakeComplete c1 \<and> \<not> now < keepAliveAt c1
                  then c1\<lparr>c_pingPending := True\<rparr> else c1)"
  have e1: "evolves c c1" by (simp add: c1_def evolves_onLossDetectionTimeout)
  have e2: "evolves c c2" by (rule evolves_after [OF e1]) (simp add: c2_def)
  from t show ?thesis
    unfolding onTimer_def Let_def c1_def [symmetric] c2_def [symmetric]
    using evolves_terminate evolves_trans [OF e2 evolves_flushLocked] by (auto split: if_splits)
qed

section \<open>Handler calls\<close>

text \<open>
  The operations that end in \<open>dispatch\<close>. A timer that fires on a closed connection does nothing.
\<close>

inductive quic_op :: "quic_env \<Rightarrow> qconn \<Rightarrow> qconn \<Rightarrow> bool" for env where
  op_datagram: "HandleDatagram env d now c = Some c' \<Longrightarrow> quic_op env c c'"
| op_timer: "\<not> c_closed c \<Longrightarrow> onTimer now c = Some c' \<Longrightarrow> quic_op env c c'"
| op_abort: "quic_op env c (Abort err c)"
| op_close: "quic_op env c (quic_Close code reason c)"
| op_close_when_done: "quic_op env c (CloseWhenDone code reason c)"
| op_write: "quic_Write sid p fin now c = Some (err, c') \<Longrightarrow> quic_op env c c'"
| op_reset: "quic_Reset sid code now c = Some c' \<Longrightarrow> quic_op env c c'"
| op_stop: "StopSending sid code now c = Some c' \<Longrightarrow> quic_op env c c'"

lemma quic_op_progresses: "quic_op env c c' \<Longrightarrow> progresses c c'"
proof (induction rule: quic_op.induct)
  case (op_datagram d now c c')
  then show ?case
    using progresses_trans [OF progresses_handleDatagramLocked evolves_progresses [OF evolves_flushLocked]]
    by (auto simp: HandleDatagram_def split: if_splits)
next
  case (op_write sid p fin now c err c')
  obtain e c1 where w: "writeLocked sid p fin c = (e, c1)" by force
  then have v: "ev_view c1 = ev_view c" using view_writeLocked [of sid p fin c] by simp
  from op_write show ?case
    using evolves_progresses [OF evolves_before [OF v evolves_flushLocked]] evolves_progresses [OF evolves_view [OF v]]
    by (auto simp: quic_Write_def w split: option.splits)
next
  case (op_reset sid code now c c')
  then show ?case
    using evolves_progresses [OF evolves_before [OF view_streams(4) evolves_flushLocked]]
    by (auto simp: quic_Reset_def split: if_splits)
next
  case (op_stop sid code now c c')
  then show ?case
    using evolves_progresses [OF evolves_before [OF view_streams(5) evolves_flushLocked]]
    by (auto simp: StopSending_def split: if_splits)
qed (auto simp: Abort_def quic_Close_def CloseWhenDone_def
    intro!: evolves_progresses evolves_onTimer evolves_terminate evolves_close evolves_before [OF _ evolves_closeIfDone])

text \<open>
  \<open>dispatch\<close> runs on whichever goroutine gets there first: \<open>hs_running\<close> holds what it has taken from the
  queue and not called yet, and is \<open>Some\<close> exactly while \<open>c.dispatching\<close> is set. \<open>hs_waiting\<close> counts the
  goroutines between the end of an operation and its call of \<open>dispatch\<close>, \<open>hs_called\<close> lists the handler calls
  that have begun. A handler may run operations of its own: their steps come between the others.
\<close>

record handler_state =
  hs_conn :: qconn
  hs_running :: "qevent list option"
  hs_waiting :: nat
  hs_called :: "qevent list"

definition dispatch_head :: "handler_state \<Rightarrow> handler_state" where
  "dispatch_head s =
     (let c = hs_conn s in
      if c_events c \<noteq> [] then s\<lparr>hs_conn := c\<lparr>c_events := []\<rparr>, hs_running := Some (c_events c)\<rparr>
      else s\<lparr>hs_running := None\<rparr>)"

definition dispatch_enter :: "handler_state \<Rightarrow> handler_state" where
  "dispatch_enter s = (if hs_running s \<noteq> None then s else dispatch_head s)"

text \<open>
  A client's TLS finishes no handshake before it has heard from the server, so that \<open>Dial\<close>, which does
  not dispatch, leaves no handler call behind. \<open>Accept\<close> goes through \<open>HandleDatagram\<close> and its \<open>dispatch\<close>.
\<close>

inductive quic_start :: "quic_env \<Rightarrow> handler_state \<Rightarrow> bool" for env where
  dialed: "Dial env config cid ocid tls created now = Some (Inr c) \<Longrightarrow> c_events c = [] \<Longrightarrow>
    quic_start env \<lparr>hs_conn = c, hs_running = None, hs_waiting = 0, hs_called = []\<rparr>"
| accepted: "Accept env config cid tls created d now = Some (Some c) \<Longrightarrow>
    quic_start env \<lparr>hs_conn = c, hs_running = None, hs_waiting = 1, hs_called = []\<rparr>"

inductive quic_step :: "quic_env \<Rightarrow> handler_state \<Rightarrow> handler_state \<Rightarrow> bool" for env where
  operation: "quic_op env (hs_conn s) c' \<Longrightarrow>
    quic_step env s (s\<lparr>hs_conn := c', hs_waiting := hs_waiting s + 1\<rparr>)"
| open_stream: "openStream bidi (hs_conn s) = (res, c') \<Longrightarrow> quic_step env s (s\<lparr>hs_conn := c'\<rparr>)"
| enter: "hs_waiting s = Suc n \<Longrightarrow> quic_step env s (dispatch_enter (s\<lparr>hs_waiting := n\<rparr>))"
| call: "hs_running s = Some (e # es) \<Longrightarrow>
    quic_step env s (s\<lparr>hs_running := Some es, hs_called := hs_called s @ [e]\<rparr>)"
| again: "hs_running s = Some [] \<Longrightarrow> quic_step env s (dispatch_head s)"

inductive quic_reach :: "quic_env \<Rightarrow> handler_state \<Rightarrow> bool" for env where
  start: "quic_start env s \<Longrightarrow> quic_reach env s"
| step: "quic_reach env s \<Longrightarrow> quic_step env s s' \<Longrightarrow> quic_reach env s'"

text \<open>All handler calls so far, those begun, those taken and those queued.\<close>

definition all_calls :: "handler_state \<Rightarrow> qevent list" where
  "all_calls s = hs_called s @ (case hs_running s of None \<Rightarrow> [] | Some es \<Rightarrow> es) @ c_events (hs_conn s)"

definition ends_in_close :: "bool \<Rightarrow> qevent list \<Rightarrow> bool" where
  "ends_in_close cl es \<longleftrightarrow> (if cl then \<exists>fs err. es = fs @ [OnClose err] \<and> closes fs = 0 else closes es = 0)"

definition handler_inv :: "handler_state \<Rightarrow> bool" where
  "handler_inv s \<longleftrightarrow>
     ends_in_close (c_closed (hs_conn s)) (all_calls s) \<and>
     (c_events (hs_conn s) \<noteq> [] \<longrightarrow> hs_waiting s > 0 \<or> hs_running s \<noteq> None) \<and>
     balance (hs_conn s) = 0"

lemma closes_zero_iff: "closes es = 0 \<longleftrightarrow> (\<forall>e \<in> set es. \<not> is_OnClose e)"
  by (simp add: closes_def filter_empty_conv)

lemma closes_last: "closes es = 0 \<Longrightarrow> es \<noteq> [] \<Longrightarrow> \<not> is_OnClose (last es)"
  by (simp add: closes_zero_iff)

lemma ends_in_close_nth:
  assumes "ends_in_close cl es" "i < length es" "is_OnClose (es ! i)"
  shows "i = length es - 1 \<and> cl"
proof (cases cl)
  case True
  then obtain fs err where es: "es = fs @ [OnClose err]" "closes fs = 0" using assms(1) by (auto simp: ends_in_close_def)
  have "i = length fs"
  proof (rule ccontr)
    assume "i \<noteq> length fs"
    then have "es ! i \<in> set fs" using assms(2) es(1) by (simp add: nth_append)
    then show False using assms(3) es(2) by (simp add: closes_zero_iff)
  qed
  with True es(1) show ?thesis by simp
next
  case False
  then show ?thesis using assms nth_mem [OF assms(2)] by (simp add: ends_in_close_def closes_zero_iff)
qed

lemma ends_in_close_progress:
  assumes "progresses c c'" "ends_in_close (c_closed c) (es @ c_events c)"
  shows "ends_in_close (c_closed c') (es @ c_events c')"
proof -
  from assms(1) have "closes_once c c'" by (simp add: progresses_def)
  then show ?thesis
  proof (cases rule: closes_onceE)
    case still
    then show ?thesis using assms(2) by simp
  next
    case (goes_on fs)
    then show ?thesis using assms(2) by (simp add: ends_in_close_def)
  next
    case (closes fs err)
    then have "es @ c_events c' = (es @ c_events c @ fs) @ [OnClose err]" "closes (es @ c_events c @ fs) = 0"
      using assms(2) by (simp_all add: ends_in_close_def)
    with closes(2) show ?thesis unfolding ends_in_close_def by metis
  qed
qed

lemma handler_inv_conn:
  assumes "handler_inv s" "progresses (hs_conn s) c'"
    and "c_events c' \<noteq> [] \<longrightarrow> hs_waiting s' > 0 \<or> hs_running s' \<noteq> None"
    and "hs_conn s' = c'" "hs_running s' = hs_running s" "hs_called s' = hs_called s"
  shows "handler_inv s'"
  using assms ends_in_close_progress [of "hs_conn s" c' "hs_called s @ (case hs_running s of None \<Rightarrow> [] | Some es \<Rightarrow> es)"]
  by (simp add: handler_inv_def all_calls_def progresses_def)

lemma dispatch_head_inv:
  assumes "ends_in_close (c_closed (hs_conn s)) (all_calls s)" "balance (hs_conn s) = 0"
    "hs_running s = None \<or> hs_running s = Some []"
  shows "handler_inv (dispatch_head s)"
proof (cases "c_events (hs_conn s) = []")
  case True
  then show ?thesis using assms by (elim disjE) (simp_all add: dispatch_head_def handler_inv_def all_calls_def)
next
  case False
  moreover have "balance ((hs_conn s)\<lparr>c_events := []\<rparr>) = 0" using assms(2) by (simp add: balance_def in_flight_all_def)
  ultimately show ?thesis
    using assms by (elim disjE) (simp_all add: dispatch_head_def Let_def handler_inv_def all_calls_def)
qed

lemma quic_step_inv:
  assumes "quic_step env s s'" "handler_inv s"
  shows "handler_inv s'"
  using assms
proof (induction rule: quic_step.induct)
  case (operation s c')
  show ?case by (rule handler_inv_conn [OF operation(2) quic_op_progresses [OF operation(1)]]) simp_all
next
  case (open_stream bidi s res c')
  then have v: "ev_view c' = ev_view (hs_conn s)" using view_openStream [of bidi "hs_conn s"] by simp
  show ?case
    by (rule handler_inv_conn [OF open_stream(2) evolves_progresses [OF evolves_view [OF v]]])
      (use open_stream(2) in \<open>simp_all add: ev_view_fields [OF v] handler_inv_def\<close>)
next
  case (enter s n)
  have "handler_inv (dispatch_head (s\<lparr>hs_waiting := n\<rparr>))" if "hs_running s = None"
    by (rule dispatch_head_inv) (use enter(2) that in \<open>simp_all add: handler_inv_def all_calls_def\<close>)
  moreover have "handler_inv (s\<lparr>hs_waiting := n\<rparr>)" if "hs_running s \<noteq> None"
    using enter(2) that by (simp add: handler_inv_def all_calls_def)
  ultimately show ?case by (simp add: dispatch_enter_def)
next
  case (call s e es)
  then show ?case by (simp add: handler_inv_def all_calls_def)
next
  case (again s)
  show ?case by (rule dispatch_head_inv) (use again in \<open>simp_all add: handler_inv_def\<close>)
qed

lemma newConn_fresh:
  "balance (newConn config isClient cid tls now) = 0" "\<not> c_closed (newConn config isClient cid tls now)"
  "c_events (newConn config isClient cid tls now) = []" "c_buffered (newConn config isClient cid tls now) = []"
  by (simp_all add: newConn_def Let_def balance_def in_flight_all_def all_spaces_def zeroSpace_def newNewReno_def)

lemma view_client_conn: "ev_view (client_conn env config cid ocid tls created) = ev_view (newConn config True cid tls created)"
  by (simp add: client_conn_def Let_def case_prod_beta view_upd_space)

lemma view_server_conn: "ev_view (server_conn env config cid tls created h) = ev_view (newConn config False cid tls created)"
  by (simp add: server_conn_def Let_def case_prod_beta view_upd_space split: option.split)

lemma Dial_progresses:
  assumes "Dial env config cid ocid tls created now = Some (Inr c)"
  shows "evolves (newConn config True cid tls created) c"
proof -
  let ?c = "client_conn env config cid ocid tls created"
  obtain f c1 where t: "tls_do TLSStart ?c = (f, c1)" by force
  obtain err c2 where q: "processTLSEvents (qe_crypto env) c1 = (err, c2)" by force
  have f: "flushLocked now c2 = Some c"
    using assms by (auto simp: Dial_def t q split: if_splits option.splits)
  have v: "ev_view c1 = ev_view (newConn config True cid tls created)"
    using view_tls_do [of TLSStart ?c] t by (simp add: view_client_conn)
  then have "\<not> c_closed c1" using ev_view_fields(2) newConn_fresh(2) by metis
  then have "evolves c1 c2" using evolves_processTLSEvents [of c1 "qe_crypto env"] q by simp
  from evolves_trans [OF evolves_before [OF v this] evolves_flushLocked [OF f]] show ?thesis .
qed

lemma Accept_op:
  assumes "Accept env config cid tls created d now = Some (Some c)"
  obtains c1 where "ev_view c1 = ev_view (newConn config False cid tls created)" "quic_op env c1 c"
proof -
  obtain h err where p: "parseHeader d cidLen = (h, err)" by force
  let ?c = "server_conn env config cid tls created h"
  obtain f c1 where t: "tls_do TLSStart ?c = (f, c1)" by force
  have "HandleDatagram env d now c1 = Some c"
    using assms by (auto simp: Accept_def p t split: if_splits option.splits)
  moreover have "ev_view c1 = ev_view (newConn config False cid tls created)"
    using view_tls_do [of TLSStart ?c] t by (simp add: view_server_conn)
  ultimately show ?thesis using that op_datagram by blast
qed

lemma fresh_inv:
  assumes "progresses (newConn config isClient cid tls created) c" "c_events c \<noteq> [] \<longrightarrow> 0 < n"
  shows "handler_inv \<lparr>hs_conn = c, hs_running = None, hs_waiting = n, hs_called = []\<rparr>"
  using assms ends_in_close_progress [OF assms(1), of "[]"]
  by (simp add: handler_inv_def all_calls_def newConn_fresh ends_in_close_def progresses_def)

lemma quic_start_inv: "quic_start env s \<Longrightarrow> handler_inv s"
proof (induction rule: quic_start.induct)
  case (dialed config cid ocid tls created now c)
  show ?case by (rule fresh_inv [OF evolves_progresses [OF Dial_progresses [OF dialed(1)]]]) (simp add: dialed(2))
next
  case (accepted config cid tls created d now c)
  obtain c1 where v: "ev_view c1 = ev_view (newConn config False cid tls created)" and o: "quic_op env c1 c"
    by (rule Accept_op [OF accepted])
  show ?case
    by (rule fresh_inv [OF progresses_trans [OF evolves_progresses [OF evolves_view [OF v]] quic_op_progresses [OF o]]]) simp
qed

lemma quic_reach_inv: "quic_reach env s \<Longrightarrow> handler_inv s"
  by (induction rule: quic_reach.induct) (simp_all add: quic_start_inv quic_step_inv)

section \<open>Packets kept back are few\<close>

lemma evolves_buffered: "evolves c c' \<Longrightarrow> length (c_buffered c') \<le> length (c_buffered c)"
  by (auto simp: evolves_def evolves_by_def)

lemma handlePacket_buffered:
  "length (c_buffered c) \<le> maxBufferedPackets \<Longrightarrow>
    length (c_buffered (snd (handlePacket env pkt h now c))) \<le> maxBufferedPackets"
proof (cases "n_rx (c_spaces c (packetSpace (htyp h))) \<noteq> None \<or> n_discarded (c_spaces c (packetSpace (htyp h)))")
  case True
  then show "length (c_buffered c) \<le> maxBufferedPackets \<Longrightarrow> ?thesis"
    using evolves_buffered [OF evolves_handlePacket, of c h env pkt now] by linarith
qed (simp add: handlePacket_def Let_def)

lemma retryBuffered_buffered: "length (c_buffered (retryBuffered env now c)) \<le> length (c_buffered c)"
proof (induction env now c rule: retryBuffered.induct)
  case (1 env now c)
  obtain pr c' where r: "retry_pass env now (c_buffered c) c = (pr, c')" by force
  have "length (c_buffered c') \<le> length (c_buffered c)"
    using retry_pass_shrinks [of env now "c_buffered c" c] r by simp
  then show ?case
    using "1.IH" [OF _ r [symmetric]] by (auto simp: retryBuffered.simps [of env now c] r)
qed

lemma packets_loop_buffered:
  "length (c_buffered c) \<le> maxBufferedPackets \<Longrightarrow>
    length (c_buffered (snd (packets_loop env now processed d c))) \<le> maxBufferedPackets"
proof (induction env now processed d c rule: packets_loop.induct)
  case (1 env now processed d c)
  obtain h err where p: "parseHeader d (length (c_scid c)) = (h, err)" by force
  obtain ok c' where t: "handlePacket env (take (hend h) d) h now c = (ok, c')" by force
  have "length (c_buffered c') \<le> maxBufferedPackets"
    using handlePacket_buffered [OF "1.prems", of env "take (hend h) d" h now] t by simp
  then show ?case
    using "1.IH"(1) [OF _ p [symmetric]] "1.IH"(2) [OF _ p [symmetric] _ _ _ t [symmetric]] "1.prems"
      evolves_buffered [OF evolves_handleRetry, of "qe_crypto env" "take (hend h) d" h c]
      evolves_buffered [OF evolves_handleVersionNegotiation, of d c]
    by (auto simp: packets_loop.simps [of env now processed d c] p t split: option.split)
qed

lemma handleDatagram_buffered:
  assumes "length (c_buffered c) \<le> maxBufferedPackets"
  shows "length (c_buffered (handleDatagramLocked env d now c)) \<le> maxBufferedPackets"
proof -
  let ?c = "c\<lparr>c_bytesRecv := c_bytesRecv c + of_nat (length d)\<rparr>"
  obtain ret processed c1 where l: "packets_loop env now False d ?c = ((ret, processed), c1)" by (metis prod.collapse)
  have "length (c_buffered c1) \<le> maxBufferedPackets" using packets_loop_buffered [of ?c env now False d] l assms by simp
  then show ?thesis
    using retryBuffered_buffered [of env now c1] evolves_buffered [OF evolves_terminate, of ErrStatelessReset c1]
    by (simp add: handleDatagramLocked_def l)
qed

lemma quic_op_buffered:
  assumes "quic_op env c c'" "length (c_buffered c) \<le> maxBufferedPackets"
  shows "length (c_buffered c') \<le> maxBufferedPackets"
proof -
  have "(\<exists>d now. \<not> c_closed c \<and> evolves (handleDatagramLocked env d now c) c') \<or> evolves c c'"
    using assms(1)
  proof (cases rule: quic_op.cases)
    case (op_datagram d now)
    then show ?thesis
      using evolves_flushLocked [of now "handleDatagramLocked env d now c" c']
      by (auto simp: HandleDatagram_def split: if_splits)
  next
    case (op_write sid p fin now err)
    then show ?thesis
      using evolves_before [OF view_writeLocked evolves_flushLocked] evolves_view [OF view_writeLocked]
      by (auto simp: quic_Write_def case_prod_beta split: option.splits)
  next
    case (op_reset sid code now)
    then show ?thesis
      using evolves_before [OF view_streams(4) evolves_flushLocked] by (auto simp: quic_Reset_def split: if_splits)
  next
    case (op_stop sid code now)
    then show ?thesis
      using evolves_before [OF view_streams(5) evolves_flushLocked] by (auto simp: StopSending_def split: if_splits)
  qed (auto simp: Abort_def quic_Close_def CloseWhenDone_def
      intro: evolves_onTimer evolves_terminate evolves_close evolves_before [OF _ evolves_closeIfDone])
  then show ?thesis
    using evolves_buffered [of _ c'] handleDatagram_buffered [OF assms(2), of env] assms(2) le_trans by metis
qed

lemma quic_reach_buffered: "quic_reach env s \<Longrightarrow> length (c_buffered (hs_conn s)) \<le> maxBufferedPackets"
proof (induction rule: quic_reach.induct)
  case (start s)
  then show ?case
  proof (cases rule: quic_start.cases)
    case (dialed config cid ocid tls created now c)
    then show ?thesis using evolves_buffered [OF Dial_progresses [OF dialed(2)]] by (simp add: newConn_fresh)
  next
    case (accepted config cid tls created d now c)
    obtain c1 where v: "ev_view c1 = ev_view (newConn config False cid tls created)" and o: "quic_op env c1 c"
      by (rule Accept_op [OF accepted(2)])
    then show ?thesis using quic_op_buffered [OF o] ev_view_fields(6) [OF v] accepted(1) by (simp add: newConn_fresh)
  qed
next
  case (step s s')
  from step(2) show ?case
  proof (cases rule: quic_step.cases)
    case (open_stream bidi res c')
    then have "ev_view c' = ev_view (hs_conn s)" using view_openStream [of bidi "hs_conn s"] by simp
    then show ?thesis using step.IH open_stream(1) ev_view_fields(6) [of c' "hs_conn s"] by simp
  qed (use step.IH quic_op_buffered in \<open>auto simp: dispatch_enter_def dispatch_head_def Let_def\<close>)
qed

section \<open>Properties\<close>

text \<open>
  C2. Handler calls are never lost, reordered or repeated across goroutines, and \<open>OnClose\<close> comes last:
  in every state operations, timers, datagrams and interleaved calls of \<open>dispatch\<close> lead to, a begun
  \<open>OnClose\<close> is the last of the calls that have begun and the connection is closed; and once no operation
  has its \<open>dispatch\<close> still to do and none is running, the queue is empty and \<open>OnClose\<close> has been called
  exactly if the connection is closed.
\<close>

theorem on_close_last_and_once:
  assumes "quic_reach env s"
  shows "(\<forall>i < length (hs_called s). is_OnClose (hs_called s ! i) \<longrightarrow>
       i = length (hs_called s) - 1 \<and> c_closed (hs_conn s)) \<and>
    (hs_waiting s = 0 \<and> hs_running s = None \<longrightarrow> c_events (hs_conn s) = [] \<and>
       (c_closed (hs_conn s) \<longleftrightarrow> hs_called s \<noteq> [] \<and> is_OnClose (last (hs_called s))))"
proof -
  let ?cl = "c_closed (hs_conn s)" and ?called = "hs_called s"
  have I: "handler_inv s" by (rule quic_reach_inv [OF assms])
  obtain rest where all: "all_calls s = ?called @ rest" by (simp add: all_calls_def)
  have e: "ends_in_close ?cl (?called @ rest)" using I all by (simp add: handler_inv_def)
  have 1: "i = length ?called - 1 \<and> ?cl" if i: "i < length ?called" "is_OnClose (?called ! i)" for i
    using ends_in_close_nth [OF e, of i] i by (simp add: nth_append)
  have 2: "c_events (hs_conn s) = [] \<and> (?cl \<longleftrightarrow> ?called \<noteq> [] \<and> is_OnClose (last ?called))"
    if "hs_waiting s = 0" "hs_running s = None"
    using I that by (auto simp: handler_inv_def all_calls_def ends_in_close_def dest: closes_last split: if_splits)
  show ?thesis using 1 2 by blast
qed

text \<open>
  Examples. A space is idle when it has nothing to acknowledge, nothing to probe with and no handshake
  data; a connection whose spaces with keys are idle sends nothing.
\<close>

definition idle_space :: "pnSpace \<Rightarrow> bool" where
  "idle_space s \<longleftrightarrow> \<not> n_ackPending s \<and> n_probes s = 0 \<and> n_cryptoSend s = noSend"

lemma upd_space_same: "f (c_spaces c sp) = c_spaces c sp \<Longrightarrow> upd_space sp f c = c"
  by (simp add: upd_space_def)

lemma buildPacket_idle:
  assumes "idle_space (c_spaces c sp)" "sp \<noteq> spaceApp"
  shows "buildPacket sp room el now c = (None, c)"
proof -
  let ?s = "c_spaces c sp"
  have cf: "crypto_frames mx [] p noSend = ([], p, noSend)" for mx p
    by (simp add: crypto_frames.simps [of mx] hasLost_def noSend_def sb_end_def)
  have u: "upd_space sp (\<lambda>s. s\<lparr>n_cryptoSend := noSend\<rparr>) c = c"
    by (rule upd_space_same) (use assms(1) in \<open>simp add: idle_space_def\<close>)
  have "packet_payload sp mx el now c = (False, [], newSentPacket (n_nextPN ?s), c)" for mx
    using assms u cf by (simp add: packet_payload_def appendFrames_def appendCrypto_def Let_def idle_space_def)
  then show ?thesis by (simp add: buildPacket_def Let_def newSentPacket_def)
qed

lemma buildDatagram_idle:
  assumes "\<And>sp. n_tx (c_spaces c sp) = None \<or> sp \<noteq> spaceApp \<and> idle_space (c_spaces c sp)"
  shows "buildDatagram now c = (None, c)"
proof -
  have t: "build_turn ok now ([], 0, c) sp = ([], 0, c)" for ok sp
    using assms [of sp] buildPacket_idle [of c sp] by (auto simp: build_turn_def Let_def)
  show ?thesis by (simp add: buildDatagram_def all_spaces_def t)
qed

lemma flushLocked_idle:
  assumes "\<And>sp. n_tx (c_spaces c sp) = None \<or> sp \<noteq> spaceApp \<and> idle_space (c_spaces c sp)"
  shows "flushLocked now c = Some (if c_closed c then c else armTimerLocked now (setLossDetectionTimer now c))"
  by (simp add: flushLocked_def send_loop.simps [of now c] buildDatagram_idle [OF assms])

text \<open>A client that has dialed, with a TLS side that says nothing.\<close>

definition demo_env :: quic_env where
  "demo_env = \<lparr>qe_crypto = demo_crypto, qe_range = (\<lambda>xs. xs)\<rparr>"

definition demo_qconfig :: qconfig where
  "demo_qconfig = \<lparr>cf_hasTLSConfig = True, cf_MaxIdleTimeout = 0, cf_HandshakeTimeout = 0, cf_KeepAlivePeriod = 0,
     cf_MaxIncomingStreams = 0, cf_MaxIncomingUniStreams = 0, cf_StreamReceiveWindow = 0, cf_ConnReceiveWindow = 0,
     cf_ResetKey = None, cf_SessionTicketsDisabled = False\<rparr>"

definition silent_tls :: tls_conn where
  "silent_tls = \<lparr>t_events = [], t_answers = [], t_calls = []\<rparr>"

lemma demo_dial: "\<exists>c. Dial demo_env demo_qconfig [1] [2] silent_tls 1 1 = Some (Inr c) \<and> c_events c = [] \<and> \<not> c_closed c"
proof -
  define c0 where "c0 = snd (tls_do TLSStart (client_conn demo_env demo_qconfig [1] [2] silent_tls 1))"
  have t: "tls_do TLSStart (client_conn demo_env demo_qconfig [1] [2] silent_tls 1) = (None, c0)"
    and ev: "t_events (c_tls c0) = []"
    by (simp_all add: c0_def tls_do_def client_conn_def newConn_def silent_tls_def Let_def case_prod_beta upd_space_def)
  have i: "n_tx (c_spaces c0 sp) = None \<or> sp \<noteq> spaceApp \<and> idle_space (c_spaces c0 sp)" for sp
    by (simp add: c0_def tls_do_def client_conn_def newConn_def silent_tls_def Let_def case_prod_beta upd_space_def
        zeroSpace_def idle_space_def noSend_def)
  have v: "ev_view c0 = ev_view (newConn demo_qconfig True [1] silent_tls 1)" by (simp add: c0_def view_client_conn)
  let ?c = "armTimerLocked 1 (setLossDetectionTimer 1 c0)"
  have "Dial demo_env demo_qconfig [1] [2] silent_tls 1 1 = Some (Inr ?c)"
    using ev_view_fields(2) [OF v]
    by (simp add: Dial_def demo_qconfig_def [THEN arg_cong, of cf_hasTLSConfig] t processTLSEvents.simps [of _ c0] ev
        flushLocked_idle [OF i] newConn_fresh)
  moreover have "ev_view ?c = ev_view c0" by simp
  ultimately show ?thesis
    using ev_view_fields(1,2) [OF v] ev_view_fields(1,2) [of ?c c0] by (auto simp: newConn_fresh)
qed

theorem on_close_last_and_once_witness:
  "\<exists>s err. quic_reach demo_env s \<and> hs_called s = [OnClose err] \<and> hs_waiting s = 0 \<and> hs_running s = None \<and>
    c_closed (hs_conn s)"
proof -
  obtain c where d: "Dial demo_env demo_qconfig [1] [2] silent_tls 1 1 = Some (Inr c)" "c_events c = []" "\<not> c_closed c"
    using demo_dial by blast
  define s0 where "s0 = \<lparr>hs_conn = c, hs_running = None, hs_waiting = 0, hs_called = []\<rparr>"
  define s1 where "s1 = s0\<lparr>hs_conn := Abort ErrClosed c, hs_waiting := 1\<rparr>"
  define s2 where "s2 = dispatch_enter (s1\<lparr>hs_waiting := 0\<rparr>)"
  define s3 where "s3 = s2\<lparr>hs_running := Some [], hs_called := [OnClose ErrClosed]\<rparr>"
  have "quic_reach demo_env s0" unfolding s0_def using dialed [OF d(1,2)] by (rule quic_reach.start)
  moreover have "quic_step demo_env s0 s1"
    using operation [of demo_env s0 "Abort ErrClosed c"] by (simp add: s0_def s1_def op_abort)
  moreover have "quic_step demo_env s1 s2" unfolding s2_def by (rule enter) (simp add: s1_def)
  moreover have r2: "hs_running s2 = Some [OnClose ErrClosed]" "hs_called s2 = []" "hs_waiting s2 = 0"
    using d(2,3) by (simp_all add: s2_def s1_def s0_def dispatch_enter_def dispatch_head_def Abort_def terminateLocked_def)
  moreover have "quic_step demo_env s2 s3" using call [of s2 "OnClose ErrClosed" "[]" demo_env] r2 by (simp add: s3_def)
  moreover have "quic_step demo_env s3 (dispatch_head s3)" by (rule again) (simp add: s3_def)
  ultimately have r: "quic_reach demo_env (dispatch_head s3)" by (meson quic_reach.step)
  have e: "dispatch_head s3 = s3\<lparr>hs_running := None\<rparr>"
    using d(2,3) by (simp add: s3_def s2_def s1_def s0_def dispatch_enter_def dispatch_head_def Abort_def terminateLocked_def)
  have "c_closed (hs_conn (dispatch_head s3))"
    using on_close_last_and_once [OF r] r2(3) unfolding e by (simp add: s3_def)
  then show ?thesis using r r2 unfolding e by (intro exI [of _ "s3\<lparr>hs_running := None\<rparr>"] exI [of _ ErrClosed]) (simp add: s3_def)
qed

text \<open>
  C7. Congestion control counts exactly what is out: whatever mix of operations, acknowledgements, losses,
  retries, discarded packet number spaces and closing led to a state, the bytes in flight the controller
  works with are the sizes of the packets in flight that are still recorded as sent, in all three spaces.
\<close>

theorem bytes_in_flight_exact:
  assumes "quic_reach env s"
  shows "bytesInFlight (c_cc (hs_conn s)) =
    (\<Sum>sp \<leftarrow> all_spaces. \<Sum>p \<leftarrow> filter p_inFlight (n_sent (c_spaces (hs_conn s) sp)). of_nat (p_size p))"
  using quic_reach_inv [OF assms] by (simp add: handler_inv_def balance_def in_flight_all_def in_flight_def)

theorem bytes_in_flight_exact_witness:
  "\<exists>s. quic_reach demo_env s \<and> bytesInFlight (c_cc (hs_conn s)) =
    (\<Sum>sp \<leftarrow> all_spaces. \<Sum>p \<leftarrow> filter p_inFlight (n_sent (c_spaces (hs_conn s) sp)). of_nat (p_size p))"
proof -
  obtain c where d: "Dial demo_env demo_qconfig [1] [2] silent_tls 1 1 = Some (Inr c)" "c_events c = []"
    using demo_dial by blast
  have "quic_reach demo_env \<lparr>hs_conn = c, hs_running = None, hs_waiting = 0, hs_called = []\<rparr>"
    using dialed [OF d] by (rule quic_reach.start)
  from this bytes_in_flight_exact [OF this] show ?thesis by blast
qed

text \<open>
  C34. At most 16 packets wait for their keys, however many arrive before the handshake has produced them.
\<close>

theorem buffered_packets_bounded:
  assumes "quic_reach env s"
  shows "length (c_buffered (hs_conn s)) \<le> maxBufferedPackets \<and> maxBufferedPackets = 16"
  using quic_reach_buffered [OF assms] by (simp add: maxBufferedPackets_def)

theorem buffered_packets_bounded_witness:
  "\<exists>s. quic_reach demo_env s \<and> length (c_buffered (hs_conn s)) \<le> maxBufferedPackets"
proof -
  obtain c where d: "Dial demo_env demo_qconfig [1] [2] silent_tls 1 1 = Some (Inr c)" "c_events c = []"
    using demo_dial by blast
  have "quic_reach demo_env \<lparr>hs_conn = c, hs_running = None, hs_waiting = 0, hs_called = []\<rparr>"
    using dialed [OF d] by (rule quic_reach.start)
  from this buffered_packets_bounded [OF this] show ?thesis by blast
qed

end
