(* ===== verification/Quic_Wire.thy ===== *)
theory Quic_Wire
  imports Quic_Api
begin

text \<open>
  The two ends of a connection against each other: what one side writes into ACK and STREAM frames
  is what the other side takes out of them.
\<close>

section \<open>Acknowledgements\<close>

text \<open>The further ranges of an ACK frame as one string, \<open>prev\<close> the smallest number acknowledged so far.\<close>

primrec ack_tail :: "u64 \<Rightarrow> pnRange list \<Rightarrow> bytes" where
  "ack_tail prev [] = []"
| "ack_tail prev (a # rs) = AppendVarint [] (prev - hi a - 2) @ AppendVarint [] (hi a - lo a) @ ack_tail (lo a) rs"

lemma append_two_varints: "AppendVarint (AppendVarint b v) w = b @ AppendVarint [] v @ AppendVarint [] w"
  by (metis AppendVarint_append append.assoc)

lemma appendAck_tail:
  "fst (foldl (\<lambda>(b, prev) a. (AppendVarint (AppendVarint b (prev - hi a - 2)) (hi a - lo a), lo a)) (b, prev) rs) =
    b @ ack_tail prev rs"
  by (induction rs arbitrary: b prev) (simp_all add: append_two_varints)

text \<open>Ranges from the largest down, each below what came before and not touching it.\<close>

primrec descending :: "u64 \<Rightarrow> pnRange list \<Rightarrow> bool" where
  "descending prev [] \<longleftrightarrow> True"
| "descending prev (a # rs) \<longleftrightarrow> lo a \<le> hi a \<and> hi a + 1 < prev \<and> hi a < pn_limit \<and> descending (lo a) rs"

lemma sub_less_limit: "x \<le> y \<Longrightarrow> y < 2 ^ 62 \<Longrightarrow> y - x < 2 ^ 62" for x y :: u64
  using word_sub_le [of x y] by simp

lemma ack_ranges_tail:
  assumes "descending prev rs" "prev < pn_limit"
  shows "ack_ranges (length rs) prev \<lparr>rb = ack_tail prev rs @ rest, bad = False\<rparr> = Some (rs, \<lparr>rb = rest, bad = False\<rparr>)"
  using assms
proof (induction rs arbitrary: prev)
  case (Cons a rs)
  let ?gap = "prev - hi a - 2" and ?len = "hi a - lo a"
  have lt: "hi a + 1 < prev" "lo a \<le> hi a" "hi a < 2 ^ 62" "prev < 2 ^ 62" using Cons.prems by (simp_all add: pn_limit_def)
  have step: "hi a + 2 \<le> prev" "hi a \<le> prev"
    using lt by (simp_all add: word_le_nat_alt word_less_nat_alt unat_word_ariths)
  have g: "?gap = prev - (hi a + 2)" by simp
  have small: "?gap < 2 ^ 62" "?len < 2 ^ 62"
    using sub_less_limit [OF step(1) lt(4)] sub_less_limit [OF lt(2,3)] unfolding g by simp_all
  have ok: "\<not> prev < ?gap + 2" "prev - ?gap - 2 = hi a" "\<not> hi a < ?len"
    using word_sub_le [OF step(2)] word_sub_le [OF lt(2)] by (simp_all add: not_less)
  have IH: "ack_ranges (length rs) (lo a) \<lparr>rb = ack_tail (lo a) rs @ rest, bad = False\<rparr> = Some (rs, \<lparr>rb = rest, bad = False\<rparr>)"
    using Cons.prems lt by (intro Cons.IH) (auto simp: pn_limit_def)
  show ?case
    using ok IH small by (simp add: Let_def reader_varint_AppendVarint)
qed simp

lemma rs_ok_descending: "rs_ok (xs @ [b]) \<Longrightarrow> descending (lo b) (rev xs)"
proof (induction xs arbitrary: b rule: rev_induct)
  case (snoc a xs)
  then have "rs_ok (xs @ [a])" "hi a + 1 < lo b" "lo a \<le> hi a" "hi a < pn_limit"
    by (auto simp: rs_ok_append rs_ok_Cons)
  with snoc.IH show ?case by simp
qed simp

lemma read_appendAck:
  fixes c :: qconn
  defines "r \<equiv> \<lambda>sp. n_recv (c_spaces c sp)"
  assumes ok: "rs_ok (r sp)" "r sp \<noteq> []" "length (r sp) \<le> maxAckRanges" and ex: "2 \<le> unat (tp_ackDelayExponent (c_local c))"
  shows "\<exists>body delay. appendAck [] sp now c = frameAck # body \<and>
    read_ack False \<lparr>rb = body @ rest, bad = False\<rparr> = Some (rev (r sp), delay, \<lparr>rb = rest, bad = False\<rparr>)"
proof -
  obtain xs b where r: "r sp = xs @ [b]" using ok(2) by (metis append_butlast_last_id)
  define delay where "delay = (if sp = spaceApp
                   then drop_bit (unat (tp_ackDelayExponent (c_local c)))
                          (word_of_int (go_quot (time_Sub now (n_largestRecvTime (c_spaces c sp))) 1000))
                   else 0 :: u64)"
  have len: "length xs < 2 ^ 16" using ok(3) r by (simp add: maxAckRanges_def)
  have b: "lo b \<le> hi b" "hi b < 2 ^ 62" "lo b < 2 ^ 62" using ok(1) r by (auto simp: rs_ok_append rs_ok_Cons pn_limit_def)
  have d: "delay < 2 ^ 62"
  proof -
    have "unat (drop_bit e w) < 2 ^ 62" if "2 \<le> e" for e and w :: u64
    proof -
      have "unat (drop_bit e w) = unat w div 2 ^ e" unfolding unat_drop_bit_eq by (rule drop_bit_eq_div)
      also have "\<dots> \<le> unat w div 2 ^ 2" by (rule div_le_mono2, simp, rule power_increasing [OF that]) simp
      also have "\<dots> < 2 ^ 62" using unsigned_less [of w] by (simp add: less_mult_imp_div_less)
      finally show ?thesis .
    qed
    then show ?thesis using ex by (simp add: delay_def word_less_nat_alt)
  qed
  have small: "hi b - lo b < 2 ^ 62" "(of_nat (length xs) :: u64) < 2 ^ 62" "unat (of_nat (length xs) :: u64) = length xs"
    "\<not> (of_nat (length xs) :: u64) > 65536"
    using sub_less_limit [OF b(1,2)] len by (simp_all add: word_less_nat_alt unat_of_nat)
  let ?body = "AppendVarint [] (hi b) @ AppendVarint [] delay @ AppendVarint [] (of_nat (length xs)) @
    AppendVarint [] (hi b - lo b) @ ack_tail (lo b) (rev xs)"
  have "appendAck [] sp now c =
    AppendVarint (AppendVarint (AppendVarint (AppendVarint [frameAck] (hi b)) delay) (of_nat (length xs))) (hi b - lo b) @
    ack_tail (lo b) (rev xs)"
    using r by (simp add: appendAck_def Let_def r_def appendAck_tail delay_def)
  then have a: "appendAck [] sp now c = frameAck # ?body" unfolding append_two_varints by simp
  have "ack_ranges (length (rev xs)) (lo b) \<lparr>rb = ack_tail (lo b) (rev xs) @ rest, bad = False\<rparr>
    = Some (rev xs, \<lparr>rb = rest, bad = False\<rparr>)"
    by (rule ack_ranges_tail) (use rs_ok_descending ok(1) r b(3) in \<open>simp_all add: pn_limit_def\<close>)
  moreover have "\<not> hi b - lo b > hi b" using word_sub_le [OF b(1)] by (simp add: not_less)
  ultimately have "read_ack False \<lparr>rb = ?body @ rest, bad = False\<rparr> = Some (rev (r sp), delay, \<lparr>rb = rest, bad = False\<rparr>)"
    using b d small r by (simp add: read_ack_def Let_def reader_varint_AppendVarint)
  with a show ?thesis by blast
qed

text \<open>
  The one pass over the packets sent and the ranges acknowledged picks out the packets whose number is
  in one of the ranges, both lists being in ascending order.
\<close>

lemma dropWhile_below:
  assumes "rs_ok rs" "p \<le> q"
  shows "q \<in> rs_mem (dropWhile (\<lambda>r. hi r < p) rs) \<longleftrightarrow> q \<in> rs_mem rs" "rs_ok (dropWhile (\<lambda>r. hi r < p) rs)"
proof -
  show "rs_ok (dropWhile (\<lambda>r. hi r < p) rs)"
    using assms(1) rs_ok_append [of "takeWhile (\<lambda>r. hi r < p) rs" "dropWhile (\<lambda>r. hi r < p) rs"] by simp
  have "q \<notin> rs_mem (takeWhile (\<lambda>r. hi r < p) rs)"
    using assms(2) by (auto simp: rs_mem_def dest!: set_takeWhileD)
  then show "q \<in> rs_mem (dropWhile (\<lambda>r. hi r < p) rs) \<longleftrightarrow> q \<in> rs_mem rs"
    using rs_mem_simps(3) [of "takeWhile (\<lambda>r. hi r < p) rs" "dropWhile (\<lambda>r. hi r < p) rs"] by simp
qed

lemma front_range:
  assumes "rs_ok rs" and rs: "rs = dropWhile (\<lambda>r. hi r < p) rs'"
  shows "p \<in> rs_mem rs \<longleftrightarrow> rs \<noteq> [] \<and> lo (hd rs) \<le> p"
proof (cases rs)
  case (Cons a as)
  then have h: "\<not> hi a < p" using hd_dropWhile [of "\<lambda>r. hi r < p" rs'] rs by simp
  have "p \<notin> rs_mem as"
  proof
    assume "p \<in> rs_mem as"
    then obtain b where "b \<in> set as" "lo b \<le> p" by (auto simp: rs_mem_def)
    moreover have "hi a + 1 < lo b" "hi a < pn_limit" using assms(1) Cons \<open>b \<in> set as\<close> by (auto simp: rs_ok_Cons)
    ultimately have "hi a < p" by (auto simp: word_less_nat_alt word_le_nat_alt unat_word_ariths pn_limit_def)
    with h show False by simp
  qed
  with h show ?thesis by (simp add: Cons not_less)
qed simp

lemma ack_scan_filter:
  assumes "rs_ok rs" "sorted (map p_pn ps)"
  shows "ack_scan rs ps = (filter (\<lambda>p. p_pn p \<in> rs_mem rs) ps, filter (\<lambda>p. p_pn p \<notin> rs_mem rs) ps)"
  using assms
proof (induction rs ps rule: ack_scan.induct)
  case (2 rs p ps)
  let ?rs = "dropWhile (\<lambda>r. hi r < p_pn p) rs"
  note D = dropWhile_below [OF "2.prems"(1)]
  have IH: "ack_scan ?rs ps = (filter (\<lambda>q. p_pn q \<in> rs_mem ?rs) ps, filter (\<lambda>q. p_pn q \<notin> rs_mem ?rs) ps)"
    using "2.IH" [OF refl] "2.prems" D(2) [OF order.refl] by simp
  have "\<forall>q \<in> set ps. p_pn q \<in> rs_mem ?rs \<longleftrightarrow> p_pn q \<in> rs_mem rs" using D(1) "2.prems"(2) by simp
  then have "ack_scan ?rs ps = (filter (\<lambda>q. p_pn q \<in> rs_mem rs) ps, filter (\<lambda>q. p_pn q \<notin> rs_mem rs) ps)"
    unfolding IH by (auto cong: filter_cong)
  moreover have "?rs \<noteq> [] \<and> lo (hd ?rs) \<le> p_pn p \<longleftrightarrow> p_pn p \<in> rs_mem rs"
    using front_range [OF D(2) [OF order.refl] refl, of "p_pn p"] D(1) [OF order.refl] by simp
  ultimately show ?case by (simp add: Let_def)
qed simp

text \<open>
  C13. Acknowledgements mean the same on both sides: the ACK frame a receiver builds from the packet
  numbers it has recorded parses at the peer, leaving what follows it untouched, and the ranges it
  yields make the peer take as acknowledged exactly those of its packets whose numbers the receiver has
  recorded, keeping all others.
\<close>

theorem acknowledgement_reaches_sender:
  assumes "rs_ok (n_recv (c_spaces c sp))" "n_recv (c_spaces c sp) \<noteq> []" "length (n_recv (c_spaces c sp)) \<le> maxAckRanges"
    and "2 \<le> unat (tp_ackDelayExponent (c_local c))" and "sorted (map p_pn ps)"
  shows "\<exists>body delay ranges. appendAck [] sp now c = frameAck # body \<and>
    read_ack False \<lparr>rb = body @ rest, bad = False\<rparr> = Some (ranges, delay, \<lparr>rb = rest, bad = False\<rparr>) \<and>
    ack_scan (rev ranges) ps =
      (filter (\<lambda>p. p_pn p \<in> rs_mem (n_recv (c_spaces c sp))) ps, filter (\<lambda>p. p_pn p \<notin> rs_mem (n_recv (c_spaces c sp))) ps)"
  using read_appendAck [OF assms(1-4), of now rest] ack_scan_filter [OF assms(1,5)] by fastforce

theorem acknowledgement_reaches_sender_witness:
  "\<exists>c body delay ranges. appendAck [] spaceApp 1 c = frameAck # body \<and>
    read_ack False \<lparr>rb = body @ [9], bad = False\<rparr> = Some (ranges, delay, \<lparr>rb = [9], bad = False\<rparr>) \<and>
    ack_scan (rev ranges) [newSentPacket 2, newSentPacket 3, newSentPacket 5] =
      ([newSentPacket 2, newSentPacket 5], [newSentPacket 3])"
proof -
  let ?r = "[\<lparr>lo = 1, hi = 2\<rparr>, \<lparr>lo = 5, hi = 5\<rparr>]"
  let ?c = "upd_space spaceApp (\<lambda>s. s\<lparr>n_recv := ?r\<rparr>) (newConn demo_qconfig True [1] silent_tls 1)"
  have r: "n_recv (c_spaces ?c spaceApp) = ?r" by (simp add: upd_space_def)
  have m: "x \<in> rs_mem ?r \<longleftrightarrow> 1 \<le> x \<and> x \<le> 2 \<or> x = 5" for x by (auto simp: rs_mem_def)
  have h: "rs_ok ?r" "?r \<noteq> []" "length ?r \<le> maxAckRanges" "2 \<le> unat (tp_ackDelayExponent (c_local ?c))"
    "sorted (map p_pn [newSentPacket 2, newSentPacket 3, newSentPacket 5])"
    by (simp_all add: rs_ok_Cons rs_ok_def [of "[]"] pn_limit_def maxAckRanges_def newConn_def Let_def upd_space_def defaultParams_def newSentPacket_def)
  show ?thesis
    using acknowledgement_reaches_sender [of ?c spaceApp "[newSentPacket 2, newSentPacket 3, newSentPacket 5]" 1 "[9]", unfolded r, OF h]
    unfolding m by (intro exI [of _ ?c]) (simp add: newSentPacket_def)
qed

section \<open>Stream data\<close>

lemma reader_varint_byte: "x < 0x40 \<Longrightarrow> reader_varint \<lparr>rb = x # rest, bad = False\<rparr> = (ucast x, \<lparr>rb = rest, bad = False\<rparr>)"
proof -
  assume x: "x < 0x40"
  then have u: "(ucast x :: u64) < 2 ^ 6" by (simp add: word_less_nat_alt unsigned_ucast_eq take_bit_nat_eq_self)
  have "ucast (ucast x :: u64) = x" by (rule bit_word_eqI) (auto simp: bit_simps)
  then have "AppendVarint [] (ucast x) = [x]" using u by (simp add: AppendVarint_def)
  then show ?thesis
    using reader_varint_AppendVarint [of "ucast x" "\<lparr>rb = x # rest, bad = False\<rparr>" rest] less_trans [OF u, of "2 ^ 62"] by simp
qed

lemmas frame_consts = framePadding_def framePing_def frameAck_def frameAckECN_def frameResetStream_def
  frameStopSending_def frameCrypto_def frameNewToken_def frameStream_def

lemma if_skip: "\<not> b \<Longrightarrow> y = z \<Longrightarrow> (if b then x else y) = z" and if_take: "b \<Longrightarrow> (if b then x else y) = x"
  by simp_all

lemma handle_frame_stream:
  "ty \<in> {0x0a, 0x0b, 0x0e, 0x0f} \<Longrightarrow> handle_frame env sp now ty r c = handle_stream ty r c"
  unfolding handle_frame_def frame_consts
  by (rule if_skip, force, rule if_skip, force, rule if_skip, force, rule if_skip, force, rule if_skip, force,
      rule if_skip, force, rule if_skip, force, rule if_take) auto

lemma stream_payload:
  fixes data :: bytes
  assumes "length data < 2 ^ 62"
  shows "(case reader_varint \<lparr>rb = AppendVarint [] (of_nat (length data)) @ data @ rest, bad = False\<rparr> of
      (n, r) \<Rightarrow> reader_bytes n r) = (data, \<lparr>rb = rest, bad = False\<rparr>)"
proof -
  have n: "unat (of_nat (length data) :: u64) = length data" using assms by (simp add: unat_of_nat)
  then have "(of_nat (length data) :: u64) < 2 ^ 62" using assms by (simp add: word_less_nat_alt)
  then show ?thesis by (simp add: reader_varint_AppendVarint reader_bytes_append n)
qed

text \<open>
  C35. Stream data survives the wire: a STREAM frame that one side appends to a payload, for any stream,
  offset and data in range, with or without the end of the stream, is parsed by the other side into a
  call with the same stream, offset, data and end, and the reader stands behind the frame.
\<close>

theorem stream_frame_roundtrip:
  assumes "appendStreamFrame sid off data (b, p, c) = (b', p', c')" "sid < 2 ^ 62" "off < 2 ^ 62" "length data < 2 ^ 62"
  shows "\<exists>fr ty r. b' = b @ fr \<and> reader_varint \<lparr>rb = fr @ rest, bad = False\<rparr> = (ty, r) \<and>
    handle_frame env spaceApp now ty r d =
      (case with_stream sid True (\<lambda>s. onStreamFrame s off data (f_fin (last (p_frames p')))) d of
         (err, d') \<Rightarrow> (err, \<lparr>rb = rest, bad = False\<rparr>, d'))"
proof -
  define fin where "fin = (s_finQueued (c_store c sid) \<and> \<not> s_finSent (c_store c sid) \<and>
    off + of_nat (length data) = s_finalSize (c_store c sid))"
  define ty :: byte where "ty = (frameStream OR 0x02) OR (if off > 0 then 0x04 else 0) OR (if fin then 0x01 else 0)"
  let ?offs = "if off > 0 then AppendVarint [] off else []" and ?n = "of_nat (length data) :: u64"
  let ?body = "AppendVarint [] sid @ ?offs @ AppendVarint [] ?n @ data"
  have raw: "appendStreamFrame sid off data (b, p, c) =
    (AppendVarint (if off > 0 then AppendVarint (AppendVarint (b @ [ty]) sid) off else AppendVarint (b @ [ty]) sid) ?n @ data,
     sp_add \<lparr>f_kind = sfStream, f_fin = fin, f_stream = sid, f_off = off, f_n = ?n\<rparr> p,
     if fin then upd_stream sid (\<lambda>s. s\<lparr>s_finSent := True\<rparr>) c else c)"
    unfolding appendStreamFrame_def Let_def prod.case fin_def ty_def ..
  have "AppendVarint (if off > 0 then AppendVarint (AppendVarint (b @ [ty]) sid) off else AppendVarint (b @ [ty]) sid) ?n
    = b @ ty # AppendVarint [] sid @ ?offs @ AppendVarint [] ?n"
    by (simp add: append_two_varints AppendVarint_append [of "b @ ty # _"])
  then have b: "b' = b @ ty # ?body" "f_fin (last (p_frames p')) = fin"
    using assms(1) unfolding raw by (auto simp: sp_add_def)
  have t: "ty < 0x40" "(ucast ty :: u64) \<in> {0x0a, 0x0b, 0x0e, 0x0f}"
    "(ucast ty AND 0x04 \<noteq> (0 :: u64)) = (off > 0)" "ucast ty AND 0x02 \<noteq> (0 :: u64)" "(ucast ty AND 0x01 \<noteq> (0 :: u64)) = fin"
    by (simp_all add: ty_def frameStream_def)
  have o: "(if off > 0 then reader_varint \<lparr>rb = ?offs @ xs, bad = False\<rparr> else (0, \<lparr>rb = ?offs @ xs, bad = False\<rparr>))
    = (off, \<lparr>rb = xs, bad = False\<rparr>)" for xs
    using assms(3) word_gt_0 [of off] by (auto simp: reader_varint_AppendVarint)
  have s: "reader_varint \<lparr>rb = AppendVarint [] sid @ xs, bad = False\<rparr> = (sid, \<lparr>rb = xs, bad = False\<rparr>)" for xs
    using assms(2) by (simp add: reader_varint_AppendVarint)
  have "handle_stream (ucast ty) \<lparr>rb = ?body @ rest, bad = False\<rparr> d =
      (case with_stream sid True (\<lambda>s. onStreamFrame s off data fin) d of (err, d') \<Rightarrow> (err, \<lparr>rb = rest, bad = False\<rparr>, d'))"
    unfolding handle_stream_def Let_def t append.assoc s prod.case o using stream_payload [OF assms(4), of rest] t(4) by simp
  then show ?thesis
    unfolding b(1) b(2) using reader_varint_byte [OF t(1), of "?body @ rest"] handle_frame_stream [OF t(2)]
    by (intro exI [of _ "ty # ?body"] exI [of _ "ucast ty"] exI [of _ "\<lparr>rb = ?body @ rest, bad = False\<rparr>"]) simp
qed

theorem stream_frame_roundtrip_witness:
  "\<exists>b' p' c' fr ty r. appendStreamFrame 4 100 [1, 2, 3] ([], newSentPacket 0, newConn demo_qconfig True [1] silent_tls 1) = (b', p', c') \<and>
    b' = fr \<and> reader_varint \<lparr>rb = fr @ [9], bad = False\<rparr> = (ty, r) \<and>
    handle_frame demo_env spaceApp 1 ty r c' =
      (case with_stream 4 True (\<lambda>s. onStreamFrame s 100 [1, 2, 3] (f_fin (last (p_frames p')))) c' of
         (err, d') \<Rightarrow> (err, \<lparr>rb = [9], bad = False\<rparr>, d'))"
proof -
  obtain b' p' c' where f: "appendStreamFrame 4 100 [1, 2, 3] ([], newSentPacket 0, newConn demo_qconfig True [1] silent_tls 1) = (b', p', c')"
    by (metis prod.collapse)
  show ?thesis using stream_frame_roundtrip [OF f, where rest = "[9]" and env = demo_env and now = 1 and d = c'] f by simp
qed

end
