(* ===== verification/Quic_Size.thy ===== *)
theory Quic_Size
  imports Quic_Send
begin

text \<open>
  How large what is built gets: payloads, packets and datagrams against the room they are given.
\<close>

section \<open>Send buffers within range\<close>

text \<open>
  Offsets are far from wrapping around, and lost ranges are ranges. Stream offsets are below \<open>2\<^sup>62\<close> by the
  protocol, handshake data is bounded by what TLS writes.
\<close>

definition sb_wf :: "qsendBuffer \<Rightarrow> bool" where
  "sb_wf b \<longleftrightarrow> sb_end b < 2 ^ 63 \<and> nextoff b < 2 ^ 63 \<and> (\<forall>s \<in> set (lost b). sp_off s \<le> sp_end s \<and> sp_end s < 2 ^ 63)"

lemma unat_diff_le: "unat y - unat z \<le> unat (y - z)" for y z :: u64
  by (cases "z \<le> y") (simp_all add: unat_sub word_le_nat_alt)

lemma slice_length:
  assumes "a \<le> e" "unat e \<le> unat a + k"
  shows "length (sb_slice a e b) \<le> k"
proof -
  have "unat (e - base b) - unat (a - base b) \<le> unat (e - a)"
    using unat_diff_le [of "e - base b" "a - base b"] by simp
  also have "\<dots> \<le> k" using assms by (simp add: unat_sub)
  finally show ?thesis by (simp add: sb_slice_def subslice_def)
qed

lemma add_small:
  fixes a n :: u64
  assumes "a < 2 ^ 63" "n < 2 ^ 63"
  shows "unat (a + n) = unat a + unat n" "a \<le> a + n"
proof -
  show u: "unat (a + n) = unat a + unat n" using assms by (intro unat_plus) (simp add: word_less_nat_alt)
  then show "a \<le> a + n" by (simp add: word_le_nat_alt)
qed

lemma hasLost_wf: "sb_wf b \<Longrightarrow> sb_wf (snd (hasLost b))"
  by (auto simp: sb_wf_def hasLost_def Let_def sb_end_def dest: set_dropWhileD)

lemma popNew_wf:
  assumes wf: "sb_wf b" and p: "popNew n b = ((off, d), b')" and n: "n < 2 ^ 63" and lt: "nextoff b < sb_end b"
  shows "sb_wf b'" "length d \<le> unat n" "off = nextoff b"
proof -
  let ?e = "min (sb_end b) (nextoff b + n)"
  have e: "off = nextoff b" "d = sb_slice (nextoff b) ?e b" "b' = b\<lparr>nextoff := ?e\<rparr>"
    using p by (auto simp: popNew_def Let_def)
  have a: "unat (nextoff b + n) = unat (nextoff b) + unat n" "nextoff b \<le> nextoff b + n"
    using wf n by (auto simp: sb_wf_def intro: add_small)
  show "off = nextoff b" by (rule e(1))
  have "?e < 2 ^ 63" using wf by (auto simp: sb_wf_def min_def)
  then show "sb_wf b'" using wf by (simp add: e(3) sb_wf_def sb_end_def)
  have "nextoff b \<le> ?e" using lt a(2) by simp
  moreover have "unat ?e \<le> unat (nextoff b) + unat n" unfolding a(1) [symmetric] by (simp add: min_def word_le_nat_alt)
  ultimately show "length d \<le> unat n" unfolding e(2) by (rule slice_length)
qed

lemma popLost_wf:
  assumes wf: "sb_wf b" and p: "popLost n b = ((off, d), b')" and n: "n < 2 ^ 63" "n \<noteq> 0"
    and l: "lost b \<noteq> []" "base b < sp_end (hd (lost b))"
  shows "sb_wf b'" "length d \<le> unat n" "off = max (sp_off (hd (lost b))) (base b)"
proof -
  obtain s rest where s: "lost b = s # rest" using l(1) by (cases "lost b") auto
  have h: "hasLost b = (True, b)" using l s by (auto simp: hasLost_def Let_def)
  let ?off = "max (sp_off s) (base b)" let ?e = "min (sp_end s) (max (sp_off s) (base b) + n)"
  have sw: "sp_off s \<le> sp_end s" "sp_end s < 2 ^ 63" using wf s by (simp_all add: sb_wf_def)
  have le: "?off \<le> sp_end s" using sw l s by simp
  then have lt: "?off < 2 ^ 63" using sw(2) by (rule le_less_trans)
  note a = add_small [OF lt n(1)]
  have b': "off = ?off" "d = sb_slice ?off ?e b"
    "b' = b\<lparr>lost := (if sp_end s \<le> ?e then rest else s\<lparr>sp_off := ?e\<rparr> # rest)\<rparr>"
    using p n(2) by (auto simp: popLost_def h s Let_def)
  show "off = max (sp_off (hd (lost b))) (base b)" using b'(1) s by simp
  show "sb_wf b'" using wf sw(2) by (auto simp: b'(3) sb_wf_def sb_end_def s)
  have "?off \<le> ?e" using le a(2) by simp
  moreover have "unat ?e \<le> unat ?off + unat n" unfolding a(1) [symmetric] by (simp add: min_def word_le_nat_alt)
  ultimately show "length d \<le> unat n" unfolding b'(2) by (rule slice_length)
qed

section \<open>Frames of a stream\<close>

text \<open>
  \<open>slack k\<close> is what a buffer must satisfy for its frames to exceed the room by at most \<open>k\<close> bytes: with
  less than 7 bytes to spare no lost range may begin below the base, since the room for a frame of lost
  data is worked out with the offset at which the range begins and not with the one sent.
\<close>

definition slack :: "nat \<Rightarrow> qsendBuffer \<Rightarrow> bool" where
  "slack k b \<longleftrightarrow> sb_wf b \<and> (k < 7 \<longrightarrow> (\<forall>s \<in> set (lost b). base b \<le> sp_off s))"

definition streams_slack :: "nat \<Rightarrow> qconn \<Rightarrow> bool" where
  "streams_slack k c \<longleftrightarrow> (\<forall>sid. slack k (s_send (c_store c sid)))"

lemma VarintLen_bounds: "1 \<le> VarintLen v" "VarintLen v \<le> 8"
  using VarintLen_cases [of v] by auto

lemma VarintLen_length: "n < 2 ^ 14 \<Longrightarrow> VarintLen (of_nat n) \<le> 2"
proof -
  assume n: "n < 2 ^ 14"
  then have "(of_nat n :: u64) < 2 ^ 14" by (simp add: word_less_nat_alt unat_of_nat64)
  then show ?thesis by (simp add: VarintLen_def)
qed

lemma length_appendStreamFrame:
  "length (fst (appendStreamFrame sid off data (b, p, c))) =
    length b + 1 + VarintLen sid + (if off > 0 then VarintLen off else 0) + VarintLen (of_nat (length data)) + length data"
  by (simp add: appendStreamFrame_def Let_def)

lemma slack_upd: "streams_slack k c \<Longrightarrow> slack k sb \<Longrightarrow> streams_slack k (upd_stream sid (\<lambda>s. s\<lparr>s_send := sb\<rparr>) c)"
  by (simp add: streams_slack_def upd_stream_def)

lemma slack_appendStreamFrame:
  "streams_slack k c \<Longrightarrow> streams_slack k (snd (snd (appendStreamFrame sid off data (b, p, c))))"
  by (simp add: appendStreamFrame_def Let_def streams_slack_def upd_stream_def)

lemma slack_hasLost: "slack k b \<Longrightarrow> slack k (snd (hasLost b))"
  using hasLost_wf [of b] by (auto simp: slack_def hasLost_def Let_def dest: set_dropWhileD)

lemma slack_popNew:
  assumes "slack k b" "popNew n b = ((off, d), b')" "n < 2 ^ 63" "nextoff b < sb_end b"
  shows "slack k b'"
proof -
  have "lost b' = lost b" "base b' = base b" using assms(2) by (auto simp: popNew_def Let_def)
  then show ?thesis using popNew_wf(1) [OF _ assms(2-4)] assms(1) by (simp add: slack_def)
qed

lemma slack_popLost:
  assumes "slack k b" "popLost n b = ((off, d), b')" "n < 2 ^ 63" "n \<noteq> 0" "lost b \<noteq> []" "base b < sp_end (hd (lost b))"
  shows "slack k b'"
proof -
  obtain s rest where s: "lost b = s # rest" using assms(5) by (cases "lost b") auto
  have h: "hasLost b = (True, b)" using assms(6) s by (auto simp: hasLost_def Let_def)
  let ?off = "max (sp_off s) (base b)" let ?e = "min (sp_end s) (max (sp_off s) (base b) + n)"
  have b': "b' = b\<lparr>lost := (if sp_end s \<le> ?e then rest else s\<lparr>sp_off := ?e\<rparr> # rest)\<rparr>"
    using assms(2,4) by (auto simp: popLost_def h s Let_def)
  have sw: "sp_off s \<le> sp_end s" "sp_end s < 2 ^ 63" using assms(1) s by (simp_all add: slack_def sb_wf_def)
  have "?off \<le> sp_end s" using sw assms(6) s by simp
  then have "?off < 2 ^ 63" using sw(2) by (rule le_less_trans)
  then have "?off \<le> ?off + n" by (rule add_small(2) [OF _ assms(3)])
  then have "base b \<le> ?e" using assms(6) s by simp
  then show ?thesis
    using popLost_wf(1) [OF _ assms(2-6)] assms(1) by (auto simp: slack_def b' s)
qed

lemma avail_word:
  assumes "0 < a" "a \<le> 1200"
  shows "(word_of_int a :: u64) < 2 ^ 63" "word_of_int a \<noteq> (0 :: u64)" "unat (word_of_int a :: u64) = nat a"
proof -
  have "uint (word_of_int a :: u64) = a" using assms by (simp add: uint_word_of_int)
  then have u: "unat (word_of_int a :: u64) = nat a" by (metis nat_uint_eq)
  then show "unat (word_of_int a :: u64) = nat a" .
  show "(word_of_int a :: u64) < 2 ^ 63" using u assms by (simp add: word_less_nat_alt)
  show "word_of_int a \<noteq> (0 :: u64)" using u assms by auto
qed

lemma lost_step_size:
  assumes l: "lost_step mx sid st st'" and mx: "mx \<le> 1200" and sl: "streams_slack k (snd (snd st))"
  shows "streams_slack k (snd (snd st'))" "int (length (fst st')) \<le> mx + int k"
proof -
  obtain b p c where st: "st = (b, p, c)" by (metis prod.collapse)
  let ?sb = "s_send (c_store c sid)" let ?o = "sp_off (hd (lost ?sb))" let ?av = "stream_avail mx b sid ?o"
  obtain off d sb' where pl: "popLost (word_of_int ?av) ?sb = ((off, d), sb')" by (metis prod.collapse)
  have pre: "lost ?sb \<noteq> []" "base ?sb < sp_end (hd (lost ?sb))" "0 < ?av"
    "st' = appendStreamFrame sid off d (b, p, upd_stream sid (\<lambda>s. s\<lparr>s_send := sb'\<rparr>) c)"
    using l by (auto simp: st lost_step_def Let_def pl)
  have av: "?av \<le> 1200" using mx by (simp add: stream_avail_def)
  note w = avail_word [OF pre(3) av]
  have s0: "slack k ?sb" using sl by (simp add: st streams_slack_def)
  then have wf: "sb_wf ?sb" by (simp add: slack_def)
  note P = popLost_wf [OF wf pl w(1,2) pre(1,2)]
  show "streams_slack k (snd (snd st'))"
    unfolding pre(4) using slack_popLost [OF s0 pl w(1,2) pre(1,2)] sl
    by (intro slack_appendStreamFrame slack_upd) (simp_all add: st)
  have len: "length d \<le> nat ?av" using P(2) w(3) by simp
  have off: "VarintLen off \<le> VarintLen ?o + k"
  proof (cases "k < 7")
    case True
    then have "base ?sb \<le> ?o" using s0 pre(1) by (cases "lost ?sb") (auto simp: slack_def)
    then have "off = ?o" using P(3) by simp
    then show ?thesis by simp
  qed (use VarintLen_bounds [of off] VarintLen_bounds [of ?o] in linarith)
  have "length d < 2 ^ 14" using len av by simp
  then have "VarintLen (of_nat (length d)) \<le> 2" by (rule VarintLen_length)
  then show "int (length (fst st')) \<le> mx + int k"
    unfolding pre(4) length_appendStreamFrame using len off pre(3) by (auto simp: stream_avail_def split: if_splits)
qed

lemma new_step_size:
  assumes n: "new_step mx sid st st'" and mx: "mx \<le> 1200" and sl: "streams_slack k (snd (snd st))"
  shows "streams_slack k (snd (snd st'))" "int (length (fst st')) \<le> mx"
proof -
  obtain b p c where st: "st = (b, p, c)" by (metis prod.collapse)
  let ?sb = "s_send (c_store c sid)" let ?av = "stream_avail mx b sid (nextoff ?sb)"
  let ?n = "min (word_of_int ?av) (sendCredit sid c)"
  obtain off d sb' where pn: "popNew ?n ?sb = ((off, d), sb')" by (metis prod.collapse)
  let ?c1 = "(upd_stream sid (\<lambda>s. s\<lparr>s_send := sb'\<rparr>) c)\<lparr>c_sentData := c_sentData c + of_nat (length d)\<rparr>"
  have pre: "nextoff ?sb < sb_end ?sb" "0 < ?av" "st' = appendStreamFrame sid off d (b, p, ?c1)"
    using n by (auto simp: st new_step_def Let_def pn upd_stream_def)
  have av: "?av \<le> 1200" using mx by (simp add: stream_avail_def)
  note w = avail_word [OF pre(2) av]
  have nn: "?n < 2 ^ 63" using w(1) by (simp add: min_less_iff_disj)
  have s0: "slack k ?sb" using sl by (simp add: st streams_slack_def)
  then have wf: "sb_wf ?sb" by (simp add: slack_def)
  note P = popNew_wf [OF wf pn nn pre(1)]
  have "streams_slack k (upd_stream sid (\<lambda>s. s\<lparr>s_send := sb'\<rparr>) c)"
    using slack_popNew [OF s0 pn nn pre(1)] sl by (intro slack_upd) (simp_all add: st)
  then have "streams_slack k ?c1" by (simp add: streams_slack_def)
  then show "streams_slack k (snd (snd st'))" unfolding pre(3) by (rule slack_appendStreamFrame)
  have "unat ?n \<le> unat (word_of_int ?av :: u64)" by (simp flip: word_le_nat_alt)
  then have len: "length d \<le> nat ?av" using P(2) w(3) by simp
  have "length d < 2 ^ 14" using len av by simp
  then have "VarintLen (of_nat (length d)) \<le> 2" by (rule VarintLen_length)
  then show "int (length (fst st')) \<le> mx"
    unfolding pre(3) length_appendStreamFrame using len P(3) pre(2) by (auto simp: stream_avail_def split: if_splits)
qed

lemma slack_upd_other:
  "streams_slack k c \<Longrightarrow> s_send (f (c_store c sid)) = s_send (c_store c sid) \<Longrightarrow> streams_slack k (upd_stream sid f c)"
  by (simp add: streams_slack_def upd_stream_def)

lemma append_pending_size:
  assumes "streams_slack k (snd (snd st))" "\<And>s. s_send (clr s) = s_send s"
  shows "streams_slack k (snd (snd (append_pending pend fr clr kd mx sid st))) \<and>
    int (length (fst (append_pending pend fr clr kd mx sid st))) \<le> max (int (length (fst st))) (mx + int k)"
  using assms by (simp add: append_pending_def Let_def case_prod_beta slack_upd_other)

lemma frame_step_size:
  assumes "frame_step mx sid st st'" "mx \<le> 1200" "streams_slack k (snd (snd st))"
  shows "streams_slack k (snd (snd st')) \<and> int (length (fst st')) \<le> max (int (length (fst st))) (mx + int k)"
  using assms
proof (induction rule: frame_step.induct)
  case (look b p c)
  then have "slack k (snd (hasLost (s_send (c_store c sid))))" by (intro slack_hasLost) (simp add: streams_slack_def)
  with look have "streams_slack k (snd (stream_hasLost sid c))"
    unfolding stream_hasLost_def by (simp add: case_prod_beta slack_upd)
  then show ?case by simp
next
  case (stop st)
  show ?case by (rule append_pending_size [OF stop(2)]) simp
next
  case (maxdata st)
  show ?case by (rule append_pending_size [OF maxdata(2)]) simp
next
  case (reset st)
  show ?case by (rule append_pending_size [OF reset(2)]) simp
next
  case (lost_data st st')
  from lost_step_size [OF lost_data] show ?case by simp
next
  case (new_data st st')
  from new_step_size [OF new_data] show ?case by simp
next
  case (fin st st')
  obtain b p c where st: "st = (b, p, c)" by (metis prod.collapse)
  have st': "st' = appendStreamFrame sid (nextoff (s_send (c_store c sid))) [] (b, p, c)"
    and a: "0 \<le> stream_avail mx b sid (nextoff (s_send (c_store c sid))) + 1"
    using fin(1) by (auto simp: fin_step_def st Let_def)
  have "streams_slack k (snd (snd st'))" unfolding st' using fin(3) by (intro slack_appendStreamFrame) (simp add: st)
  moreover have "VarintLen 0 = 1" by (simp add: VarintLen_def)
  ultimately show ?case using a unfolding st' length_appendStreamFrame by (auto simp: stream_avail_def)
qed

lemma frame_step_rest:
  "frame_step mx sid st st' \<Longrightarrow> c_spaces (snd (snd st')) = c_spaces (snd (snd st)) \<and>
    c_pathResponses (snd (snd st')) = c_pathResponses (snd (snd st))"
  by (induction rule: frame_step.induct)
    (auto simp: lost_step_def new_step_def fin_step_def append_pending_def appendStreamFrame_def stream_hasLost_def
      upd_stream_def Let_def case_prod_beta)

lemma stream_frames_size:
  assumes "mx \<le> 1200" "streams_slack k (snd (snd st))"
  shows "streams_slack k (snd (snd (stream_appendFrames mx sid st))) \<and>
    int (length (fst (stream_appendFrames mx sid st))) \<le> max (int (length (fst st))) (mx + int k)"
proof (rule stream_appendFrames_invariant [where I = "\<lambda>st'. streams_slack k (snd (snd st')) \<and>
    int (length (fst st')) \<le> max (int (length (fst st))) (mx + int k)"])
  fix st1 st2
  assume "streams_slack k (snd (snd st1)) \<and> int (length (fst st1)) \<le> max (int (length (fst st))) (mx + int k)"
    and "frame_step mx sid st1 st2"
  then show "streams_slack k (snd (snd st2)) \<and> int (length (fst st2)) \<le> max (int (length (fst st))) (mx + int k)"
    using frame_step_size [OF _ assms(1), of sid st1 st2 k] by auto
qed (use assms(2) in simp)

section \<open>Payloads\<close>

definition conn_slack :: "nat \<Rightarrow> qconn \<Rightarrow> bool" where
  "conn_slack k c \<longleftrightarrow> streams_slack k c \<and> (\<forall>sp. sb_wf (n_cryptoSend (c_spaces c sp))) \<and>
     (\<forall>d \<in> set (c_pathResponses c). length d = 8)"

text \<open>A step of building that keeps the buffers in range and exceeds the room by at most \<open>k\<close>.\<close>

definition fit :: "nat \<Rightarrow> int \<Rightarrow> build \<Rightarrow> build \<Rightarrow> bool" where
  "fit k mx st st' \<longleftrightarrow> (conn_slack k (snd (snd st)) \<longrightarrow>
     conn_slack k (snd (snd st')) \<and> int (length (fst st')) \<le> max (int (length (fst st))) (mx + int k))"

lemma fit_refl [simp]: "fit k mx st st"
  by (simp add: fit_def)

lemma fit_trans: "fit k mx a b \<Longrightarrow> fit k mx b c \<Longrightarrow> fit k mx a c"
  by (auto simp: fit_def)

lemma fit_stream: "mx \<le> 1200 \<Longrightarrow> fit k mx st (stream_appendFrames mx sid st)"
proof -
  assume mx: "mx \<le> 1200"
  let ?st = "stream_appendFrames mx sid st"
  have "c_spaces (snd (snd ?st)) = c_spaces (snd (snd st)) \<and> c_pathResponses (snd (snd ?st)) = c_pathResponses (snd (snd st))"
    by (rule stream_appendFrames_invariant [where I = "\<lambda>st'. c_spaces (snd (snd st')) = c_spaces (snd (snd st)) \<and>
          c_pathResponses (snd (snd st')) = c_pathResponses (snd (snd st))"])
      (simp_all add: frame_step_rest)
  then show ?thesis
    using stream_frames_size [OF mx, of k st sid] by (simp add: fit_def conn_slack_def)
qed

lemma conn_slack_rest:
  "streams_slack k c' \<Longrightarrow> c_spaces c' = c_spaces c \<Longrightarrow> c_pathResponses c' = c_pathResponses c \<Longrightarrow> conn_slack k c \<Longrightarrow> conn_slack k c'"
  by (simp add: conn_slack_def)

lemma sendable_slack: "conn_slack k c \<Longrightarrow> conn_slack k (snd (sendable sid c))"
proof -
  assume a: "conn_slack k c"
  have "slack k (s_send (c_store c sid))" using a by (simp add: conn_slack_def streams_slack_def)
  then have "streams_slack k (snd (stream_hasLost sid c))"
    using a slack_hasLost [of k "s_send (c_store c sid)"]
    by (simp add: stream_hasLost_def case_prod_beta slack_upd conn_slack_def)
  then have "conn_slack k (snd (stream_hasLost sid c))"
    by (rule conn_slack_rest [OF _ _ _ a]) (simp_all add: stream_hasLost_def case_prod_beta upd_stream_def)
  then show ?thesis using a by (simp add: sendable_def Let_def case_prod_beta)
qed

lemma fit_stream_turn: "mx \<le> 1200 \<Longrightarrow> fit k mx st (snd (stream_turn mx sid st))"
proof -
  assume mx: "mx \<le> 1200"
  define st1 where "st1 = (if \<not> s_done (c_store (snd (snd st)) sid) then stream_appendFrames mx sid st else st)"
  have 1: "fit k mx st st1" by (simp add: st1_def fit_stream [OF mx])
  obtain b p c where f: "st1 = (b, p, c)" by (metis prod.collapse)
  have "snd (stream_turn mx sid st) = (b, p, if s_done (c_store c sid) then c else snd (sendable sid c))"
    unfolding stream_turn_def Let_def st1_def [symmetric] f by (simp add: case_prod_beta)
  moreover have "fit k mx st1 (b, p, if s_done (c_store c sid) then c else snd (sendable sid c))"
    unfolding f by (simp add: fit_def sendable_slack)
  ultimately show ?thesis using fit_trans [OF 1] by simp
qed

lemma fit_conn: "(conn_slack k c \<Longrightarrow> conn_slack k c') \<Longrightarrow> fit k mx (b, p, c) (b, p', c')"
  by (simp add: fit_def)

lemma slack_dequeue: "conn_slack k c \<Longrightarrow> conn_slack k (dequeue i sid c)"
  by (simp add: conn_slack_def dequeue_def streams_slack_def upd_stream_def)

lemma fit_streams_loop: "mx \<le> 1200 \<Longrightarrow> fit k mx st (snd (streams_loop mx i st))"
proof (induction mx i st rule: streams_loop.induct)
  case (1 mx i st)
  let ?c = "snd (snd st)" and ?sid = "c_sendQueue (snd (snd st)) ! i"
  obtain ok b p c' where t: "stream_turn mx ?sid st = (ok, (b, p, c'))" by (metis prod.collapse)
  have v: "fit k mx st (b, p, c')" using fit_stream_turn [OF "1.prems", of k st ?sid] t by simp
  have d: "fit k mx st (b, p, dequeue i ?sid c')" by (rule fit_trans [OF v]) (rule fit_conn, rule slack_dequeue)
  show ?case
  proof (cases "i < length (c_sendQueue ?c) \<and> mx - int (length (fst st)) > 16")
    case False
    then show ?thesis by (simp add: streams_loop.simps [of mx i st] Let_def)
  next
    case in_range: True
    show ?thesis
    proof (cases ok)
      case True
      then show ?thesis
        using "1.IH"(2) [OF refl _ refl t [symmetric] refl refl] in_range fit_trans [OF v] "1.prems"
        by (simp add: streams_loop.simps [of mx i st] Let_def t)
    next
      case False
      then show ?thesis
        using "1.IH"(1) [OF refl _ refl t [symmetric] refl refl] in_range fit_trans [OF d] "1.prems"
        by (simp add: streams_loop.simps [of mx i st] Let_def t)
    qed
  qed
qed

lemma fit_appendStreams: "mx \<le> 1200 \<Longrightarrow> fit k mx st (appendStreams mx st)"
proof -
  assume mx: "mx \<le> 1200"
  obtain i b p c where l: "streams_loop mx 0 st = (i, (b, p, c))" by (metis prod.collapse)
  have 1: "fit k mx st (b, p, c)" using fit_streams_loop [OF mx, of k st 0] l by simp
  have "fit k mx (b, p, c) (b, p, c\<lparr>c_sendQueue := q\<rparr>)" for q
    by (rule fit_conn) (simp add: conn_slack_def streams_slack_def)
  then show ?thesis using 1 fit_trans [OF 1] by (simp add: appendStreams_def l Let_def)
qed

lemma crypto_frames_size:
  assumes "crypto_frames mx b p cs = (b', p', cs')" "sb_wf cs" "mx \<le> 1200"
  shows "sb_wf cs' \<and> int (length b') \<le> max (int (length b)) mx"
  using assms
proof (induction mx b p cs arbitrary: b' p' cs' rule: crypto_frames.induct)
  case (1 mx b p cs0)
  obtain has cs where h: "hasLost cs0 = (has, cs)" by force
  have wf: "sb_wf cs" using hasLost_wf [OF "1.prems"(2)] h by simp
  define o1 where "o1 = (if has then max (sp_off (hd (lost cs))) (base cs) else nextoff cs)"
  define av where "av = mx - int (length b) - 1 - int (VarintLen o1) - 2"
  define pop where "pop = (if has then popLost (word_of_int av) cs else popNew (word_of_int av) cs)"
  obtain off data cs1 where pp: "pop = ((off, data), cs1)" by (metis prod.collapse)
  let ?b1 = "crypto_frame off data b"
  have body: "crypto_frames mx b p cs0 = (if \<not> has \<and> nextoff cs \<ge> sb_end cs \<or> av \<le> 0 then (b, p, cs)
      else crypto_frames mx ?b1 (sp_add (crypto_mark off data) p) cs1)"
    unfolding crypto_frames.simps [of mx b p cs0] h prod.case Let_def
      o1_def [symmetric] av_def [symmetric] pop_def [symmetric] pp by simp
  show ?case
  proof (cases "\<not> has \<and> nextoff cs \<ge> sb_end cs \<or> av \<le> 0")
    case True
    then show ?thesis using "1.prems"(1) body wf by simp
  next
    case False
    then have rec: "crypto_frames mx ?b1 (sp_add (crypto_mark off data) p) cs1 = (b', p', cs')"
      using "1.prems"(1) by (simp only: body if_False)
    have av: "0 < av" "av \<le> 1200" using False "1.prems"(3) by (auto simp: av_def)
    note w = avail_word [OF av]
    have P: "sb_wf cs1 \<and> length data \<le> unat (word_of_int av :: u64) \<and> off = o1"
    proof (cases has)
      case True
      have fr: "lost cs \<noteq> []" "base cs < sp_end (hd (lost cs))"
        using h True hd_dropWhile [of "\<lambda>s. sp_end s \<le> base cs0" "lost cs0"]
        by (auto simp: hasLost_def Let_def not_le simp del: dropWhile_eq_Nil_conv)
      show ?thesis
        using popLost_wf [OF wf _ w(1,2) fr, of off data cs1] pp True by (simp add: pop_def o1_def)
    next
      case no: False
      then have "nextoff cs < sb_end cs" using False by auto
      then show ?thesis using popNew_wf [OF wf _ w(1), of off data cs1] pp no by (simp add: pop_def o1_def)
    qed
    have len: "length data \<le> nat av" using P w(3) by simp
    then have "VarintLen (of_nat (length data)) \<le> 2" using av(2) by (intro VarintLen_length) simp
    then have b1: "int (length ?b1) \<le> mx"
      using len P av(1) by (simp add: crypto_frame_def av_def)
    have "sb_wf cs' \<and> int (length b') \<le> max (int (length ?b1)) mx"
      by (rule "1.IH" [OF refl h [symmetric] _ o1_def av_def _ pop_def pp [symmetric] refl rec])
        (use False P "1.prems"(3) in auto)
    with b1 show ?thesis by auto
  qed
qed

lemma conn_slack_space: "conn_slack k c \<Longrightarrow> sb_wf (n_cryptoSend (f (c_spaces c sp))) \<Longrightarrow> conn_slack k (upd_space sp f c)"
  by (simp add: conn_slack_def upd_space_def streams_slack_def)

lemma fit_appendCrypto: "mx \<le> 1200 \<Longrightarrow> fit k mx st (appendCrypto sp mx st) \<and>
    (conn_slack k (snd (snd st)) \<longrightarrow> int (length (fst (appendCrypto sp mx st))) \<le> max (int (length (fst st))) mx)"
proof -
  assume mx: "mx \<le> 1200"
  obtain b p c where st: "st = (b, p, c)" by (metis prod.collapse)
  obtain b' p' cs' where f: "crypto_frames mx b p (n_cryptoSend (c_spaces c sp)) = (b', p', cs')" by (metis prod.collapse)
  show ?thesis
    using crypto_frames_size [OF f _ mx] by (auto simp: fit_def st appendCrypto_def f conn_slack_def streams_slack_def upd_space_def)
qed

lemma path_frames_size:
  assumes "\<forall>d \<in> set ds. length d = 8"
  shows "int (length (fst (path_frames mx b p ds))) \<le> max (int (length b)) mx \<and>
    set (snd (snd (path_frames mx b p ds))) \<subseteq> set ds"
  using assms by (induction mx b p ds rule: path_frames.induct) (auto simp: fits_def)

lemma retire_frames_size: "int (length (fst (retire_frames mx b p qs))) \<le> max (int (length b)) mx"
  by (induction mx b p qs rule: retire_frames.induct) (auto simp: fits_def)

lemma ctl_frame_size:
  "int (length (fst (ctl_frame pend ty v kd clr mx st))) \<le> max (int (length (fst st))) mx"
  by (auto simp: ctl_frame_def Let_def case_prod_beta fits_def split: option.split)

lemma ctl_frame_slack:
  "(\<And>c. conn_slack k (clr c) = conn_slack k c) \<Longrightarrow>
    conn_slack k (snd (snd (ctl_frame pend ty v kd clr mx st))) = conn_slack k (snd (snd st))"
  by (simp add: ctl_frame_def Let_def case_prod_beta)

lemma conn_slack_flags [simp]:
  "conn_slack k (c\<lparr>c_handshakeDonePending := x\<rparr>) = conn_slack k c" "conn_slack k (c\<lparr>c_maxDataPending := x\<rparr>) = conn_slack k c"
  "conn_slack k (c\<lparr>c_maxStreamsBidiPending := x\<rparr>) = conn_slack k c" "conn_slack k (c\<lparr>c_maxStreamsUniPending := x\<rparr>) = conn_slack k c"
  "conn_slack k (c\<lparr>c_pingPending := x\<rparr>) = conn_slack k c" "conn_slack k (c\<lparr>c_retireCIDs := qs\<rparr>) = conn_slack k c"
  "conn_slack k (c\<lparr>c_sendQueue := qs\<rparr>) = conn_slack k c" "conn_slack k (c\<lparr>c_bytesSent := n\<rparr>) = conn_slack k c"
  "conn_slack k (c\<lparr>c_out := out\<rparr>) = conn_slack k c" "conn_slack k (c\<lparr>c_cc := cc\<rparr>) = conn_slack k c"
  "conn_slack k (c\<lparr>c_ptoCount := n1\<rparr>) = conn_slack k c" "conn_slack k (c\<lparr>c_sentSinceRecv := x\<rparr>) = conn_slack k c"
  "conn_slack k (c\<lparr>c_lastActivity := t\<rparr>) = conn_slack k c" "conn_slack k (c\<lparr>c_lossDeadline := t\<rparr>) = conn_slack k c"
  "conn_slack k (c\<lparr>c_timer := tm\<rparr>) = conn_slack k c"
  by (simp_all add: conn_slack_def streams_slack_def)

lemma fit_appendControlFrames: "fit k mx st (appendControlFrames mx st) \<and>
    (conn_slack k (snd (snd st)) \<longrightarrow> int (length (fst (appendControlFrames mx st))) \<le> max (int (length (fst st))) mx)"
proof -
  let ?c0 = "snd (snd st)"
  define st1 where "st1 = ctl_frame (c_handshakeDonePending ?c0) frameHandshakeDone None sfHandshakeDone
    (\<lambda>c. c\<lparr>c_handshakeDonePending := False\<rparr>) mx st"
  define st2 where "st2 = ctl_frame (c_maxDataPending ?c0) frameMaxData (Some (c_recvMaxData ?c0)) sfMaxData
    (\<lambda>c. c\<lparr>c_maxDataPending := False\<rparr>) mx st1"
  define st3 where "st3 = ctl_frame (c_maxStreamsBidiPending ?c0) frameMaxStreamsBidi (Some (c_maxBidi ?c0)) sfMaxStreamsBidi
    (\<lambda>c. c\<lparr>c_maxStreamsBidiPending := False\<rparr>) mx st2"
  define st4 where "st4 = ctl_frame (c_maxStreamsUniPending ?c0) frameMaxStreamsUni (Some (c_maxUni ?c0)) sfMaxStreamsUni
    (\<lambda>c. c\<lparr>c_maxStreamsUniPending := False\<rparr>) mx st3"
  have sl: "conn_slack k (snd (snd st4)) = conn_slack k ?c0"
    unfolding st4_def st3_def st2_def st1_def by (simp add: ctl_frame_slack)
  have "int (length (fst st1)) \<le> max (int (length (fst st))) mx" unfolding st1_def by (rule ctl_frame_size)
  moreover have "int (length (fst st2)) \<le> max (int (length (fst st1))) mx" unfolding st2_def by (rule ctl_frame_size)
  moreover have "int (length (fst st3)) \<le> max (int (length (fst st2))) mx" unfolding st3_def by (rule ctl_frame_size)
  moreover have "int (length (fst st4)) \<le> max (int (length (fst st3))) mx" unfolding st4_def by (rule ctl_frame_size)
  ultimately have l4: "int (length (fst st4)) \<le> max (int (length (fst st))) mx" by linarith
  obtain b p c where f: "st4 = (b, p, c)" by (metis prod.collapse)
  obtain b1 p1 ds where pf: "path_frames mx b p (c_pathResponses c) = (b1, p1, ds)" by (metis prod.collapse)
  obtain b2 p2 qs where rf: "retire_frames mx b1 p1 (c_retireCIDs c) = (b2, p2, qs)" by (metis prod.collapse)
  let ?c1 = "c\<lparr>c_pathResponses := ds, c_retireCIDs := qs\<rparr>"
  have eq: "appendControlFrames mx st =
    (if c_pingPending ?c1 \<and> fits mx b2 1 then (b2 @ [framePing], p2\<lparr>p_ackEliciting := True\<rparr>, ?c1\<lparr>c_pingPending := False\<rparr>)
     else (b2, p2, ?c1))"
    unfolding appendControlFrames_def Let_def case_prod_beta st1_def [symmetric] st2_def [symmetric] st3_def [symmetric]
      st4_def [symmetric] by (simp add: f pf rf)
  have main: "conn_slack k ?c1 \<and> int (length b2) \<le> max (int (length (fst st))) mx" if a: "conn_slack k ?c0"
  proof -
    have c: "conn_slack k c" using a sl by (simp add: f)
    then have 8: "\<forall>d \<in> set (c_pathResponses c). length d = 8" by (simp add: conn_slack_def)
    have "int (length b1) \<le> max (int (length b)) mx" "set ds \<subseteq> set (c_pathResponses c)"
      using path_frames_size [OF 8, of mx b p] pf by auto
    moreover have "int (length b2) \<le> max (int (length b1)) mx"
      using retire_frames_size [of mx b1 p1 "c_retireCIDs c"] rf by simp
    ultimately show ?thesis using l4 c 8 by (auto simp: f conn_slack_def streams_slack_def)
  qed
  have ping: "int (length (fst (appendControlFrames mx st))) \<le> max (int (length b2)) mx"
    by (simp add: eq fits_def)
  have "conn_slack k (snd (snd (appendControlFrames mx st))) = conn_slack k ?c1" by (simp add: eq)
  then show ?thesis using main ping by (auto simp: fit_def)
qed

lemma fit_appendFrames:
  assumes mx: "mx \<le> 1200" and k: "conn_slack k (snd (snd st))"
  shows "conn_slack k (snd (snd (appendFrames sp mx st)))" (is ?S)
    and "int (length (fst (appendFrames sp mx st))) \<le> max (int (length (fst st))) (mx + (if sp = spaceApp then int k else 0))" (is ?L)
proof -
  define st1 where "st1 = (if sp = spaceApp then appendControlFrames mx st else st)"
  define st2 where "st2 = appendCrypto sp mx st1"
  have 1: "conn_slack k (snd (snd st1))" "int (length (fst st1)) \<le> max (int (length (fst st))) mx"
    using fit_appendControlFrames [of k mx st] k by (auto simp: st1_def fit_def)
  have 2: "conn_slack k (snd (snd st2))" "int (length (fst st2)) \<le> max (int (length (fst st1))) mx"
    using fit_appendCrypto [OF mx, of k st1 sp] 1 by (auto simp: st2_def fit_def)
  have e: "appendFrames sp mx st = (if sp = spaceApp then appendStreams mx st2 else st2)"
    by (simp add: appendFrames_def Let_def st2_def st1_def)
  show ?S ?L
    using fit_appendStreams [OF mx, of k st2] 1 2 by (auto simp: e fit_def)
qed

section \<open>Packets\<close>

lemma packet_payload_size:
  assumes mx: "16 \<le> mx" "mx \<le> 1200" and k: "conn_slack k c"
    and b: "packet_payload sp mx el now c = (withAck, (b, p, c'))"
  shows "conn_slack k c'" "int (length b) \<le> mx + (if sp = spaceApp then int k else 0)"
proof -
  let ?s = "c_spaces c sp" and ?ack = "appendAck [] sp now c"
  define wa where "wa = (n_ackPending ?s \<and> n_recv ?s \<noteq> [] \<and> int (length ?ack) \<le> mx div 2)"
  define st where "st = (if wa then ?ack else [], newSentPacket (n_nextPN ?s), c)"
  obtain b1 p1 c1 where f: "(if el then appendFrames sp mx st else st) = (b1, p1, c1)" by (metis prod.collapse)
  have st: "int (length (fst st)) \<le> mx" "snd (snd st) = c" using mx by (auto simp: st_def wa_def)
  have 1: "conn_slack k c1" "int (length b1) \<le> mx + (if sp = spaceApp then int k else 0)"
    using fit_appendFrames [OF mx(2), of k st sp] st k f by (auto split: if_splits)
  have e: "(withAck, (b, p, c')) = (if n_probes ?s > 0 \<and> \<not> p_ackEliciting p1 \<and> int (length b1) < mx
      then (wa, (b1 @ [framePing], p1\<lparr>p_ackEliciting := True\<rparr>, c1)) else (wa, (b1, p1, c1)))"
    unfolding b [symmetric] packet_payload_def Let_def wa_def [symmetric] st_def [symmetric] f by simp
  show "conn_slack k c'" "int (length b) \<le> mx + (if sp = spaceApp then int k else 0)"
    using e 1 by (auto split: if_splits)
qed

text \<open>What building a payload, and a datagram, leaves alone.\<close>

definition build_ids where
  "build_ids c = (c_dcid c, c_scid c, c_token c, c_isClient c, c_closed c, c_cc c)"

definition keeps_payload :: "qconn \<Rightarrow> qconn \<Rightarrow> bool" where
  "keeps_payload c c' \<longleftrightarrow> build_ids c' = build_ids c \<and>
     (\<forall>sp. \<exists>cs. c_spaces c' sp = (c_spaces c sp)\<lparr>n_cryptoSend := cs\<rparr>)"

definition keeps_build :: "qconn \<Rightarrow> qconn \<Rightarrow> bool" where
  "keeps_build c c' \<longleftrightarrow> build_ids c' = build_ids c \<and>
     (\<forall>sp. n_tx (c_spaces c' sp) = n_tx (c_spaces c sp) \<and> n_discarded (c_spaces c' sp) = n_discarded (c_spaces c sp) \<and>
       n_probes (c_spaces c' sp) \<le> n_probes (c_spaces c sp) \<and> (n_ackPending (c_spaces c' sp) \<longrightarrow> n_ackPending (c_spaces c sp)))"

definition build_frame where
  "build_frame c = (build_ids c, c_spaces c)"

lemma build_frame_simps [simp]:
  "build_frame (upd_stream sid f c) = build_frame c" "build_frame (c\<lparr>c_sendQueue := q\<rparr>) = build_frame c"
  "build_frame (c\<lparr>c_sentData := n\<rparr>) = build_frame c"
  by (simp_all add: build_frame_def build_ids_def upd_stream_def)

lemma build_frame_hasLost [simp]: "build_frame (snd (stream_hasLost sid c)) = build_frame c"
  by (simp add: stream_hasLost_def case_prod_beta)

lemma build_frame_appendStreamFrame [simp]:
  "build_frame (snd (snd (appendStreamFrame sid off data st))) = build_frame (snd (snd st))"
  by (simp add: appendStreamFrame_def Let_def case_prod_beta)

lemma frame_step_build: "frame_step mx sid st st' \<Longrightarrow> build_frame (snd (snd st')) = build_frame (snd (snd st))"
  by (induction rule: frame_step.induct)
    (auto simp: lost_step_def new_step_def fin_step_def append_pending_def Let_def case_prod_beta)

lemma crypto_same: "\<exists>cs. s = s\<lparr>n_cryptoSend := cs\<rparr>" for s :: pnSpace
  by (intro exI [of _ "n_cryptoSend s"]) simp

lemma keeps_payload_frame: "build_frame c' = build_frame c \<Longrightarrow> keeps_payload c c'"
  by (simp add: build_frame_def keeps_payload_def crypto_same)

lemma keeps_payload_trans: "keeps_payload a b \<Longrightarrow> keeps_payload b c \<Longrightarrow> keeps_payload a c"
proof -
  assume a: "keeps_payload a b" and b: "keeps_payload b c"
  have "\<exists>cs. c_spaces c sp = (c_spaces a sp)\<lparr>n_cryptoSend := cs\<rparr>" for sp
  proof -
    obtain x where "c_spaces b sp = (c_spaces a sp)\<lparr>n_cryptoSend := x\<rparr>" using a unfolding keeps_payload_def by blast
    moreover obtain y where "c_spaces c sp = (c_spaces b sp)\<lparr>n_cryptoSend := y\<rparr>" using b unfolding keeps_payload_def by blast
    ultimately show ?thesis by auto
  qed
  then show ?thesis using a b by (simp add: keeps_payload_def)
qed

lemma keeps_payload_simps [simp]:
  "keeps_payload c (c\<lparr>c_handshakeDonePending := x\<rparr>)" "keeps_payload c (c\<lparr>c_maxDataPending := x\<rparr>)"
  "keeps_payload c (c\<lparr>c_maxStreamsBidiPending := x\<rparr>)" "keeps_payload c (c\<lparr>c_maxStreamsUniPending := x\<rparr>)"
  "keeps_payload c (c\<lparr>c_pathResponses := ds, c_retireCIDs := qs\<rparr>)" "keeps_payload c (c\<lparr>c_pingPending := x\<rparr>)"
  by (rule keeps_payload_frame, simp add: build_frame_def build_ids_def)+

lemma keeps_payload_crypto: "keeps_payload c (upd_space sp (\<lambda>s. s\<lparr>n_cryptoSend := cs\<rparr>) c)"
proof -
  have "\<exists>x. (if q = sp then (c_spaces c sp)\<lparr>n_cryptoSend := cs\<rparr> else c_spaces c q) = (c_spaces c q)\<lparr>n_cryptoSend := x\<rparr>" for q
    by (cases "q = sp") (auto simp: crypto_same)
  then show ?thesis by (simp add: keeps_payload_def upd_space_def build_ids_def fun_upd_def)
qed

interpretation kp: payload_relation keeps_payload
proof (unfold_locales, goal_cases)
  case (2 a b c)
  then show ?case by (rule keeps_payload_trans)
next
  case (3 mx sid st st')
  then show ?case by (rule keeps_payload_frame [OF frame_step_build])
next
  case (13 mx out0 p c sp out1 p' cs)
  show ?case by (rule keeps_payload_crypto)
qed (simp_all add: keeps_payload_frame sendable_def dequeue_def Let_def case_prod_beta)

lemma keeps_payload_build: "keeps_payload c c' \<Longrightarrow> keeps_build c c'"
proof -
  assume p: "keeps_payload c c'"
  have "n_tx (c_spaces c' sp) = n_tx (c_spaces c sp) \<and> n_discarded (c_spaces c' sp) = n_discarded (c_spaces c sp) \<and>
      n_probes (c_spaces c' sp) = n_probes (c_spaces c sp) \<and> n_ackPending (c_spaces c' sp) = n_ackPending (c_spaces c sp)" for sp
  proof -
    obtain x where "c_spaces c' sp = (c_spaces c sp)\<lparr>n_cryptoSend := x\<rparr>" using p unfolding keeps_payload_def by blast
    then show ?thesis by simp
  qed
  then show ?thesis using p by (simp add: keeps_build_def keeps_payload_def)
qed

interpretation kb: build_relation keeps_build
proof (unfold_locales, goal_cases)
  case (2 a b c)
  then show ?case unfolding keeps_build_def by (metis order_trans)
next
  case (13 mx out0 p c sp out1 p' cs)
  show ?case by (rule keeps_payload_build [OF keeps_payload_crypto])
next
  case (3 mx sid st st')
  then show ?case by (rule keeps_payload_build [OF kp.R_frame])
qed (simp_all add: keeps_payload_build kp.R_refl kp.R_sendable kp.R_dequeue kp.R_queue,
    simp_all add: keeps_build_def upd_space_def build_ids_def)

lemma keeps_build_size: "keeps_build c c' \<Longrightarrow> packetSize c' p = packetSize c p"
  by (simp add: keeps_build_def build_ids_def packetSize_def headerLen_def)

lemma pnLen_bounds: "pnLen n a \<in> {1, 2, 3, 4}"
  by (auto simp: pnLen_def Let_def)

lemma conn_slack_spaces [simp]:
  "conn_slack k (upd_space sp (\<lambda>s. s\<lparr>n_ackPending := x, n_ackNow := y, n_unackedEliciting := z, n_ackDeadline := t\<rparr>) c) = conn_slack k c"
  "conn_slack k (upd_space sp (\<lambda>s. s\<lparr>n_probes := f s\<rparr>) c) = conn_slack k c"
  "conn_slack k (upd_space sp (\<lambda>s. s\<lparr>n_nextPN := g s\<rparr>) c) = conn_slack k c"
  "conn_slack k (upd_space sp (\<lambda>s. s\<lparr>n_sent := h s\<rparr>) c) = conn_slack k c"
  "conn_slack k (upd_space sp (\<lambda>s. s\<lparr>n_lastAckElicitingSent := l s, n_ackElicitingInFlight := m s\<rparr>) c) = conn_slack k c"
  by (auto simp: conn_slack_def streams_slack_def upd_space_def)

text \<open>What a space owes the peer: probes and an acknowledgement.\<close>

definition owed :: "pnSpace \<Rightarrow> nat" where
  "owed s = nat (n_probes s) + (if n_ackPending s then 1 else 0)"

lemma packet_payload_elicits:
  assumes "packet_payload sp mx el now c = (withAck, (b, p, c'))"
  shows "p_ackEliciting p \<Longrightarrow> el \<or> n_probes (c_spaces c sp) > 0" "withAck \<Longrightarrow> n_ackPending (c_spaces c sp)"
    "n_probes (c_spaces c' sp) = n_probes (c_spaces c sp)" "n_ackPending (c_spaces c' sp) = n_ackPending (c_spaces c sp)"
proof -
  have "keeps_payload c c'" using kp.R_packet_payload [of c sp mx el now] assms by simp
  then obtain x where "c_spaces c' sp = (c_spaces c sp)\<lparr>n_cryptoSend := x\<rparr>" unfolding keeps_payload_def by blast
  then show "n_probes (c_spaces c' sp) = n_probes (c_spaces c sp)" "n_ackPending (c_spaces c' sp) = n_ackPending (c_spaces c sp)"
    by simp_all
  show "p_ackEliciting p \<Longrightarrow> el \<or> n_probes (c_spaces c sp) > 0" "withAck \<Longrightarrow> n_ackPending (c_spaces c sp)"
    using assms by (auto simp: packet_payload_def Let_def case_prod_beta newSentPacket_def split: if_splits)
qed

lemma buildPacket_some:
  assumes room: "room \<le> 1200" and k: "conn_slack k c" and b: "buildPacket sp room el now c = (Some plan, c')"
  shows "conn_slack k c'" "pl_space plan = sp" "pl_pnLen plan \<in> {1, 2, 3, 4}"
    "int (packetSize c plan) \<le> room + (if sp = spaceApp then int k else 0)"
    "owed (c_spaces c' sp) < owed (c_spaces c sp) \<or>
      n_probes (c_spaces c sp) \<le> 0 \<and> el \<and> p_ackEliciting (pl_sp plan)"
proof -
  let ?s = "c_spaces c sp" let ?pl = "pnLen (n_nextPN ?s) (n_largestAcked ?s)"
  define mx where "mx = room - int (headerLen c sp ?pl) - int aeadOverhead"
  obtain withAck b1 p c1 where pp: "packet_payload sp mx el now c = (withAck, (b1, p, c1))" by (metis prod.collapse)
  define c2 where "c2 = (if withAck then upd_space sp (\<lambda>s. s\<lparr>n_ackPending := False, n_ackNow := False, n_unackedEliciting := 0,
    n_ackDeadline := 0\<rparr>) c1 else c1)"
  define c3 where "c3 = (if p_ackEliciting p \<and> n_probes (c_spaces c2 sp) > 0
    then upd_space sp (\<lambda>s. s\<lparr>n_probes := n_probes s - 1\<rparr>) c2 else c2)"
  let ?short = "4 - int ?pl - int (length b1)"
  have mx: "16 \<le> mx" and el: "p_ackEliciting p \<or> withAck"
    and plan: "plan = \<lparr>pl_space = sp, pl_pn = n_nextPN ?s, pl_pnLen = ?pl,
      pl_payload = b1 @ replicate (nat ?short) 0, pl_sp = p, pl_padded = (?short > 0)\<rparr>"
    and c': "c' = upd_space sp (\<lambda>s. s\<lparr>n_nextPN := n_nextPN s + 1\<rparr>) c3"
    using b unfolding buildPacket_def Let_def mx_def [symmetric] pp prod.case c2_def [symmetric] c3_def [symmetric]
    by (auto split: if_splits)
  have "mx \<le> 1200" using room by (simp add: mx_def)
  note P = packet_payload_size [OF mx this k pp]
  show "conn_slack k c'" using P(1) by (simp add: c' c3_def c2_def)
  show "pl_space plan = sp" by (simp add: plan)
  show "pl_pnLen plan \<in> {1, 2, 3, 4}" using pnLen_bounds by (simp add: plan)
  have "int (length (pl_payload plan)) \<le> mx + (if sp = spaceApp then int k else 0)" using P(2) mx by (auto simp: plan)
  then show "int (packetSize c plan) \<le> room + (if sp = spaceApp then int k else 0)"
    by (simp add: packetSize_def plan mx_def)
  show "owed (c_spaces c' sp) < owed (c_spaces c sp) \<or>
      n_probes (c_spaces c sp) \<le> 0 \<and> el \<and> p_ackEliciting (pl_sp plan)"
    using packet_payload_elicits [OF pp] el by (auto simp: owed_def c' c3_def c2_def plan upd_space_def)
qed

lemma buildPacket_slack: "room \<le> 1200 \<Longrightarrow> conn_slack k c \<Longrightarrow> conn_slack k (snd (buildPacket sp room el now c))"
proof -
  assume room: "room \<le> 1200" and k: "conn_slack k c"
  let ?s = "c_spaces c sp" let ?pl = "pnLen (n_nextPN ?s) (n_largestAcked ?s)"
  define mx where "mx = room - int (headerLen c sp ?pl) - int aeadOverhead"
  obtain withAck b1 p c1 where pp: "packet_payload sp mx el now c = (withAck, (b1, p, c1))" by (metis prod.collapse)
  have "mx \<le> 1200" using room by (simp add: mx_def)
  then have "conn_slack k c1" if "16 \<le> mx" using packet_payload_size(1) [OF that _ k pp] by blast
  then show ?thesis using k
    unfolding buildPacket_def Let_def mx_def [symmetric] pp prod.case by auto
qed

section \<open>Datagrams\<close>

definition debt :: "qconn \<Rightarrow> nat" where
  "debt c = owed (c_spaces c spaceInitial) + owed (c_spaces c spaceHandshake) + owed (c_spaces c spaceApp)"

lemma keeps_build_owed: "keeps_build c c' \<Longrightarrow> owed (c_spaces c' sp) \<le> owed (c_spaces c sp)"
proof -
  assume "keeps_build c c'"
  then have "n_probes (c_spaces c' sp) \<le> n_probes (c_spaces c sp)" "n_ackPending (c_spaces c' sp) \<longrightarrow> n_ackPending (c_spaces c sp)"
    unfolding keeps_build_def by blast+
  then show ?thesis by (auto simp: owed_def)
qed

lemma keeps_build_debt:
  assumes "keeps_build c c'"
  shows "debt c' \<le> debt c" "owed (c_spaces c' sp) < owed (c_spaces c sp) \<Longrightarrow> debt c' < debt c"
proof -
  note o = keeps_build_owed [OF assms]
  show "debt c' \<le> debt c" using o [of spaceInitial] o [of spaceHandshake] o [of spaceApp] by (simp add: debt_def)
  show "debt c' < debt c" if "owed (c_spaces c' sp) < owed (c_spaces c sp)"
    using that o [of spaceInitial] o [of spaceHandshake] o [of spaceApp] by (cases sp) (simp_all add: debt_def)
qed

text \<open>The plans so far, with what they are worth.\<close>

definition turns_inv :: "nat \<Rightarrow> bool \<Rightarrow> qconn \<Rightarrow> packetPlan list \<times> nat \<times> qconn \<Rightarrow> bool" where
  "turns_inv k ok c st \<longleftrightarrow>
     (let (plans, sz, c') = st in
      keeps_build c c' \<and> conn_slack k c' \<and> sz = sum_list (map (packetSize c) plans) \<and>
      (\<forall>p \<in> set plans. n_tx (c_spaces c (pl_space p)) \<noteq> None) \<and>
      (plans \<noteq> [] \<longrightarrow> debt c' < debt c \<or> ok \<and> (\<exists>p \<in> set plans. p_ackEliciting (pl_sp p))))"

lemma build_turn_inv:
  assumes I: "turns_inv k ok c (plans, sz, c1)" and sz: "sz \<le> 1200"
    and t: "build_turn ok now (plans, sz, c1) sp = (plans', sz', c')"
  shows "turns_inv k ok c (plans', sz', c')" "sz' \<le> 1200 + (if sp = spaceApp then k else 0)"
proof -
  let ?s = "c_spaces c1 sp" let ?el = "ok \<or> n_probes ?s > 0"
  obtain r c2 where b: "buildPacket sp (int maxDatagram - int sz) ?el now c1 = (r, c2)" by (metis prod.collapse)
  have room: "int maxDatagram - int sz \<le> 1200" by (simp add: maxDatagram_def)
  have c: "keeps_build c c1" and k: "conn_slack k c1" using I by (auto simp: turns_inv_def)
  have kb: "keeps_build c1 c2" using kb.R_buildPacket [of c1 sp "int maxDatagram - int sz" ?el now] b by simp
  have k2: "conn_slack k c2" using buildPacket_slack [OF room k, of sp ?el now] b by simp
  note d = keeps_build_debt [OF kb] kb.R_trans [OF c kb]
  have "turns_inv k ok c (plans', sz', c') \<and> sz' \<le> 1200 + (if sp = spaceApp then k else 0)"
  proof (cases "n_tx ?s = None \<or> n_discarded ?s")
    case True
    then show ?thesis using t I sz by (simp add: build_turn_def Let_def)
  next
    case tx: False
    then have txc: "n_tx (c_spaces c sp) \<noteq> None" using c by (simp add: keeps_build_def)
    show ?thesis
    proof (cases r)
      case None
      then have "plans' = plans" "sz' = sz" "c' = c2" using t tx by (auto simp: build_turn_def Let_def b)
      then show ?thesis using I sz d k2 by (auto simp: turns_inv_def intro: le_less_trans)
    next
      case (Some plan)
      then have e: "plans' = plans @ [plan]" "sz' = sz + packetSize c2 plan" "c' = c2"
        using t tx by (auto simp: build_turn_def Let_def b)
      have bs: "pl_space plan = sp" "int (packetSize c1 plan) \<le> int maxDatagram - int sz + (if sp = spaceApp then int k else 0)"
        "owed (c_spaces c2 sp) < owed (c_spaces c1 sp) \<or> n_probes ?s \<le> 0 \<and> ?el \<and> p_ackEliciting (pl_sp plan)"
        using buildPacket_some [OF room k, of sp ?el now plan c2] b Some by auto
      have ps: "packetSize c2 plan = packetSize c plan" "packetSize c1 plan = packetSize c plan"
        using keeps_build_size d(3) c by blast+
      have "debt c2 < debt c \<or> ok \<and> p_ackEliciting (pl_sp plan)"
        using bs(3) d(2) [of sp] keeps_build_debt(1) [OF c] by auto
      then show ?thesis using I bs(1,2) k2 d(3) txc ps by (auto simp: turns_inv_def e maxDatagram_def)
    qed
  qed
  then show "turns_inv k ok c (plans', sz', c')" "sz' \<le> 1200 + (if sp = spaceApp then k else 0)" by auto
qed

lemma build_turns_inv:
  assumes k: "conn_slack k c" and t: "foldl (build_turn ok now) ([], 0, c) all_spaces = (plans, sz, c')"
  shows "turns_inv k ok c (plans, sz, c')" "sz \<le> 1200 + k"
proof -
  obtain p1 s1 c1 where 1: "build_turn ok now ([], 0, c) spaceInitial = (p1, s1, c1)" by (metis prod.collapse)
  obtain p2 s2 c2 where 2: "build_turn ok now (p1, s1, c1) spaceHandshake = (p2, s2, c2)" by (metis prod.collapse)
  have 3: "build_turn ok now (p2, s2, c2) spaceApp = (plans, sz, c')" using t 1 2 by (simp add: all_spaces_def)
  have "turns_inv k ok c ([], 0, c)" using k by (simp add: turns_inv_def kb.R_refl)
  note I1 = build_turn_inv [OF this _ 1] note I2 = build_turn_inv [OF I1(1) _ 2] note I3 = build_turn_inv [OF I2(1) _ 3]
  show "turns_inv k ok c (plans, sz, c')" "sz \<le> 1200 + k" using I1(2) I2(2) I3 by auto
qed

text \<open>Sealing makes a packet as long as \<open>packetSize\<close> says.\<close>

lemma length_sealPlan:
  assumes "aead (k_Seal tx) (k_Open tx)"
  shows "length (sealPlan tx (c_dcid c) (c_scid c) (c_token c) kp sp pn n payload) = headerLen c sp n + length payload + 16"
proof -
  let ?hdr = "plan_header (c_dcid c) (c_scid c) (c_token c) kp sp n (length payload)"
  have "length (keys_seal tx (?hdr @ append_pn pn n @ payload) (length ?hdr) n pn) = length ?hdr + n + length payload + 16"
    by (simp add: keys_seal_def Let_def mask_pn_nth(1) mask_first_nth(1) aead.seal_length [OF assms])
  moreover have "length ?hdr + n = headerLen c sp n"
    by (cases sp) (simp_all add: plan_header_def headerLen_def Let_def AppendUint32_def appendVarint2_def)
  ultimately show ?thesis by (simp add: sealPlan_def Let_def)
qed

definition sealing :: "qconn \<Rightarrow> bool" where
  "sealing c \<longleftrightarrow> (\<forall>sp tx. n_tx (c_spaces c sp) = Some tx \<longrightarrow> aead (k_Seal tx) (k_Open tx))"

lemma length_sealed:
  assumes "sealing c" "\<forall>p \<in> set plans. n_tx (c_spaces c (pl_space p)) \<noteq> None"
  shows "length (foldl (conn_sealPlan c) out plans) = length out + sum_list (map (packetSize c) plans)"
  using assms(2)
proof (induction plans arbitrary: out)
  case (Cons p plans)
  then obtain tx where tx: "n_tx (c_spaces c (pl_space p)) = Some tx" by auto
  then have "aead (k_Seal tx) (k_Open tx)" using assms(1) by (simp add: sealing_def)
  then have "length (conn_sealPlan c out p) = length out + packetSize c p"
    by (simp add: conn_sealPlan_def tx length_sealPlan packetSize_def aeadOverhead_def)
  then show ?case using Cons by simp
qed simp

definition padded_plans :: "bool \<Rightarrow> nat \<Rightarrow> packetPlan list \<Rightarrow> packetPlan list" where
  "padded_plans pad sz plans =
     (if pad \<and> sz < minInitialDatagram then mark_padded (pad_last (minInitialDatagram - sz) plans) else plans)"

lemma padded_plans_props:
  assumes "plans \<noteq> []" "sz = sum_list (map (packetSize c) plans)"
  shows "sum_list (map (packetSize c) (padded_plans pad sz plans)) = (if pad then max sz 1200 else sz)"
    "map pl_space (padded_plans pad sz plans) = map pl_space plans"
    "map (p_ackEliciting \<circ> pl_sp) (padded_plans pad sz plans) = map (p_ackEliciting \<circ> pl_sp) plans"
proof -
  obtain ps q where p: "plans = ps @ [q]" using assms(1) by (cases plans rule: rev_cases) auto
  show "sum_list (map (packetSize c) (padded_plans pad sz plans)) = (if pad then max sz 1200 else sz)"
    using assms(2) by (auto simp: padded_plans_def mark_padded_def pad_last_def p packetSize_def minInitialDatagram_def)
  show "map pl_space (padded_plans pad sz plans) = map pl_space plans"
    "map (p_ackEliciting \<circ> pl_sp) (padded_plans pad sz plans) = map (p_ackEliciting \<circ> pl_sp) plans"
    by (auto simp: padded_plans_def mark_padded_def pad_last_def p)
qed

text \<open>A datagram is made of plans as \<open>turns_inv\<close> describes them.\<close>

lemma buildDatagram_plans:
  assumes k: "conn_slack k c" and b: "buildDatagram now c = (Some d, c')"
  obtains plans c1 where "plans \<noteq> []" "keeps_build c c1" "conn_slack k c1" "sum_list (map (packetSize c) plans) \<le> 1200 + k"
    "\<forall>p \<in> set plans. n_tx (c_spaces c (pl_space p)) \<noteq> None"
    "debt c1 < debt c \<or> canSend (c_cc c) \<and> (\<exists>p \<in> set plans. p_ackEliciting (pl_sp p))"
    "d = foldl (conn_sealPlan c1) [] plans" "c' = fold (record_sent now) plans c1"
proof -
  obtain plans sz c1 where t: "foldl (build_turn (canSend (c_cc c)) now) ([], 0, c) all_spaces = (plans, sz, c1)"
    by (metis prod.collapse)
  note I = build_turns_inv [OF k t]
  define pad where "pad = (\<exists>p \<in> set plans. pl_space p = spaceInitial \<and> (c_isClient c1 \<or> p_ackEliciting (pl_sp p)))"
  let ?ps = "padded_plans pad sz plans"
  have "buildDatagram now c = (if atAmplificationLimit c then (None, c) else if plans = [] then (None, c1)
      else (Some (foldl (conn_sealPlan c1) [] ?ps), fold (record_sent now) ?ps c1))"
    unfolding buildDatagram_def t Let_def prod.case pad_def padded_plans_def by (rule refl)
  then have e: "plans \<noteq> []" "d = foldl (conn_sealPlan c1) [] ?ps" "c' = fold (record_sent now) ?ps c1"
    using b by (simp_all split: if_splits)
  have sz: "sz = sum_list (map (packetSize c) plans)" using I(1) by (simp add: turns_inv_def)
  note P = padded_plans_props [OF e(1) sz, of pad]
  have ne: "?ps \<noteq> []" using arg_cong [OF P(2), of length] e(1) by auto
  have sp: "pl_space ` set ?ps = pl_space ` set plans" using arg_cong [OF P(2), of set] by (simp only: set_map)
  have "\<forall>s \<in> pl_space ` set plans. n_tx (c_spaces c s) \<noteq> None" using I(1) by (auto simp: turns_inv_def)
  then have tx: "\<forall>s \<in> pl_space ` set ?ps. n_tx (c_spaces c s) \<noteq> None" unfolding sp .
  have im: "(p_ackEliciting \<circ> pl_sp) ` set ?ps = (p_ackEliciting \<circ> pl_sp) ` set plans"
    using arg_cong [OF P(3), of set] by (simp only: set_map)
  have el: "\<exists>p \<in> set ?ps. p_ackEliciting (pl_sp p)" if "\<exists>p \<in> set plans. p_ackEliciting (pl_sp p)"
  proof -
    have "True \<in> (p_ackEliciting \<circ> pl_sp) ` set plans" using that by (auto simp: image_iff)
    then show ?thesis unfolding im [symmetric] by (auto simp: image_iff)
  qed
  show ?thesis
  proof (rule that [OF ne])
    show "keeps_build c c1" "conn_slack k c1" using I(1) by (auto simp: turns_inv_def)
    show "sum_list (map (packetSize c) ?ps) \<le> 1200 + k" using I(2) by (simp add: P(1))
    show "\<forall>p \<in> set ?ps. n_tx (c_spaces c (pl_space p)) \<noteq> None" using tx by blast
    show "debt c1 < debt c \<or> canSend (c_cc c) \<and> (\<exists>p \<in> set ?ps. p_ackEliciting (pl_sp p))"
      using I(1) e(1) el by (auto simp: turns_inv_def)
  qed (rule e)+
qed

lemma datagram_length:
  assumes "buildDatagram now c = (Some d, c')" "conn_slack k c" "sealing c"
  shows "length d \<le> 1200 + k"
  using assms(2,1)
proof (cases rule: buildDatagram_plans)
  case (1 plans c1)
  have kb: "n_tx (c_spaces c1 sp) = n_tx (c_spaces c sp)" for sp using 1(2) by (simp add: keeps_build_def)
  have "length d = sum_list (map (packetSize c1) plans)"
    unfolding 1(7) using length_sealed [of c1 plans "[]"] assms(3) 1(5) by (simp add: sealing_def kb)
  also have "\<dots> = sum_list (map (packetSize c) plans)"
    by (simp add: keeps_build_size [OF 1(2)] cong: map_cong)
  finally show ?thesis using 1(4) by simp
qed

section \<open>Where a frame exceeds its room\<close>

text \<open>
  Two frames of 100 bytes are sent, a probe marks both as lost, and the first is acknowledged after all:
  the lost range begins at 0 although the buffer now begins at 100.
\<close>

definition late_buffer :: qsendBuffer where
  "late_buffer = onAck 0 100 (onLost 100 100 (onLost 0 100 (snd (popNew 100 (snd (popNew 100 (sb_write (replicate 200 7) noSend)))))))"

lemma late_buffer: "late_buffer = \<lparr>base = 100, buf = replicate 100 7, nextoff = 200, lost = [\<lparr>sp_off = 0, sp_end = 200\<rparr>], acked = []\<rparr>"
proof -
  have a: "addSpan [] \<lparr>sp_off = 0, sp_end = 100\<rparr> = [\<lparr>sp_off = 0, sp_end = 100\<rparr>]"
    "addSpan [\<lparr>sp_off = 0, sp_end = 100\<rparr>] \<lparr>sp_off = 100, sp_end = 200\<rparr> = [\<lparr>sp_off = 0, sp_end = 200\<rparr>]"
    by code_simp+
  show ?thesis
    by (simp add: late_buffer_def popNew_def onLost_def onAck_def sb_write_def noSend_def sb_end_def Let_def a)
qed

text \<open>
  C38. A frame of lost data can be longer than the room it was given: with two frames marked as lost and
  the first acknowledged afterwards, 80 bytes of room produce 81 bytes, because the room is worked out with
  the offset at which the lost range begins, 0, and the frame carries the offset 100.
\<close>

theorem lost_data_overruns:
  "length (fst (stream_appendFrames 80 0 ([], newSentPacket 0,
     upd_stream 0 (\<lambda>_. zeroStream\<lparr>s_hasSend := True, s_send := late_buffer\<rparr>) c))) = 81"
proof -
  let ?s = "zeroStream\<lparr>s_hasSend := True, s_send := late_buffer\<rparr>"
  define c0 where "c0 = upd_stream 0 (\<lambda>_. ?s) c"
  have s0: "c_store c0 0 = ?s" by (simp add: c0_def upd_stream_def)
  have h: "hasLost late_buffer = (True, late_buffer)" by (simp add: late_buffer hasLost_def)
  let ?rest = "late_buffer\<lparr>lost := [\<lparr>sp_off = 175, sp_end = 200\<rparr>]\<rparr>"
  have p: "popLost 75 late_buffer = ((100, replicate 75 7), ?rest)"
    by (simp add: popLost_def h) (simp add: late_buffer sb_slice_def subslice_def)
  have h1: "hasLost ?rest = (True, ?rest)" by (simp add: late_buffer hasLost_def)
  have hl: "stream_hasLost 0 c0 = (True, upd_stream 0 (\<lambda>_. ?s) c0)"
    by (simp add: stream_hasLost_def s0 zeroStream_def h upd_stream_def)
  let ?c1 = "upd_stream 0 (\<lambda>s. s\<lparr>s_send := ?rest\<rparr>) (upd_stream 0 (\<lambda>_. ?s) c0)"
  obtain b1 p1 c1 where f: "appendStreamFrame 0 100 (replicate 75 7) ([], newSentPacket 0, ?c1) = (b1, p1, c1)"
    by (metis prod.collapse)
  have len: "length b1 = 81"
    using length_appendStreamFrame [of 0 100 "replicate 75 7" "[]" "newSentPacket 0" ?c1] f by (simp add: VarintLen_def)
  have s1: "s_send (c_store c1 0) = ?rest"
    using f by (auto simp: appendStreamFrame_def Let_def upd_stream_def)
  have stop: "lost_frames 80 0 b1 p1 c1 = (True, (b1, p1, snd (stream_hasLost 0 c1)))"
    by (subst lost_frames.simps) (simp add: stream_hasLost_def s1 h1 Let_def stream_avail_def len upd_stream_def case_prod_beta)
  have "lost_frames 80 0 [] (newSentPacket 0) c0 = (True, (b1, p1, snd (stream_hasLost 0 c1)))"
    by (subst lost_frames.simps)
      (simp add: hl Let_def stream_avail_def upd_stream_def late_buffer VarintLen_def p [unfolded late_buffer] f [unfolded upd_stream_def late_buffer, simplified] stop)
  then show ?thesis
    unfolding c0_def [symmetric] by (simp add: stream_appendFrames_def append_pending_def s0 zeroStream_def Let_def len)
qed

end
