(* ===== verification/Quic_Flush.thy ===== *)
theory Quic_Flush
  imports Quic_Size Quic_Api
begin

text \<open>
  \<open>flushLocked\<close> returns: every datagram it builds pays off a probe or an acknowledgement, discards the
  Initial space or takes room from the congestion window, and a flush takes none of these back.
\<close>

section \<open>What recording a packet changes\<close>

definition initial_gone :: "qconn \<Rightarrow> bool" where
  "initial_gone c \<longleftrightarrow> n_discarded (c_spaces c spaceInitial)"

definition window :: "qconn \<Rightarrow> u64" where
  "window c = cwnd (c_cc c)"

definition flying :: "qconn \<Rightarrow> u64" where
  "flying c = bytesInFlight (c_cc c)"

text \<open>Either the Initial space goes, or the sizes are added and nothing else of this is touched.\<close>

definition recorded :: "nat \<Rightarrow> qconn \<Rightarrow> qconn \<Rightarrow> bool" where
  "recorded n c c' \<longleftrightarrow> window c' = window c \<and> c_closed c' = c_closed c \<and> (\<forall>k. conn_slack k c \<longrightarrow> conn_slack k c') \<and>
     (\<forall>p. packetSize c' p = packetSize c p) \<and> debt c' \<le> debt c \<and>
     (\<not> initial_gone c \<and> initial_gone c' \<or> initial_gone c' = initial_gone c \<and> flying c' = flying c + of_nat n)"

lemma recorded_trans: "recorded m a b \<Longrightarrow> recorded n b c \<Longrightarrow> recorded (m + n) a c"
  by (auto simp: recorded_def)

lemma discard_cwnd:
  "cwnd (foldl (\<lambda>cc p. if p_inFlight p then cc\<lparr>bytesInFlight := bytesInFlight cc - of_nat (p_size p)\<rparr> else cc) cc ps) = cwnd cc"
  by (induction ps arbitrary: cc) simp_all

lemma discard_slack: "conn_slack k c \<Longrightarrow> conn_slack k (discardSpace sp c)"
  by (auto simp: discardSpace_def Let_def conn_slack_def streams_slack_def upd_space_def zeroSpace_def sb_wf_def noSend_def sb_end_def)

lemma discard_recorded:
  "\<not> initial_gone c \<Longrightarrow> recorded n c (discardSpace spaceInitial c)"
  using discard_slack [of _ c spaceInitial]
  by (auto simp: recorded_def initial_gone_def discardSpace_def Let_def window_def discard_cwnd upd_space_def debt_def owed_def
      zeroSpace_def packetSize_def headerLen_def)

definition bare_sent :: "space \<Rightarrow> sentPacket \<Rightarrow> qconn \<Rightarrow> qconn" where
  "bare_sent sp p c =
     (let c = upd_space sp (\<lambda>s. s\<lparr>n_sent := n_sent s @ [p]\<rparr>) c;
          c = (if p_ackEliciting p then
                 (let c = upd_space sp (\<lambda>s. s\<lparr>n_lastAckElicitingSent := p_time p,
                            n_ackElicitingInFlight := n_ackElicitingInFlight s + 1\<rparr>) c
                  in if \<not> c_sentSinceRecv c then c\<lparr>c_sentSinceRecv := True, c_lastActivity := p_time p\<rparr> else c)
               else c)
      in if p_inFlight p
         then c\<lparr>c_cc := (c_cc c)\<lparr>bytesInFlight := bytesInFlight (c_cc c) + of_nat (p_size p)\<rparr>\<rparr> else c)"

lemma onPacketSent_bare:
  "onPacketSent sp p c = (let c = bare_sent sp p c in
     if sp = spaceHandshake \<and> c_isClient c \<and> \<not> n_discarded (c_spaces c spaceInitial) then discardSpace spaceInitial c else c)"
  unfolding onPacketSent_def bare_sent_def Let_def by (rule refl)

lemma recorded_refl: "recorded 0 c c"
  by (simp add: recorded_def)

lemma recorded_space:
  "recorded 0 c (upd_space sp (\<lambda>s. s\<lparr>n_sent := f s\<rparr>) c)"
  "recorded 0 c (upd_space sp (\<lambda>s. s\<lparr>n_lastAckElicitingSent := l s, n_ackElicitingInFlight := m s\<rparr>) c)"
  by (simp_all add: recorded_def) (simp_all add: upd_space_def window_def flying_def initial_gone_def debt_def owed_def packetSize_def
      headerLen_def)

lemma recorded_fields:
  "recorded 0 c (c\<lparr>c_sentSinceRecv := x, c_lastActivity := t\<rparr>)"
  "recorded n c (c\<lparr>c_cc := (c_cc c)\<lparr>bytesInFlight := bytesInFlight (c_cc c) + of_nat n\<rparr>\<rparr>)"
  by (simp_all add: recorded_def window_def flying_def initial_gone_def debt_def packetSize_def headerLen_def)

lemma bare_sent_recorded: "recorded (if p_inFlight p then p_size p else 0) c (bare_sent sp p c)"
proof -
  define c1 where "c1 = upd_space sp (\<lambda>s. s\<lparr>n_sent := n_sent s @ [p]\<rparr>) c"
  define c2 where "c2 = upd_space sp (\<lambda>s. s\<lparr>n_lastAckElicitingSent := p_time p,
    n_ackElicitingInFlight := n_ackElicitingInFlight s + 1\<rparr>) c1"
  define c3 where "c3 = (if p_ackEliciting p then if \<not> c_sentSinceRecv c2
    then c2\<lparr>c_sentSinceRecv := True, c_lastActivity := p_time p\<rparr> else c2 else c1)"
  have 1: "recorded 0 c c1" unfolding c1_def by (rule recorded_space)
  have 2: "recorded 0 c c2" using recorded_trans [OF 1 recorded_space(2)] by (simp add: c2_def)
  have 3: "recorded 0 c c3" using 1 2 recorded_trans [OF 2 recorded_fields(1)] by (simp add: c3_def)
  have e: "bare_sent sp p c = (if p_inFlight p
      then c3\<lparr>c_cc := (c_cc c3)\<lparr>bytesInFlight := bytesInFlight (c_cc c3) + of_nat (p_size p)\<rparr>\<rparr> else c3)"
    unfolding bare_sent_def Let_def c1_def [symmetric] c2_def [symmetric] c3_def [symmetric] by (rule refl)
  show ?thesis unfolding e using 3 recorded_trans [OF 3 recorded_fields(2)] by simp
qed

lemma record_sent_recorded:
  "recorded (if p_ackEliciting (pl_sp p) \<or> pl_padded p then packetSize c p else 0) c (record_sent now p c)"
proof -
  define q where "q = (pl_sp p)\<lparr>p_time := now, p_size := packetSize c p, p_inFlight := (p_ackEliciting (pl_sp p) \<or> pl_padded p)\<rparr>"
  define c1 where "c1 = bare_sent (pl_space p) q c"
  have q: "(if p_ackEliciting (pl_sp p) \<or> pl_padded p then packetSize c p else 0) = (if p_inFlight q then p_size q else 0)"
    by (simp add: q_def)
  have b: "recorded (if p_ackEliciting (pl_sp p) \<or> pl_padded p then packetSize c p else 0) c c1"
    unfolding q c1_def by (rule bare_sent_recorded)
  have r: "record_sent now p c = (if pl_space p = spaceHandshake \<and> c_isClient c1 \<and> \<not> n_discarded (c_spaces c1 spaceInitial)
      then discardSpace spaceInitial c1 else c1)"
    unfolding record_sent_def onPacketSent_bare Let_def q_def [symmetric] c1_def [symmetric] by (rule refl)
  have "recorded 0 c1 (record_sent now p c)"
    unfolding r using discard_recorded [of c1 0] by (auto simp: initial_gone_def recorded_def)
  from recorded_trans [OF b this] show ?thesis by simp
qed

definition in_flight_sizes :: "qconn \<Rightarrow> packetPlan list \<Rightarrow> nat" where
  "in_flight_sizes c plans = sum_list (map (\<lambda>p. if p_ackEliciting (pl_sp p) \<or> pl_padded p then packetSize c p else 0) plans)"

lemma record_all: "recorded (in_flight_sizes c plans) c (fold (record_sent now) plans c)"
proof (induction plans arbitrary: c)
  case Nil
  show ?case by (simp add: recorded_def in_flight_sizes_def)
next
  case (Cons p plans)
  let ?c = "record_sent now p c"
  have 1: "recorded (if p_ackEliciting (pl_sp p) \<or> pl_padded p then packetSize c p else 0) c ?c" by (rule record_sent_recorded)
  then have "\<forall>q. packetSize ?c q = packetSize c q" unfolding recorded_def by blast
  then have "in_flight_sizes ?c plans = in_flight_sizes c plans" by (simp add: in_flight_sizes_def cong: if_cong)
  then show ?case using recorded_trans [OF 1 Cons.IH [of ?c]] by (simp add: in_flight_sizes_def)
qed

lemma in_flight_sizes_bounds:
  "in_flight_sizes c plans \<le> sum_list (map (packetSize c) plans)"
  "p \<in> set plans \<Longrightarrow> p_ackEliciting (pl_sp p) \<Longrightarrow> 0 < in_flight_sizes c plans"
proof -
  show "in_flight_sizes c plans \<le> sum_list (map (packetSize c) plans)"
    unfolding in_flight_sizes_def by (rule sum_list_mono) simp
  assume p: "p \<in> set plans" "p_ackEliciting (pl_sp p)"
  have "packetSize c p \<le> in_flight_sizes c plans"
    unfolding in_flight_sizes_def using p by (intro member_le_sum_list) (force, simp)
  moreover have "0 < packetSize c p" by (simp add: packetSize_def aeadOverhead_def)
  ultimately show "0 < in_flight_sizes c plans" by simp
qed

section \<open>The loop ends\<close>

definition room_left :: "qconn \<Rightarrow> nat" where
  "room_left c = unat (window c) + 1 - unat (flying c + 1200)"

definition shrinks :: "qconn rel" where
  "shrinks = inv_image (less_than <*lex*> less_than <*lex*> less_than)
     (\<lambda>c. (if initial_gone c then 0 else 1 :: nat, debt c, room_left c))"

lemma wf_shrinks: "wf shrinks"
  by (simp add: shrinks_def wf_inv_image wf_lex_prod)

lemma room_left_shrinks:
  assumes "flying c + 1200 \<le> window c" "unat (window c) < 2 ^ 63" "flying c' = flying c + of_nat n" "window c' = window c"
    and n: "0 < n" "n \<le> 2000"
  shows "room_left c' < room_left c"
proof -
  let ?x = "flying c + 1200"
  have x: "unat ?x \<le> unat (window c)" using assms(1) by (simp add: word_le_nat_alt)
  have "unat (?x + of_nat n) = unat ?x + unat (of_nat n :: u64)" using x assms(2) n by (intro unat_plus) (simp add: unat_of_nat64)
  then have "unat (?x + of_nat n) = unat ?x + n" using n by (simp add: unat_of_nat64)
  moreover have "flying c' + 1200 = ?x + of_nat n" by (simp add: assms(3))
  ultimately have "unat (flying c' + 1200) = unat ?x + n" by (simp only:)
  then show ?thesis using x n(1) unfolding room_left_def assms(4) by linarith
qed

lemma datagram_slack: "buildDatagram now c = (r, c') \<Longrightarrow> conn_slack k c \<Longrightarrow> conn_slack k c'"
proof -
  assume b: "buildDatagram now c = (r, c')" and k: "conn_slack k c"
  show ?thesis
  proof (cases r)
    case (Some d)
    show ?thesis
      using k b [unfolded Some]
    proof (cases rule: buildDatagram_plans)
      case (1 plans c1)
      then show ?thesis using record_all [of c1 plans now] by (simp add: recorded_def)
    qed
  next
    case None
    obtain plans sz c1 where t: "foldl (build_turn (canSend (c_cc c)) now) ([], 0, c) all_spaces = (plans, sz, c1)"
      by (metis prod.collapse)
    have "c' = c \<or> c' = c1" using b None by (auto simp: buildDatagram_def t Let_def split: if_splits)
    then show ?thesis using build_turns_inv(1) [OF k t] k by (auto simp: turns_inv_def)
  qed
qed

lemma datagram_progress:
  assumes b: "buildDatagram now c = (Some d, c')" and k: "conn_slack 7 c" and w: "unat (window c) < 2 ^ 63"
  shows "(c', c) \<in> shrinks" "window c' = window c"
proof -
  obtain plans c1 where P: "keeps_build c c1" "conn_slack 7 c1" "sum_list (map (packetSize c) plans) \<le> 1200 + 7"
    "debt c1 < debt c \<or> canSend (c_cc c) \<and> (\<exists>p \<in> set plans. p_ackEliciting (pl_sp p))"
    "c' = fold (record_sent now) plans c1"
    using buildDatagram_plans [OF k b] by metis
  let ?n = "in_flight_sizes c1 plans"
  have R: "recorded ?n c1 c'" unfolding P(5) by (rule record_all)
  have same: "c_cc c1 = c_cc c" "initial_gone c1 = initial_gone c" "window c1 = window c" "flying c1 = flying c"
    using P(1) by (auto simp: keeps_build_def build_ids_def initial_gone_def window_def flying_def)
  show "window c' = window c" using R same by (simp add: recorded_def)
  have d: "debt c' \<le> debt c1" "debt c1 \<le> debt c" using R keeps_build_debt(1) [OF P(1)] by (simp_all add: recorded_def)
  have "packetSize c1 = packetSize c" by (rule ext) (rule keeps_build_size [OF P(1)])
  then have n: "?n \<le> 2000" using in_flight_sizes_bounds(1) [of c1 plans] P(3) by simp
  show "(c', c) \<in> shrinks"
  proof (cases "\<not> initial_gone c \<and> initial_gone c'")
    case True
    then show ?thesis by (simp add: shrinks_def)
  next
    case False
    then have f: "initial_gone c' = initial_gone c" "flying c' = flying c + of_nat ?n"
      using R same by (auto simp: recorded_def)
    show ?thesis
    proof (cases "debt c1 < debt c")
      case True
      then show ?thesis using d f(1) by (simp add: shrinks_def)
    next
      case no: False
      then have can: "flying c + 1200 \<le> window c" and "\<exists>p \<in> set plans. p_ackEliciting (pl_sp p)"
        using P(4) by (auto simp: canSend_def flying_def window_def maxDatagram_def)
      then have "0 < ?n" using in_flight_sizes_bounds(2) by blast
      from room_left_shrinks [OF can w f(2) _ this n] show ?thesis
        using R same d no f(1) by (auto simp: shrinks_def recorded_def)
    qed
  qed
qed

lemma send_loop_returns:
  assumes "conn_slack 7 c" "unat (window c) < 2 ^ 63"
  shows "\<exists>c'. send_loop now c = Some c'"
  using assms
proof (induction c rule: wf_induct_rule [OF wf_shrinks])
  case (1 c)
  show ?case
  proof (cases "c_closed c \<or> fst (buildDatagram now c) = None")
    case True
    then show ?thesis by (subst send_loop.simps) (auto split: prod.split)
  next
    case False
    then obtain d c' where b: "buildDatagram now c = (Some d, c')" by (cases "buildDatagram now c") auto
    let ?c = "c'\<lparr>c_bytesSent := c_bytesSent c' + of_nat (length d), c_out := c_out c' @ [d]\<rparr>"
    note D = datagram_progress [OF b 1(2,3)]
    have "(?c, c) \<in> shrinks" using D(1)
      by (simp add: shrinks_def initial_gone_def debt_def room_left_def window_def flying_def)
    moreover have "conn_slack 7 ?c" using datagram_slack [OF b 1(2)] by simp
    moreover have "unat (window ?c) < 2 ^ 63" using D(2) 1(3) by (simp add: window_def)
    ultimately obtain c'' where "send_loop now ?c = Some c''" using 1(1) by blast
    then show ?thesis using False b by (subst send_loop.simps) simp
  qed
qed

text \<open>A server that has data to acknowledge and to send, and has not seen the client's address confirmed.\<close>

definition demo_server :: qconn where
  "demo_server =
     upd_space spaceApp (\<lambda>s. s\<lparr>n_tx := Some (newKeys demo_crypto CHACHA20_POLY1305_SHA256 [7]), n_ackPending := True, n_ackNow := True,
         n_recv := [\<lparr>lo = 1, hi = 1\<rparr>]\<rparr>)
       (upd_stream 0 (\<lambda>s. s\<lparr>s_send := noSend\<lparr>buf := [1, 2, 3]\<rparr>\<rparr>)
         ((newConn demo_qconfig False [1] silent_tls 1)\<lparr>c_bytesRecv := 2000, c_sendQueue := [0]\<rparr>))"

lemma demo_server_slack: "conn_slack k demo_server"
  by (auto simp: demo_server_def conn_slack_def streams_slack_def slack_def sb_wf_def newConn_def Let_def upd_space_def
      upd_stream_def zeroSpace_def zeroStream_def noSend_def sb_end_def)

lemma demo_server_sealing: "sealing demo_server"
proof -
  have "aead (k_Seal (newKeys demo_crypto CHACHA20_POLY1305_SHA256 [7])) (k_Open (newKeys demo_crypto CHACHA20_POLY1305_SHA256 [7]))"
    by (rule newKeys_aead) simp
  then show ?thesis
    by (auto simp: sealing_def demo_server_def newConn_def Let_def upd_space_def upd_stream_def zeroSpace_def split: if_splits)
qed

lemma demo_server_fields:
  "window demo_server = 12000" "\<not> c_isClient demo_server" "\<not> c_addressValidated demo_server"
  "c_bytesSent demo_server = 0" "c_bytesRecv demo_server = 2000" "c_pathResponses demo_server = []" "c_out demo_server = []"
  by (simp_all add: demo_server_def newConn_def Let_def upd_space_def upd_stream_def window_def newNewReno_def
      initialCongestionWindow_def maxDatagram_def)

lemma flushLocked_returns: "conn_slack 7 c \<Longrightarrow> cwnd (c_cc c) < 2 ^ 63 \<Longrightarrow> \<exists>c'. flushLocked now c = Some c'"
  using send_loop_returns [of c now] by (auto simp: flushLocked_def window_def word_less_nat_alt)

text \<open>
  C4. Sending comes to an end: with buffer offsets and a congestion window below \<open>2\<^sup>63\<close> and path responses of
  8 bytes, \<open>flushLocked\<close> returns, whatever there is to send. So does every operation that ends in it.
\<close>

theorem flush_returns:
  assumes "\<forall>sid. sb_wf (s_send (c_store c sid))" "\<forall>sp. sb_wf (n_cryptoSend (c_spaces c sp))"
    "\<forall>d \<in> set (c_pathResponses c). length d = 8" "cwnd (c_cc c) < 2 ^ 63"
  shows "\<exists>c'. flushLocked now c = Some c'"
  using assms by (intro flushLocked_returns) (simp_all add: conn_slack_def streams_slack_def slack_def)

theorem flush_returns_witness: "\<exists>c'. flushLocked 1 demo_server = Some c'"
proof (rule flush_returns)
  show "\<forall>sid. sb_wf (s_send (c_store demo_server sid))" "\<forall>sp. sb_wf (n_cryptoSend (c_spaces demo_server sp))"
    using demo_server_slack [of 0] by (simp_all add: conn_slack_def streams_slack_def slack_def)
  show "\<forall>d \<in> set (c_pathResponses demo_server). length d = 8" "cwnd (c_cc demo_server) < 2 ^ 63"
    using demo_server_fields(1,6) by (simp_all add: window_def)
qed

section \<open>What goes out\<close>

text \<open>Building and recording leave the path alone: the sides, what was counted, what was sent.\<close>

definition path_view where
  "path_view c = (c_isClient c, c_addressValidated c, c_bytesRecv c, c_bytesSent c, c_out c)"

definition keeps_path :: "qconn \<Rightarrow> qconn \<Rightarrow> bool" where
  "keeps_path c c' \<longleftrightarrow> path_view c' = path_view c \<and> (\<forall>sp. n_tx (c_spaces c' sp) \<in> {None, n_tx (c_spaces c sp)})"

definition path_frame where
  "path_frame c = (path_view c, \<lambda>sp. n_tx (c_spaces c sp))"

lemma keeps_path_frame: "path_frame c' = path_frame c \<Longrightarrow> keeps_path c c'"
  by (auto simp: path_frame_def keeps_path_def fun_eq_iff)

lemma path_frame_simps [simp]:
  "path_frame (upd_stream sid f c) = path_frame c" "path_frame (c\<lparr>c_sendQueue := q\<rparr>) = path_frame c"
  "path_frame (c\<lparr>c_sentData := n\<rparr>) = path_frame c" "path_frame (c\<lparr>c_handshakeDonePending := x\<rparr>) = path_frame c"
  "path_frame (c\<lparr>c_maxDataPending := x\<rparr>) = path_frame c" "path_frame (c\<lparr>c_maxStreamsBidiPending := x\<rparr>) = path_frame c"
  "path_frame (c\<lparr>c_maxStreamsUniPending := x\<rparr>) = path_frame c" "path_frame (c\<lparr>c_pathResponses := ds\<rparr>) = path_frame c"
  "path_frame (c\<lparr>c_retireCIDs := qs\<rparr>) = path_frame c" "path_frame (c\<lparr>c_pingPending := x\<rparr>) = path_frame c"
  "path_frame (c\<lparr>c_sentSinceRecv := x\<rparr>) = path_frame c" "path_frame (c\<lparr>c_lastActivity := t\<rparr>) = path_frame c"
  "path_frame (c\<lparr>c_cc := cc\<rparr>) = path_frame c" "path_frame (c\<lparr>c_ptoCount := i\<rparr>) = path_frame c"
  by (simp_all add: path_frame_def path_view_def upd_stream_def)

lemma path_frame_space: "n_tx (f (c_spaces c sp)) = n_tx (c_spaces c sp) \<Longrightarrow> path_frame (upd_space sp f c) = path_frame c"
  by (auto simp: path_frame_def path_view_def upd_space_def fun_eq_iff)

lemma path_frame_hasLost [simp]: "path_frame (snd (stream_hasLost sid c)) = path_frame c"
  by (simp add: stream_hasLost_def case_prod_beta)

lemma path_frame_appendStreamFrame [simp]:
  "path_frame (snd (snd (appendStreamFrame sid off data st))) = path_frame (snd (snd st))"
  by (simp add: appendStreamFrame_def Let_def case_prod_beta)

lemma frame_step_path: "frame_step mx sid st st' \<Longrightarrow> path_frame (snd (snd st')) = path_frame (snd (snd st))"
  by (induction rule: frame_step.induct)
    (auto simp: lost_step_def new_step_def fin_step_def append_pending_def Let_def case_prod_beta)

lemma keeps_path_trans: "keeps_path a b \<Longrightarrow> keeps_path b c \<Longrightarrow> keeps_path a c"
  unfolding keeps_path_def by (metis insert_iff singletonD)

lemma discard_path: "keeps_path c (discardSpace sp c)"
  by (simp add: discardSpace_def Let_def keeps_path_def path_view_def upd_space_def zeroSpace_def)

lemma onPacketSent_path: "keeps_path c (onPacketSent sp p c)"
proof -
  have b: "keeps_path c (bare_sent sp p c)" by (rule keeps_path_frame) (simp add: bare_sent_def Let_def path_frame_space)
  show ?thesis unfolding onPacketSent_bare Let_def by (simp only: b keeps_path_trans [OF b discard_path] if_split simp_thms)
qed

interpretation path_dg: datagram_relation keeps_path
proof (unfold_locales, goal_cases)
  case (2 a b c)
  then show ?case by (rule keeps_path_trans)
next
  case (3 mx sid st st')
  then show ?case by (rule keeps_path_frame [OF frame_step_path])
next
  case (17 c sp p)
  show ?case by (rule onPacketSent_path)
qed (simp_all add: keeps_path_frame path_frame_space sendable_def dequeue_def Let_def case_prod_beta)

lemma datagram_path:
  assumes "buildDatagram now c = (r, c')"
  shows "path_view c' = path_view c" "sealing c \<Longrightarrow> sealing c'"
proof -
  have "keeps_path c c'" using path_dg.R_buildDatagram [of c now] assms by simp
  then show "path_view c' = path_view c" "sealing c \<Longrightarrow> sealing c'"
    unfolding keeps_path_def sealing_def by (metis insert_iff option.distinct(1) singletonD)+
qed

lemma timers_path [simp]:
  "path_view (setLossDetectionTimer now c) = path_view c" "path_view (armTimerLocked now c) = path_view c"
  by (simp_all add: setLossDetectionTimer_def armTimerLocked_def Let_def path_view_def)

text \<open>Of a loop that has ended, what holds before a datagram and is kept by sending it holds at the end.\<close>

lemma send_loop_invariant:
  assumes "send_loop now c = Some c'" "I c"
    and step: "\<And>c d c1. I c \<Longrightarrow> buildDatagram now c = (Some d, c1) \<Longrightarrow>
      I (c1\<lparr>c_bytesSent := c_bytesSent c1 + of_nat (length d), c_out := c_out c1 @ [d]\<rparr>)"
    and last: "\<And>c c1. I c \<Longrightarrow> buildDatagram now c = (None, c1) \<Longrightarrow> I c1"
  shows "I c'"
proof -
  have "n = now \<longrightarrow> I c \<longrightarrow> I c'" if "send_loop n c = Some c'" for n c c'
  proof (rule send_loop.raw_induct [OF _ that, where P = "\<lambda>n c c'. n = now \<longrightarrow> I c \<longrightarrow> I c'"])
    fix fl n c r
    assume hyp: "\<And>n c r. fl n c = Some r \<Longrightarrow> n = now \<longrightarrow> I c \<longrightarrow> I r"
      and body: "(if c_closed c then Some c
        else case buildDatagram n c of (None, c') \<Rightarrow> Some c'
          | (Some d, c') \<Rightarrow> fl n (c'\<lparr>c_bytesSent := c_bytesSent c' + of_nat (length d), c_out := c_out c' @ [d]\<rparr>)) = Some r"
    obtain dg c1 where b: "buildDatagram n c = (dg, c1)" by force
    show "n = now \<longrightarrow> I c \<longrightarrow> I r"
    proof (intro impI)
      assume n: "n = now" and i: "I c"
      consider "c_closed c" | "\<not> c_closed c" "dg = None" | d where "\<not> c_closed c" "dg = Some d" by blast
      then show "I r"
      proof cases
        case 3
        then have "fl n (c1\<lparr>c_bytesSent := c_bytesSent c1 + of_nat (length d), c_out := c_out c1 @ [d]\<rparr>) = Some r"
          using body b by simp
        then show ?thesis using hyp step [OF i] b 3 n by blast
      qed (use body b i n last in auto)
    qed
  qed
  then show ?thesis using assms(1,2) by blast
qed

lemma flush_loop:
  assumes "flushLocked now c = Some c'"
  obtains c1 where "send_loop now c = Some c1" "path_view c' = path_view c1"
  using assms by (auto simp: flushLocked_def)

lemma unat_add_length: "n < 2 ^ 64 \<Longrightarrow> unat (x + of_nat n) \<le> unat x + n" for x :: u64
  by (metis unat_of_nat64 unat_plus_if' add.commute diff_le_self le_refl)

lemma amplification_room:
  fixes x r :: u64
  assumes "x + 1200 \<le> 3 * r" "unat x \<le> 3 * unat r" "unat r < 2 ^ 61" "n \<le> 1200"
  shows "unat x + n \<le> 3 * unat r"
proof -
  have "unat (x + 1200) = unat x + unat (1200 :: u64)" using assms(2,3) by (intro unat_plus) simp
  moreover have "unat (3 * r) = unat (3 :: u64) * unat r" using assms(3) by (subst unat_word_ariths(2), intro mod_less) simp
  ultimately show ?thesis using assms(1,4) by (simp add: word_le_nat_alt)
qed

lemma flushed_sizes:
  assumes f: "flushLocked now c = Some c'" and k: "conn_slack k c" and s: "sealing c"
  shows "\<exists>ds. c_out c' = c_out c @ ds \<and> (\<forall>d \<in> set ds. length d \<le> 1200 + k)"
proof -
  define I where "I c1 \<longleftrightarrow> conn_slack k c1 \<and> sealing c1 \<and>
    (\<exists>ds. c_out c1 = c_out c @ ds \<and> (\<forall>d \<in> set ds. length d \<le> 1200 + k))" for c1
  obtain c1 where l: "send_loop now c = Some c1" and v: "path_view c' = path_view c1" using f by (rule flush_loop)
  have "I c1"
  proof (rule send_loop_invariant [OF l])
    show "I c" using k s by (simp add: I_def)
    show "I (c2\<lparr>c_bytesSent := c_bytesSent c2 + of_nat (length d), c_out := c_out c2 @ [d]\<rparr>)"
      if i: "I a" and b: "buildDatagram now a = (Some d, c2)" for a d c2
    proof -
      have d: "length d \<le> 1200 + k" by (rule datagram_length [OF b]) (use i in \<open>simp_all add: I_def\<close>)
      obtain ds where "c_out c2 = c_out c @ ds" "\<forall>d \<in> set ds. length d \<le> 1200 + k"
        using i datagram_path(1) [OF b] by (auto simp: I_def path_view_def)
      moreover have "conn_slack k c2" "sealing c2" using i datagram_slack [OF b] datagram_path(2) [OF b] by (simp_all add: I_def)
      ultimately show ?thesis using d by (auto simp: I_def sealing_def intro!: exI [of _ "ds @ [d]"])
    qed
    show "I c2" if i: "I a" and b: "buildDatagram now a = (None, c2)" for a c2
      using i datagram_slack [OF b] datagram_path [OF b] by (auto simp: I_def path_view_def)
  qed
  then show ?thesis using v by (auto simp: I_def path_view_def)
qed

text \<open>
  C15. Datagrams fit: every datagram a flush hands to the socket is at most \<open>maxDatagram\<close> bytes long plus 7,
  and at most \<open>maxDatagram\<close> when no stream has a lost range that begins below what has been
  acknowledged. This needs a sealed packet to be 16 bytes longer than its payload, as every cipher of the
  suites makes it. The packets in it are padded, coalesced and filled in between.
\<close>

theorem flushed_datagrams_fit:
  assumes "flushLocked now c = Some c'" and "\<forall>sid. sb_wf (s_send (c_store c sid))" "\<forall>sp. sb_wf (n_cryptoSend (c_spaces c sp))"
    and "\<forall>d \<in> set (c_pathResponses c). length d = 8"
    and "\<forall>sp tx. n_tx (c_spaces c sp) = Some tx \<longrightarrow> aead (k_Seal tx) (k_Open tx)"
  shows "\<exists>ds. c_out c' = c_out c @ ds \<and> (\<forall>d \<in> set ds. length d \<le> maxDatagram + 7) \<and>
    ((\<forall>sid. \<forall>s \<in> set (lost (s_send (c_store c sid))). base (s_send (c_store c sid)) \<le> sp_off s) \<longrightarrow>
      (\<forall>d \<in> set ds. length d \<le> maxDatagram))"
proof -
  let ?aligned = "\<forall>sid. \<forall>s \<in> set (lost (s_send (c_store c sid))). base (s_send (c_store c sid)) \<le> sp_off s"
  have s: "sealing c" using assms(5) by (simp add: sealing_def)
  have 7: "conn_slack 7 c" using assms(2-4) by (simp add: conn_slack_def streams_slack_def slack_def)
  obtain ds where ds: "c_out c' = c_out c @ ds" "\<forall>d \<in> set ds. length d \<le> 1200 + 7" using flushed_sizes [OF assms(1) 7 s] by blast
  have "\<forall>d \<in> set ds. length d \<le> 1200" if ?aligned
  proof -
    have "conn_slack 0 c" using assms(2-4) that by (simp add: conn_slack_def streams_slack_def slack_def)
    then show ?thesis using flushed_sizes [OF assms(1) _ s, of 0] ds(1) by auto
  qed
  then show ?thesis using ds by (intro exI [of _ ds]) (auto simp: maxDatagram_def)
qed

theorem flushed_datagrams_fit_witness:
  "\<exists>c'. flushLocked 1 demo_server = Some c' \<and> (\<forall>d \<in> set (c_out c'). length d \<le> 1200)"
proof -
  have K: "conn_slack 0 demo_server" by (rule demo_server_slack)
  obtain c' where f: "flushLocked 1 demo_server = Some c'"
    using flushLocked_returns [OF demo_server_slack] demo_server_fields(1) by (force simp: window_def)
  have "\<forall>sid. sb_wf (s_send (c_store demo_server sid))" "\<forall>sp. sb_wf (n_cryptoSend (c_spaces demo_server sp))"
    "\<forall>d \<in> set (c_pathResponses demo_server). length d = 8"
    "\<forall>sid. \<forall>s \<in> set (lost (s_send (c_store demo_server sid))). base (s_send (c_store demo_server sid)) \<le> sp_off s"
    using K by (simp_all add: conn_slack_def streams_slack_def slack_def)
  then show ?thesis
    using flushed_datagrams_fit [OF f] demo_server_sealing f demo_server_fields(7) by (auto simp: sealing_def maxDatagram_def)
qed



end
