(* ===== verification/Quic_Flow.thy ===== *)
theory Quic_Flow
  imports Quic_Flush
begin

text \<open>
  Flow control of the sending side: what a connection sends stays within the credit the peer has
  given, for each stream and for the connection, whatever it sends in whatever order.
\<close>

section \<open>Taking new data\<close>

lemma add_length_le: "unat x + n \<le> unat m \<Longrightarrow> x + of_nat n \<le> m" for x m :: u64
proof -
  assume le: "unat x + n \<le> unat m"
  have m: "unat m < 2 ^ 64" using unsigned_less [of m] by simp
  then have "unat (of_nat n :: u64) = n" using le by (intro unat_of_nat64) linarith
  moreover have "unat (x + of_nat n) = unat x + unat (of_nat n :: u64)"
    using le m calculation by (intro unat_plus) linarith
  ultimately show ?thesis using le by (simp add: word_le_nat_alt)
qed

lemma popNew_within:
  assumes p: "popNew n b = ((off, data), b')" and lt: "nextoff b < sb_end b" and le: "nextoff b \<le> mx" and n: "n \<le> mx - nextoff b"
  shows "nextoff b' \<le> mx" "length data \<le> unat n" "off = nextoff b"
proof -
  let ?e = "min (sb_end b) (nextoff b + n)"
  have un: "unat (nextoff b) + unat n \<le> unat mx"
    using n le by (simp add: word_le_nat_alt unat_sub)
  then have s: "unat (nextoff b + n) = unat (nextoff b) + unat n"
    by (intro unat_plus le_less_trans [OF un]) simp
  have b': "b' = b\<lparr>nextoff := ?e\<rparr>" and o: "off = nextoff b"
    and d: "data = subslice (unat (nextoff b - base b)) (unat (?e - base b)) (buf b)"
    using p by (auto simp: popNew_def Let_def sb_slice_def)
  show "off = nextoff b" by (rule o)
  show "nextoff b' \<le> mx" using un s by (simp add: b' min_def word_le_nat_alt)
  have le_e: "nextoff b \<le> ?e" "unat ?e \<le> unat (nextoff b) + unat n"
    using lt s by (auto simp: min_def word_le_nat_alt word_less_nat_alt)
  have "unat (?e - base b) - unat (nextoff b - base b) \<le> unat (?e - nextoff b)"
    using unat_diff_le [of "?e - base b" "nextoff b - base b"] by simp
  also have "unat (?e - nextoff b) \<le> unat n" using le_e by (simp add: unat_sub)
  finally show "length data \<le> unat n" unfolding d by (simp add: subslice_def)
qed

section \<open>Credit\<close>

definition credit_ok :: "qconn \<Rightarrow> bool" where
  "credit_ok c \<longleftrightarrow>
     c_sentData c \<le> c_peerMaxData c \<and> (\<forall>sid. nextoff (s_send (c_store c sid)) \<le> s_sendMax (c_store c sid))"

definition keeps_credit :: "qconn \<Rightarrow> qconn \<Rightarrow> bool" where
  "keeps_credit c c' \<longleftrightarrow>
     c_peerMaxData c' = c_peerMaxData c \<and> (\<forall>sid. s_sendMax (c_store c' sid) = s_sendMax (c_store c sid)) \<and>
     (credit_ok c \<longrightarrow> credit_ok c')"

definition credit_view where
  "credit_view c =
     (c_sentData c, c_peerMaxData c, \<lambda>sid. (nextoff (s_send (c_store c sid)), s_sendMax (c_store c sid)))"

lemma keeps_credit_view: "credit_view c' = credit_view c \<Longrightarrow> keeps_credit c c'"
  by (simp add: credit_view_def keeps_credit_def credit_ok_def fun_eq_iff)

lemma keeps_credit_trans: "keeps_credit a b \<Longrightarrow> keeps_credit b c \<Longrightarrow> keeps_credit a c"
  by (simp add: keeps_credit_def)

lemma credit_upd_stream:
  "nextoff (s_send (f (c_store c sid))) = nextoff (s_send (c_store c sid)) \<Longrightarrow>
    s_sendMax (f (c_store c sid)) = s_sendMax (c_store c sid) \<Longrightarrow> credit_view (upd_stream sid f c) = credit_view c"
  by (auto simp: credit_view_def upd_stream_def fun_eq_iff)

lemma credit_view_fields [simp]:
  "credit_view (c\<lparr>c_sendQueue := q\<rparr>) = credit_view c" "credit_view (c\<lparr>c_handshakeDonePending := b\<rparr>) = credit_view c"
  "credit_view (c\<lparr>c_maxDataPending := b\<rparr>) = credit_view c" "credit_view (c\<lparr>c_maxStreamsBidiPending := b\<rparr>) = credit_view c"
  "credit_view (c\<lparr>c_maxStreamsUniPending := b\<rparr>) = credit_view c" "credit_view (c\<lparr>c_pathResponses := ds\<rparr>) = credit_view c"
  "credit_view (c\<lparr>c_retireCIDs := qs\<rparr>) = credit_view c" "credit_view (c\<lparr>c_pingPending := b\<rparr>) = credit_view c"
  "credit_view (c\<lparr>c_bytesSent := n\<rparr>) = credit_view c" "credit_view (c\<lparr>c_out := out\<rparr>) = credit_view c"
  "credit_view (c\<lparr>c_lossDeadline := t\<rparr>) = credit_view c" "credit_view (c\<lparr>c_timer := tm\<rparr>) = credit_view c"
  "credit_view (c\<lparr>c_cc := cc\<rparr>) = credit_view c" "credit_view (c\<lparr>c_ptoCount := k\<rparr>) = credit_view c"
  "credit_view (c\<lparr>c_sentSinceRecv := b\<rparr>) = credit_view c" "credit_view (c\<lparr>c_lastActivity := t\<rparr>) = credit_view c"
  "credit_view (upd_space sp f c) = credit_view c"
  by (simp_all add: credit_view_def upd_space_def)

lemma credit_hasLost [simp]: "credit_view (snd (stream_hasLost sid c)) = credit_view c"
  by (auto simp: stream_hasLost_def hasLost_def Let_def case_prod_beta intro!: credit_upd_stream)

lemma credit_sendable [simp]: "credit_view (snd (sendable sid c)) = credit_view c"
  by (simp add: sendable_def Let_def case_prod_beta)

lemma credit_dequeue [simp]: "credit_view (dequeue i sid c) = credit_view c"
  by (simp add: dequeue_def credit_upd_stream)

lemma credit_appendStreamFrame [simp]:
  "credit_view (snd (snd (appendStreamFrame sid off data st))) = credit_view (snd (snd st))"
  by (simp add: appendStreamFrame_def Let_def case_prod_beta credit_upd_stream)

lemma credit_onPacketSent [simp]: "credit_view (onPacketSent sp p c) = credit_view c"
  by (simp add: onPacketSent_def discardSpace_def Let_def)

lemma credit_timers [simp]:
  "credit_view (setLossDetectionTimer now c) = credit_view c" "credit_view (armTimerLocked now c) = credit_view c"
  by (simp_all add: setLossDetectionTimer_def armTimerLocked_def Let_def)

lemma lost_step_credit: "lost_step mx sid st st' \<Longrightarrow> credit_view (snd (snd st')) = credit_view (snd (snd st))"
proof -
  assume l: "lost_step mx sid st st'"
  obtain b p c where st: "st = (b, p, c)" by (metis prod.collapse)
  let ?sb = "s_send (c_store c sid)"
  let ?av = "stream_avail mx b sid (sp_off (hd (lost ?sb)))"
  obtain off data sb' where pl: "popLost (word_of_int ?av) ?sb = ((off, data), sb')" by (metis prod.collapse)
  then have "nextoff sb' = nextoff ?sb" by (auto simp: popLost_def hasLost_def Let_def split: if_splits)
  then show ?thesis using l by (auto simp: st lost_step_def Let_def pl credit_upd_stream)
qed

lemma new_step_credit: "new_step mx sid st st' \<Longrightarrow> keeps_credit (snd (snd st)) (snd (snd st'))"
proof -
  assume n: "new_step mx sid st st'"
  obtain b p c where st: "st = (b, p, c)" by (metis prod.collapse)
  let ?s = "c_store c sid" let ?sb = "s_send ?s" and ?av = "stream_avail mx b sid (nextoff (s_send (c_store c sid)))"
  let ?n = "min (word_of_int ?av) (sendCredit sid c)"
  obtain off data sb' where pn: "popNew ?n ?sb = ((off, data), sb')" by (metis prod.collapse)
  let ?c1 = "(upd_stream sid (\<lambda>s. s\<lparr>s_send := sb'\<rparr>) c)\<lparr>c_sentData := c_sentData c + of_nat (length data)\<rparr>"
  have lt: "nextoff ?sb < sb_end ?sb" and cr: "sendCredit sid c \<noteq> 0" and st': "st' = appendStreamFrame sid off data (b, p, ?c1)"
    using n by (auto simp: st new_step_def Let_def pn upd_stream_def)
  have gap: "nextoff ?sb < s_sendMax ?s" "c_sentData c < c_peerMaxData c"
    "sendCredit sid c = min (s_sendMax ?s - nextoff ?sb) (c_peerMaxData c - c_sentData c)"
    using cr by (auto simp: sendCredit_def Let_def not_le split: if_splits)
  have "?n \<le> s_sendMax ?s - nextoff ?sb" unfolding gap(3) by (intro min.coboundedI2 min.cobounded1)
  then have w: "nextoff sb' \<le> s_sendMax ?s" "length data \<le> unat ?n"
    by (rule popNew_within [OF pn lt less_imp_le [OF gap(1)]])+
  have "unat ?n \<le> unat (c_peerMaxData c) - unat (c_sentData c)"
  proof -
    have "?n \<le> c_peerMaxData c - c_sentData c" unfolding gap(3) by (intro min.coboundedI2 min.cobounded2)
    then show ?thesis using unat_sub [OF less_imp_le [OF gap(2)]] by (simp add: word_le_nat_alt)
  qed
  then have sum: "unat (c_sentData c) + length data \<le> unat (c_peerMaxData c)"
    using w(2) gap(2) by (simp add: word_less_nat_alt)
  have "c_sentData c + of_nat (length data) \<le> c_peerMaxData c" by (rule add_length_le [OF sum])
  then have "keeps_credit c ?c1" using w(1) by (auto simp: keeps_credit_def credit_ok_def upd_stream_def)
  then show ?thesis
    unfolding st st' using keeps_credit_trans [OF _ keeps_credit_view [OF credit_appendStreamFrame], of c "(b, p, ?c1)"] by simp
qed

lemma frame_step_credit: "frame_step mx sid st st' \<Longrightarrow> keeps_credit (snd (snd st)) (snd (snd st'))"
proof (induction rule: frame_step.induct)
  case (lost_data st st')
  then show ?case by (intro keeps_credit_view lost_step_credit)
next
  case (new_data st st')
  then show ?case by (rule new_step_credit)
next
  case (fin st st')
  then show ?case by (auto simp: fin_step_def Let_def case_prod_beta intro!: keeps_credit_view)
qed (simp_all add: keeps_credit_view append_pending_def Let_def case_prod_beta credit_upd_stream)

interpretation credit_send: send_relation keeps_credit
proof (unfold_locales, goal_cases)
  case (2 a b c)
  then show ?case by (rule keeps_credit_trans)
qed (simp_all add: keeps_credit_view frame_step_credit)



end
