(* ===== verification/Spec2Isabelle.thy ===== *)
theory Spec2Isabelle
  imports Varint Engine_Loop Stream_Buffers Packets Trans_Params Quic_Api Quic_Wire Quic_Flush Quic_Flow
begin

text \<open>
  A verification library for fib, the Go networking library under \<open>src/go\<close>: an event loop that drives
  connections over epoll and hands their work to a pool of workers, and a QUIC transport for HTTP/3 built
  on its UDP side.

  \<^bold>\<open>The program.\<close> One goroutine per engine waits for readiness (\<open>engine_unix.go\<close>), looks the connection of an
  event up by descriptor and token, notes the readiness bits on it and submits it to a worker. The worker
  runs \<open>process\<close> (\<open>connection.go\<close>): it flushes queued output, reads input and calls the handler, and goes on
  until no readiness is left. Any goroutine may send; what the socket does not take is queued and
  accounted for, per connection and per engine, and reads are paused above a watermark. Commands to the loop
  (closing, refreshing, dialing) go through a queue. A UDP listener keeps a connection per peer address. The
  QUIC side (\<open>http3/internal/quic\<close>) is a passive object: \<open>HandleDatagram\<close>, \<open>onTimer\<close> and the stream methods
  take its lock, change its state, send what there is to send and unlock; handler calls are queued and made
  afterwards by \<open>dispatch\<close>.

  \<^bold>\<open>How it is modelled.\<close> A mutex-protected section of the code is one definition on a record of the fields it
  uses. Machine integers are words of their width wherever they can wrap around; lengths, durations and
  times are \<open>nat\<close> or \<open>int\<close>. Nil pointers are \<open>None\<close>, errors are values. What the operating system, TLS, HKDF,
  AES and the random source answer are parameters: scripts of results, or functions of which only the
  documented laws are assumed, each where it is used. Interleavings of goroutines are inductive step relations.

  \<^bold>\<open>Event loop and connections.\<close>
  \<^item> \<open>Prelude\<close>: byte strings, slices, binary search and Go arithmetic the components share.
  \<^item> \<open>Conn_State\<close>: fields of \<open>Connection\<close>, \<open>Engine\<close>, \<open>sendItem\<close> and \<open>Config\<close>, closing, pending byte counts.
  \<^item> \<open>Send_Queue\<close> (\<open>connection.go\<close>, \<open>sendfile*.go\<close>): \<open>send\<close>, \<open>SendParts\<close>, \<open>SendFile\<close>, the queue and
    \<open>flushOutput\<close>. Output leaves in order, without loss or repetition, whatever the socket answers.
  \<^item> \<open>Conn_Rounds\<close> (\<open>connection.go\<close>): \<open>noteEvent\<close>, \<open>process\<close> and the reading loops. At most one worker runs a
    connection; readiness is acted on; \<open>process\<close> returns.
  \<^item> \<open>Fd_Table\<close> (\<open>engine_unix.go\<close>): the paged descriptor table as a map, and event tokens that never resolve to
    a later owner of a descriptor.
  \<^item> \<open>Engine_Loop\<close> (\<open>engine.go\<close>, \<open>dial*.go\<close>, \<open>udp.go\<close>): commands, pausing by watermark and budget, dials,
    UDP peers, closing. The budget is the sum of what the connections hold; a dial is reported once.

  \<^bold>\<open>QUIC.\<close>
  \<^item> \<open>Varint\<close>, \<open>Trans_Params\<close>, \<open>Packets\<close>: the codecs for integers, transport parameters and packets, with header
    and packet protection. Each decoder inverts its encoder.
  \<^item> \<open>Chacha\<close>: ChaCha20-Poly1305; the arithmetic on limbs computes the authenticator of RFC 8439.
  \<^item> \<open>Stream_Buffers\<close> (\<open>buffer.go\<close>): send and reassembly buffers and packet number ranges against the byte string
    and the sets they stand for.
  \<^item> \<open>Quic_State\<close>, \<open>Quic_Stream\<close>, \<open>Recovery\<close>, \<open>Quic_Frames\<close>, \<open>Quic_Send\<close>, \<open>Quic_Conn\<close>, \<open>Quic_Api\<close>: the connection, file by
    file (\<open>conn.go\<close>, \<open>stream.go\<close>, \<open>recovery.go\<close>, \<open>frames.go\<close>, \<open>send.go\<close>), down to every frame type and error. Streams are
    addressed by their ID in a store that keeps finished ones, as Go keeps objects alive that are still
    referenced. \<open>Quic_Send\<close> ends in the locales \<open>payload_relation\<close>, \<open>build_relation\<close>, \<open>datagram_relation\<close> and
    \<open>send_relation\<close>, which turn a relation kept by single updates into one kept by sending.
  \<^item> \<open>Quic_Invariants\<close>: what every operation keeps (\<open>evolves\<close>); with it \<open>Quic_Api\<close> shows that \<open>OnClose\<close> comes last and
    once under every interleaving of \<open>dispatch\<close>, that \<open>bytesInFlight\<close> is exact, and that packets kept back are bounded.
  \<^item> \<open>Quic_Wire\<close>: ACK and STREAM frames mean the same to both sides.
  \<^item> \<open>Quic_Size\<close>, \<open>Quic_Flush\<close>, \<open>Quic_Flow\<close>: how large what is built gets, that \<open>flushLocked\<close> returns, that a server does not
    amplify and that credit is not exceeded.

  \<^bold>\<open>Loops.\<close> Loops over data are total functions with a termination proof. \<open>send_loop\<close> of \<open>flushLocked\<close> is a partial
  function; \<open>Quic_Flush\<close> proves that it returns. \<open>process\<close> takes the rounds of events still to come as a list, and
  \<open>drainDatagrams\<close> fuel of one more than the queued datagrams, which is shown to be enough.

  \<^bold>\<open>Assumptions.\<close> Offsets of send buffers and the congestion window stay below \<open>2\<^sup>63\<close> where sizes and termination of
  sending are stated. The generation of event tokens wraps after \<open>2\<^sup>32\<close> accepts, and the statement about stale tokens
  says so. AES-GCM satisfies the laws of the locale \<open>aead\<close>; ChaCha20-Poly1305 is proved to.

  \<^bold>\<open>Not modelled.\<close> System calls, pollers and sockets, whose answers are parameters; the Windows and portable backends,
  second implementations of the engine; the task pools, of which the engine only needs that an accepted task runs
  once; TLS, which is \<open>crypto/tls\<close>; HTTP/1.1, HTTP/2 and HTTP/3, which work on the types of \<open>net/http\<close>; HPACK, QPACK and
  WebSocket; the C library, which is independent of the Go code. Sharing of byte arrays between buffers is modelled by
  values: the code copies a datagram before it keeps it. The texts of errors are kept only where code compares them.
\<close>

end
